(* ===== verification/Prelude.thy ===== *)
theory Prelude
  imports Main "HOL-Library.Word" "HOL-Library.Monad_Syntax" "HOL-Library.Multiset"
    "HOL-Library.Signed_Division"
begin

text \<open>
  Shared vocabulary of the irqbalance development: machine integers, the two loop shapes of the
  C code (a loop that stores one array element per round, and a traversal of a list that calls a
  handler which may fault), and the lemmas on them that the component theories rely on.

  Machine model: the target is AArch64 (LP64): \<open>unsigned long\<close> and \<open>uint64_t\<close> are 64-bit
  words, \<open>int\<close> is a 32-bit word read with \<open>sint\<close>. A computation of type \<open>'a option\<close> yields
  \<open>None\<close> exactly when the C code performs an invalid memory access (a NULL or dangling pointer,
  an index outside an array). Where C leaves the result of an arithmetic operation undefined, the model
  has what the machine computes: signed addition and multiplication wrap, and a shift takes the low six
  bits of its count.
\<close>

unbundle bit_operations_syntax

type_synonym u64 = "64 word"
type_synonym u32 = "32 word"
type_synonym c_int = "32 word"
type_synonym addr = nat

named_theorems bit_laws \<open>bit-level readings of the word operations the bitmap code uses\<close>
named_theorems frame \<open>fields and cells an operation leaves alone\<close>


section \<open>Loops that store one element per round\<close>

text \<open>\<open>for (k = 0; k < n; k++) d[k] = f(k);\<close> with an \<open>f\<close> that does not read \<open>d\<close>.\<close>

definition store_loop :: "(nat \<Rightarrow> 'a) \<Rightarrow> nat \<Rightarrow> 'a list \<Rightarrow> 'a list" where
  "store_loop f n d = foldl (\<lambda>d k. d[k := f k]) d [0..<n]"

lemma store_loop_0 [simp]: "store_loop f 0 d = d"
  by (simp add: store_loop_def)

lemma store_loop_Suc: "store_loop f (Suc n) d = (store_loop f n d)[n := f n]"
  by (simp add: store_loop_def)

lemma length_store_loop [simp]: "length (store_loop f n d) = length d"
  by (induction n) (simp_all add: store_loop_Suc)

lemma nth_store_loop:
  "i < length d \<Longrightarrow> store_loop f n d ! i = (if i < n then f i else d ! i)"
  by (induction n) (auto simp: store_loop_Suc nth_list_update less_Suc_eq)


section \<open>Traversals that call a handler\<close>

text \<open>
  The traversals of the program read the \<open>next\<close> link of a node before they call the handler on
  it, so a handler may unlink the node it is called on; the handler then sees the elements the
  list had when the traversal began, in order.
\<close>

primrec for_each :: "('a \<Rightarrow> 's \<Rightarrow> 's option) \<Rightarrow> 'a list \<Rightarrow> 's \<Rightarrow> 's option" where
  "for_each cb [] s = Some s"
| "for_each cb (x # xs) s = Option.bind (cb x s) (for_each cb xs)"

lemma for_each_append:
  "for_each cb (xs @ ys) s = Option.bind (for_each cb xs s) (for_each cb ys)"
proof (induction xs arbitrary: s)
  case (Cons x xs)
  then show ?case by (cases "cb x s") simp_all
qed simp

lemma for_each_cong [fundef_cong]:
  "xs = ys \<Longrightarrow> s = t \<Longrightarrow> (\<And>x u. x \<in> set ys \<Longrightarrow> cb x u = cb' x u) \<Longrightarrow>
   for_each cb xs s = for_each cb' ys t"
proof (induction xs arbitrary: ys s t)
  case (Cons x xs)
  then show ?case by (cases "cb' x t") auto
qed auto

lemma for_each_total_inv:
  assumes "I s"
    and "\<And>x t. x \<in> set xs \<Longrightarrow> I t \<Longrightarrow> \<exists>t'. cb x t = Some t' \<and> I t'"
  shows "\<exists>s'. for_each cb xs s = Some s' \<and> I s'"
  using assms
proof (induction xs arbitrary: s)
  case (Cons x xs)
  then obtain t where "cb x s = Some t" "I t" by force
  moreover from this Cons.prems have "\<exists>s'. for_each cb xs t = Some s' \<and> I s'"
    by (intro Cons.IH) auto
  ultimately show ?case by simp
qed simp

lemma for_each_inv:
  assumes "for_each cb xs s = Some s'" "I s"
    and "\<And>x t t'. x \<in> set xs \<Longrightarrow> cb x t = Some t' \<Longrightarrow> I t \<Longrightarrow> I t'"
  shows "I s'"
  using assms
proof (induction xs arbitrary: s)
  case (Cons x xs)
  then obtain t where "cb x s = Some t" "for_each cb xs t = Some s'"
    by (auto split: bind_splits)
  with Cons show ?case by (metis list.set_intros)
qed simp

lemma for_each_rest:
  assumes "I xs s" and "\<And>x xs s. I (x # xs) s \<Longrightarrow> \<exists>s'. cb x s = Some s' \<and> I xs s'"
  shows "\<exists>s'. for_each cb xs s = Some s' \<and> I [] s'"
  using assms(1)
proof (induction xs arbitrary: s)
  case (Cons x xs)
  then obtain t where "cb x s = Some t" "I xs t" using assms(2) by blast
  with Cons.IH show ?case by simp
qed simp

text \<open>A recursive handler can be defined through \<open>for_each\<close> by \<open>partial_function\<close>.\<close>

lemma for_each_mono [partial_function_mono]:
  assumes "\<And>x t. mono_option (\<lambda>f. B x t f)"
  shows "mono_option (\<lambda>f. for_each (\<lambda>x t. B x t f) xs s)"
proof (induction xs arbitrary: s)
  case Nil
  show ?case by (simp add: option.const_mono)
next
  case (Cons x xs)
  show ?case unfolding for_each.simps by (intro bind_mono assms Cons)
qed

end
