(* ===== verification/Bitmap.thy ===== *)
theory Bitmap
  imports Prelude
begin

text \<open>
  The bitmap library: \<open>non-atomic.h\<close>, \<open>bitmap.h\<close> and the word loops of \<open>bitmap.c\<close>.
  A bitmap is an array of 64-bit words, \<open>u64 list\<close>; a destination array is passed in and the
  updated array returned. The C names that start with two underscores carry the prefix \<open>gen_\<close>
  here (\<open>__bitmap_and\<close> is \<open>gen_bitmap_and\<close>). Printing and parsing are in \<open>Bitmap_Text\<close>.

  The reading of a bitmap is the set of its positions below \<open>nbits\<close> that are set
  (\<open>bm_set\<close>); the lemmas give every operation as an operation on these sets.
\<close>

section \<open>Layout\<close>

text \<open>Widths are C \<open>int\<close>s; they are natural numbers here, below \<open>2 ^ 31 - 63\<close>, where \<open>bits + 63\<close> does not
  overflow. A destination array has the words of its width at least.\<close>

definition BITS_PER_LONG :: nat where
  [simp]: "BITS_PER_LONG = 64"

definition BITS_TO_LONGS :: "nat \<Rightarrow> nat" where
  "BITS_TO_LONGS bits = (bits + BITS_PER_LONG - 1) div BITS_PER_LONG"

definition BITMAP_LAST_WORD_MASK :: "nat \<Rightarrow> u64" where
  "BITMAP_LAST_WORD_MASK nbits =
     (if nbits mod BITS_PER_LONG \<noteq> 0 then push_bit (nbits mod BITS_PER_LONG) 1 - 1 else NOT 0)"


section \<open>Single bits (non-atomic.h)\<close>

text \<open>
  The bit number is a C \<open>int\<close>, and so is \<open>BITS_PER_LONG\<close>: the division rounds towards zero, and a number
  from -63 to -1 addresses word 0. The remainder is negative then, and with it the count of the shift, of
  which the machine takes the low six bits (\<open>nr mod 64\<close>). \<open>test_bit\<close> masks the count itself.
\<close>

definition BITOP_MASK :: "int \<Rightarrow> u64" where
  "BITOP_MASK nr = push_bit (nat (nr smod int BITS_PER_LONG mod 64)) 1"

definition BITOP_WORD :: "int \<Rightarrow> int" where
  "BITOP_WORD nr = nr sdiv int BITS_PER_LONG"

text \<open>A word before or behind the array is an invalid access: \<open>None\<close>.\<close>

definition bit_in_range :: "int \<Rightarrow> u64 list \<Rightarrow> bool" where
  "bit_in_range nr addr \<longleftrightarrow> 0 \<le> BITOP_WORD nr \<and> BITOP_WORD nr < int (length addr)"

definition set_bit_c :: "int \<Rightarrow> u64 list \<Rightarrow> u64 list option" where
  "set_bit_c nr addr =
     (if bit_in_range nr addr
      then let p = nat (BITOP_WORD nr) in Some (addr[p := addr ! p OR BITOP_MASK nr])
      else None)"

definition clear_bit_c :: "int \<Rightarrow> u64 list \<Rightarrow> u64 list option" where
  "clear_bit_c nr addr =
     (if bit_in_range nr addr
      then let p = nat (BITOP_WORD nr) in Some (addr[p := addr ! p AND NOT (BITOP_MASK nr)])
      else None)"

definition change_bit_c :: "int \<Rightarrow> u64 list \<Rightarrow> u64 list option" where
  "change_bit_c nr addr =
     (if bit_in_range nr addr
      then let p = nat (BITOP_WORD nr) in Some (addr[p := addr ! p XOR BITOP_MASK nr])
      else None)"

definition test_and_set_bit_c :: "int \<Rightarrow> u64 list \<Rightarrow> (bool \<times> u64 list) option" where
  "test_and_set_bit_c nr addr =
     (if bit_in_range nr addr
      then let p = nat (BITOP_WORD nr); msk = BITOP_MASK nr; old = addr ! p
           in Some (old AND msk \<noteq> 0, addr[p := old OR msk])
      else None)"

definition test_and_clear_bit_c :: "int \<Rightarrow> u64 list \<Rightarrow> (bool \<times> u64 list) option" where
  "test_and_clear_bit_c nr addr =
     (if bit_in_range nr addr
      then let p = nat (BITOP_WORD nr); msk = BITOP_MASK nr; old = addr ! p
           in Some (old AND msk \<noteq> 0, addr[p := old AND NOT msk])
      else None)"

definition test_and_change_bit_c :: "int \<Rightarrow> u64 list \<Rightarrow> (bool \<times> u64 list) option" where
  "test_and_change_bit_c nr addr =
     (if bit_in_range nr addr
      then let p = nat (BITOP_WORD nr); msk = BITOP_MASK nr; old = addr ! p
           in Some (old AND msk \<noteq> 0, addr[p := old XOR msk])
      else None)"

definition test_bit_c :: "int \<Rightarrow> u64 list \<Rightarrow> bool option" where
  "test_bit_c nr addr =
     (if bit_in_range nr addr
      then Some (1 AND drop_bit (nat (nr AND (int BITS_PER_LONG - 1))) (addr ! nat (BITOP_WORD nr)) \<noteq> 0)
      else None)"


section \<open>Counting and scanning one word (bitmap.h)\<close>

definition hweight32 :: "u32 \<Rightarrow> u32" where
  "hweight32 w =
     (let res = w - (drop_bit 1 w AND 0x55555555);
          res = (res AND 0x33333333) + (drop_bit 2 res AND 0x33333333);
          res = (res + drop_bit 4 res) AND 0x0F0F0F0F;
          res = res + drop_bit 8 res
      in (res + drop_bit 16 res) AND 0x000000FF)"

text \<open>The branch for 32-bit \<open>long\<close> is dead on this target.\<close>

definition hweight64 :: "u64 \<Rightarrow> u64" where
  "hweight64 w =
     (let w = w - (drop_bit 1 w AND 0x5555555555555555);
          w = (w AND 0x3333333333333333) + (drop_bit 2 w AND 0x3333333333333333);
          w = (w + drop_bit 4 w) AND 0x0F0F0F0F0F0F0F0F
      in drop_bit 56 (w * 0x0101010101010101))"

definition hweight_long :: "u64 \<Rightarrow> u64" where
  "hweight_long w = hweight64 w"

text \<open>One halving step of \<open>fls\<close>: if the top \<open>sh\<close> bits are clear, shift them out.\<close>

definition fls_step :: "u32 \<Rightarrow> nat \<Rightarrow> u32 \<times> nat \<Rightarrow> u32 \<times> nat" where
  "fls_step hi sh = (\<lambda>(x, r). if x AND hi = 0 then (push_bit sh x, r - sh) else (x, r))"

definition fls :: "u32 \<Rightarrow> nat" where
  "fls x =
     (if x = 0 then 0
      else snd (fls_step 0x80000000 1 (fls_step 0xc0000000 2 (fls_step 0xf0000000 4
             (fls_step 0xff000000 8 (fls_step 0xffff0000 16 (x, 32)))))))"


section \<open>Word loops (bitmap.c)\<close>

definition gen_bitmap_empty :: "u64 list \<Rightarrow> nat \<Rightarrow> bool" where
  "gen_bitmap_empty bitmap bits =
     (let lim = bits div BITS_PER_LONG in
      list_all (\<lambda>k. bitmap ! k = 0) [0..<lim] \<and>
      (bits mod BITS_PER_LONG \<noteq> 0 \<longrightarrow> bitmap ! lim AND BITMAP_LAST_WORD_MASK bits = 0))"

definition gen_bitmap_full :: "u64 list \<Rightarrow> nat \<Rightarrow> bool" where
  "gen_bitmap_full bitmap bits =
     (let lim = bits div BITS_PER_LONG in
      list_all (\<lambda>k. NOT (bitmap ! k) = 0) [0..<lim] \<and>
      (bits mod BITS_PER_LONG \<noteq> 0 \<longrightarrow> NOT (bitmap ! lim) AND BITMAP_LAST_WORD_MASK bits = 0))"

definition gen_bitmap_weight :: "u64 list \<Rightarrow> nat \<Rightarrow> nat" where
  "gen_bitmap_weight bitmap bits =
     (let lim = bits div BITS_PER_LONG;
          w = foldl (\<lambda>w k. w + unat (hweight_long (bitmap ! k))) 0 [0..<lim]
      in if bits mod BITS_PER_LONG \<noteq> 0
         then w + unat (hweight_long (bitmap ! lim AND BITMAP_LAST_WORD_MASK bits)) else w)"

definition gen_bitmap_equal :: "u64 list \<Rightarrow> u64 list \<Rightarrow> nat \<Rightarrow> bool" where
  "gen_bitmap_equal bitmap1 bitmap2 bits =
     (let lim = bits div BITS_PER_LONG in
      list_all (\<lambda>k. bitmap1 ! k = bitmap2 ! k) [0..<lim] \<and>
      (bits mod BITS_PER_LONG \<noteq> 0 \<longrightarrow>
         (bitmap1 ! lim XOR bitmap2 ! lim) AND BITMAP_LAST_WORD_MASK bits = 0))"

definition gen_bitmap_complement :: "u64 list \<Rightarrow> u64 list \<Rightarrow> nat \<Rightarrow> u64 list" where
  "gen_bitmap_complement dst src bits =
     (let lim = bits div BITS_PER_LONG;
          dst = store_loop (\<lambda>k. NOT (src ! k)) lim dst
      in if bits mod BITS_PER_LONG \<noteq> 0
         then dst[lim := NOT (src ! lim) AND BITMAP_LAST_WORD_MASK bits] else dst)"

text \<open>The value stored in \<open>dst[k]\<close> by one round of \<open>__bitmap_shift_right\<close>.\<close>

definition shift_right_word :: "u64 list \<Rightarrow> nat \<Rightarrow> nat \<Rightarrow> nat \<Rightarrow> u64" where
  "shift_right_word src shift bits k =
     (let lim = BITS_TO_LONGS bits; left = bits mod BITS_PER_LONG;
          off = shift div BITS_PER_LONG; rem = shift mod BITS_PER_LONG;
          msk = push_bit left 1 - 1;
          upper = (if rem = 0 \<or> lim \<le> off + k + 1 then 0
                   else if off + k + 1 = lim - 1 \<and> left \<noteq> 0 then src ! (off + k + 1) AND msk
                   else src ! (off + k + 1));
          lower = (if left \<noteq> 0 \<and> off + k = lim - 1 then src ! (off + k) AND msk
                   else src ! (off + k));
          d = push_bit (BITS_PER_LONG - rem) upper OR drop_bit rem lower
      in if left \<noteq> 0 \<and> k = lim - 1 then d AND msk else d)"

text \<open>
  The words that are left over are cleared with \<open>memset\<close>, \<open>off\<close> words from \<open>dst[lim - off]\<close> on. When the shift
  is larger than the bitmap, this is before the array: \<open>None\<close>.
\<close>

definition gen_bitmap_shift_right :: "u64 list \<Rightarrow> u64 list \<Rightarrow> nat \<Rightarrow> nat \<Rightarrow> u64 list option" where
  "gen_bitmap_shift_right dst src shift bits =
     (let lim = BITS_TO_LONGS bits; off = shift div BITS_PER_LONG;
          dst = store_loop (shift_right_word src shift bits) (lim - off) dst
      in if off \<noteq> 0 \<and> (lim < off \<or> length dst < lim) then None
         else Some (foldl (\<lambda>d j. d[lim - off + j := 0]) dst [0..<off]))"

text \<open>
  The value stored in \<open>dst[k + off]\<close> by one round of \<open>__bitmap_shift_left\<close>. The loop runs
  downwards and is called with \<open>dst\<close> and \<open>src\<close> the same array (\<open>src = None\<close>), when every round
  reads the array as the earlier rounds left it.
\<close>

definition shift_left_word :: "u64 list \<Rightarrow> nat \<Rightarrow> nat \<Rightarrow> nat \<Rightarrow> u64" where
  "shift_left_word src shift bits k =
     (let lim = BITS_TO_LONGS bits; left = bits mod BITS_PER_LONG;
          off = shift div BITS_PER_LONG; rem = shift mod BITS_PER_LONG;
          lower = (if rem \<noteq> 0 \<and> k > 0 then src ! (k - 1) else 0);
          upper = (if left \<noteq> 0 \<and> k = lim - 1 then src ! k AND (push_bit left 1 - 1) else src ! k);
          d = drop_bit (BITS_PER_LONG - rem) lower OR push_bit rem upper
      in if left \<noteq> 0 \<and> k + off = lim - 1 then d AND (push_bit left 1 - 1) else d)"

text \<open>Here \<open>memset\<close> clears the first \<open>off\<close> words, which may be more than the array has: \<open>None\<close>.\<close>

definition gen_bitmap_shift_left ::
  "u64 list \<Rightarrow> u64 list option \<Rightarrow> nat \<Rightarrow> nat \<Rightarrow> u64 list option" where
  "gen_bitmap_shift_left dst src shift bits =
     (let lim = BITS_TO_LONGS bits; off = shift div BITS_PER_LONG;
          rd = (\<lambda>d. case src of None \<Rightarrow> d | Some s \<Rightarrow> s);
          dst = foldl (\<lambda>d k. d[k + off := shift_left_word (rd d) shift bits k]) dst
                  (rev [0..<lim - off])
      in if length dst < off then None else Some (store_loop (\<lambda>_. 0) off dst))"

definition gen_bitmap_and :: "u64 list \<Rightarrow> u64 list \<Rightarrow> u64 list \<Rightarrow> nat \<Rightarrow> u64 list" where
  "gen_bitmap_and dst bitmap1 bitmap2 bits =
     store_loop (\<lambda>k. bitmap1 ! k AND bitmap2 ! k) (BITS_TO_LONGS bits) dst"

definition gen_bitmap_or :: "u64 list \<Rightarrow> u64 list \<Rightarrow> u64 list \<Rightarrow> nat \<Rightarrow> u64 list" where
  "gen_bitmap_or dst bitmap1 bitmap2 bits =
     store_loop (\<lambda>k. bitmap1 ! k OR bitmap2 ! k) (BITS_TO_LONGS bits) dst"

definition gen_bitmap_xor :: "u64 list \<Rightarrow> u64 list \<Rightarrow> u64 list \<Rightarrow> nat \<Rightarrow> u64 list" where
  "gen_bitmap_xor dst bitmap1 bitmap2 bits =
     store_loop (\<lambda>k. bitmap1 ! k XOR bitmap2 ! k) (BITS_TO_LONGS bits) dst"

definition gen_bitmap_andnot :: "u64 list \<Rightarrow> u64 list \<Rightarrow> u64 list \<Rightarrow> nat \<Rightarrow> u64 list" where
  "gen_bitmap_andnot dst bitmap1 bitmap2 bits =
     store_loop (\<lambda>k. bitmap1 ! k AND NOT (bitmap2 ! k)) (BITS_TO_LONGS bits) dst"

definition gen_bitmap_intersects :: "u64 list \<Rightarrow> u64 list \<Rightarrow> nat \<Rightarrow> bool" where
  "gen_bitmap_intersects bitmap1 bitmap2 bits =
     (let lim = bits div BITS_PER_LONG in
      list_ex (\<lambda>k. bitmap1 ! k AND bitmap2 ! k \<noteq> 0) [0..<lim] \<or>
      bits mod BITS_PER_LONG \<noteq> 0 \<and>
        (bitmap1 ! lim AND bitmap2 ! lim) AND BITMAP_LAST_WORD_MASK bits \<noteq> 0)"


section \<open>The inline front ends (bitmap.h)\<close>

definition bitmap_zero :: "u64 list \<Rightarrow> nat \<Rightarrow> u64 list" where
  "bitmap_zero dst nbits =
     (if nbits \<le> BITS_PER_LONG then dst[0 := 0]
      else store_loop (\<lambda>_. 0) (BITS_TO_LONGS nbits) dst)"

definition bitmap_fill :: "u64 list \<Rightarrow> nat \<Rightarrow> u64 list" where
  "bitmap_fill dst nbits =
     (let nlongs = BITS_TO_LONGS nbits;
          dst = (if nlongs > 1 then store_loop (\<lambda>_. NOT 0) (nlongs - 1) dst else dst)
      in dst[nlongs - 1 := BITMAP_LAST_WORD_MASK nbits])"

definition bitmap_copy :: "u64 list \<Rightarrow> u64 list \<Rightarrow> nat \<Rightarrow> u64 list" where
  "bitmap_copy dst src nbits =
     (if nbits \<le> BITS_PER_LONG then dst[0 := src ! 0]
      else store_loop (\<lambda>k. src ! k) (BITS_TO_LONGS nbits) dst)"

definition bitmap_and :: "u64 list \<Rightarrow> u64 list \<Rightarrow> u64 list \<Rightarrow> nat \<Rightarrow> u64 list" where
  "bitmap_and dst src1 src2 nbits =
     (if nbits \<le> BITS_PER_LONG then dst[0 := src1 ! 0 AND src2 ! 0]
      else gen_bitmap_and dst src1 src2 nbits)"

definition bitmap_or :: "u64 list \<Rightarrow> u64 list \<Rightarrow> u64 list \<Rightarrow> nat \<Rightarrow> u64 list" where
  "bitmap_or dst src1 src2 nbits =
     (if nbits \<le> BITS_PER_LONG then dst[0 := src1 ! 0 OR src2 ! 0]
      else gen_bitmap_or dst src1 src2 nbits)"

definition bitmap_xor :: "u64 list \<Rightarrow> u64 list \<Rightarrow> u64 list \<Rightarrow> nat \<Rightarrow> u64 list" where
  "bitmap_xor dst src1 src2 nbits =
     (if nbits \<le> BITS_PER_LONG then dst[0 := src1 ! 0 XOR src2 ! 0]
      else gen_bitmap_xor dst src1 src2 nbits)"

definition bitmap_andnot :: "u64 list \<Rightarrow> u64 list \<Rightarrow> u64 list \<Rightarrow> nat \<Rightarrow> u64 list" where
  "bitmap_andnot dst src1 src2 nbits =
     (if nbits \<le> BITS_PER_LONG then dst[0 := src1 ! 0 AND NOT (src2 ! 0)]
      else gen_bitmap_andnot dst src1 src2 nbits)"

definition bitmap_complement :: "u64 list \<Rightarrow> u64 list \<Rightarrow> nat \<Rightarrow> u64 list" where
  "bitmap_complement dst src nbits =
     (if nbits \<le> BITS_PER_LONG then dst[0 := NOT (src ! 0) AND BITMAP_LAST_WORD_MASK nbits]
      else gen_bitmap_complement dst src nbits)"

definition bitmap_equal :: "u64 list \<Rightarrow> u64 list \<Rightarrow> nat \<Rightarrow> bool" where
  "bitmap_equal src1 src2 nbits =
     (if nbits \<le> BITS_PER_LONG then (src1 ! 0 XOR src2 ! 0) AND BITMAP_LAST_WORD_MASK nbits = 0
      else gen_bitmap_equal src1 src2 nbits)"

definition bitmap_intersects :: "u64 list \<Rightarrow> u64 list \<Rightarrow> nat \<Rightarrow> bool" where
  "bitmap_intersects src1 src2 nbits =
     (if nbits \<le> BITS_PER_LONG then (src1 ! 0 AND src2 ! 0) AND BITMAP_LAST_WORD_MASK nbits \<noteq> 0
      else gen_bitmap_intersects src1 src2 nbits)"

definition bitmap_empty :: "u64 list \<Rightarrow> nat \<Rightarrow> bool" where
  "bitmap_empty src nbits =
     (if nbits \<le> BITS_PER_LONG then src ! 0 AND BITMAP_LAST_WORD_MASK nbits = 0
      else gen_bitmap_empty src nbits)"

definition bitmap_full :: "u64 list \<Rightarrow> nat \<Rightarrow> bool" where
  "bitmap_full src nbits =
     (if nbits \<le> BITS_PER_LONG then NOT (src ! 0) AND BITMAP_LAST_WORD_MASK nbits = 0
      else gen_bitmap_full src nbits)"

definition bitmap_weight :: "u64 list \<Rightarrow> nat \<Rightarrow> nat" where
  "bitmap_weight src nbits =
     (if nbits \<le> BITS_PER_LONG
      then unat (hweight_long (src ! 0 AND BITMAP_LAST_WORD_MASK nbits))
      else gen_bitmap_weight src nbits)"

definition bitmap_shift_right :: "u64 list \<Rightarrow> u64 list \<Rightarrow> nat \<Rightarrow> nat \<Rightarrow> u64 list option" where
  "bitmap_shift_right dst src n nbits =
     (if nbits \<le> BITS_PER_LONG then Some (dst[0 := drop_bit (n mod 64) (src ! 0)])
      else gen_bitmap_shift_right dst src n nbits)"

definition bitmap_shift_left :: "u64 list \<Rightarrow> u64 list \<Rightarrow> nat \<Rightarrow> nat \<Rightarrow> u64 list option" where
  "bitmap_shift_left dst src n nbits =
     (if nbits \<le> BITS_PER_LONG then Some (dst[0 := push_bit (n mod 64) (src ! 0) AND BITMAP_LAST_WORD_MASK nbits])
      else gen_bitmap_shift_left dst (Some src) n nbits)"


section \<open>Bitmaps as sets of positions\<close>

definition bit_at :: "u64 list \<Rightarrow> nat \<Rightarrow> bool" where
  "bit_at xs i = bit (xs ! (i div 64)) (i mod 64)"

definition bm_set :: "nat \<Rightarrow> u64 list \<Rightarrow> nat set" where
  "bm_set nbits xs = {i. i < nbits \<and> bit_at xs i}"

lemma in_bm_set [simp]: "i \<in> bm_set nbits xs \<longleftrightarrow> i < nbits \<and> bit_at xs i"
  by (simp add: bm_set_def)

lemma finite_bm_set [simp]: "finite (bm_set nbits xs)"
  by (rule finite_subset [of _ "{..<nbits}"]) auto

lemma BITS_TO_LONGS_alt: "BITS_TO_LONGS n = n div 64 + (if n mod 64 = 0 then 0 else 1)"
proof (cases "n mod 64 = 0")
  case False
  moreover define q r where "q = n div 64" and "r = n mod 64"
  ultimately have "n + 63 = (n div 64 + 1) * 64 + (n mod 64 - 1)"
    using div_mult_mod_eq [of n 64, folded q_def r_def] by (fold q_def r_def) simp
  moreover have "n mod 64 - 1 < 64" using mod_less_divisor [of 64 n] by linarith
  ultimately have "(n + 63) div 64 = n div 64 + 1"
    by (metis div_mult_self3 div_less add.right_neutral zero_neq_numeral)
  with False show ?thesis by (simp add: BITS_TO_LONGS_def)
qed (auto simp: BITS_TO_LONGS_def elim!: dvdE)

lemma word_index_less: "i < nbits \<Longrightarrow> i div 64 < BITS_TO_LONGS nbits"
  by (simp add: BITS_TO_LONGS_def)

lemma bit_BITMAP_LAST_WORD_MASK [bit_laws]:
  "bit (BITMAP_LAST_WORD_MASK n) j \<longleftrightarrow> j < 64 \<and> (n mod 64 \<noteq> 0 \<longrightarrow> j < n mod 64)"
  by (auto simp: BITMAP_LAST_WORD_MASK_def bit_simps simp flip: mask_eq_exp_minus_1)

text \<open>The position of the bit a bit number addresses.\<close>

definition bit_pos :: "int \<Rightarrow> nat" where
  "bit_pos nr = (if nr < 0 then nat (nr + 64) else nat nr)"

lemma bit_pos_nonneg [simp]: "0 \<le> nr \<Longrightarrow> bit_pos nr = nat nr"
  by (simp add: bit_pos_def)

lemma BITOP_WORD_eq: "BITOP_WORD nr = (if nr < 0 then - (- nr div 64) else nr div 64)"
  by (simp add: BITOP_WORD_def signed_divide_int_def sgn_if)

lemma bit_word_range: "0 \<le> BITOP_WORD nr \<longleftrightarrow> -64 < nr"
  by (auto simp: BITOP_WORD_eq pos_imp_zdiv_nonneg_iff not_less)

lemma smod_mod_64: "nr smod 64 mod 64 = nr mod (64 :: int)"
  by (simp add: signed_modulo_int_eq_modulo_int mod_diff_right_eq)

lemma and_63: "nr AND 63 = nr mod (64 :: int)"
  using take_bit_eq_mask [of 6 nr] by (simp add: take_bit_eq_mod mask_eq_exp_minus_1)

lemma bit_pos_word: "-64 < nr \<Longrightarrow> bit_pos nr div 64 = nat (BITOP_WORD nr)"
  by (auto simp: bit_pos_def BITOP_WORD_eq nat_div_distrib div_pos_pos_trivial)

lemma bit_pos_bit: "-64 < nr \<Longrightarrow> bit_pos nr mod 64 = nat (nr mod 64)"
proof -
  assume a: "-64 < nr"
  have "nr mod 64 = nr + 64" if "nr < 0"
    using a that mod_add_self2 [of nr 64] mod_pos_pos_trivial [of "nr + 64" 64] by simp
  with a show ?thesis by (auto simp: bit_pos_def nat_mod_distrib)
qed

lemma bit_BITOP_MASK [bit_laws]: "bit (BITOP_MASK nr) j \<longleftrightarrow> j = nat (nr mod 64)"
  by (auto simp: BITOP_MASK_def smod_mod_64 bit_simps nat_less_iff)

text \<open>The scan shared by the Boolean operations: whole words first, then the masked last one.\<close>

lemma word_scan_zero:
  "(\<forall>k < n div 64. w k = 0) \<and> (n mod 64 \<noteq> 0 \<longrightarrow> w (n div 64) AND BITMAP_LAST_WORD_MASK n = 0)
   \<longleftrightarrow> (\<forall>i < n. \<not> bit (w (i div 64) :: u64) (i mod 64))" (is "?L \<longleftrightarrow> ?R")
proof
  assume L: ?L
  show ?R
  proof (intro allI impI)
    fix i assume "i < n"
    then consider "i div 64 < n div 64"
      | "i div 64 = n div 64" "n mod 64 \<noteq> 0" "i mod 64 < n mod 64"
      by (metis div_le_mono le_less less_nat_zero_code mod_div_decomp nat_add_left_cancel_less
          order_less_imp_le)
    then show "\<not> bit (w (i div 64)) (i mod 64)"
    proof cases
      case 2
      with L have "\<not> bit (w (n div 64) AND BITMAP_LAST_WORD_MASK n) (i mod 64)" by simp
      with 2 show ?thesis by (simp add: bit_simps bit_laws)
    qed (use L in simp)
  qed
next
  assume R: ?R
  have bits: "\<not> bit (w k) j" if "k * 64 + j < n" "j < 64" for k j
    using R [rule_format, OF that(1)] that(2) by simp
  show ?L
  proof (intro conjI allI impI)
    fix k assume "k < n div 64"
    then have "k * 64 + j < n" if "j < 64" for j using that by linarith
    with bits show "w k = 0" by (intro bit_eqI) (auto dest!: bit_imp_le_length simp: possible_bit_def)
  next
    assume "n mod 64 \<noteq> 0"
    moreover have "n div 64 * 64 + j < n" if "j < n mod 64" for j
      using that div_mult_mod_eq [of n 64] by linarith
    ultimately show "w (n div 64) AND BITMAP_LAST_WORD_MASK n = 0"
      using bits [of "n div 64"]
      by (intro bit_eqI) (auto simp: bit_simps bit_laws)
  qed
qed

lemma bm_set_eq_iff: "bm_set n xs = bm_set n ys \<longleftrightarrow> (\<forall>i<n. bit_at xs i = bit_at ys i)"
  by (auto simp: set_eq_iff)

lemma bit_at_store_loop:
  "i div 64 < length d \<Longrightarrow>
   bit_at (store_loop f n d) i = (if i div 64 < n then bit (f (i div 64)) (i mod 64) else bit_at d i)"
  by (simp add: bit_at_def nth_store_loop)

lemma bit_at_update_0:
  "i < 64 \<Longrightarrow> d \<noteq> [] \<Longrightarrow> bit_at (d[0 := w]) i = bit w i"
  by (simp add: bit_at_def)

text \<open>
  An operation that computes each destination word from the source words at the same index, as
  the two front-end branches do it: one word for a short bitmap, a loop for a longer one.
\<close>

lemma bit_at_wordwise:
  assumes "i < nbits" "BITS_TO_LONGS nbits \<le> length d"
  shows "bit_at (if nbits \<le> 64 then d[0 := f 0] else store_loop f (BITS_TO_LONGS nbits) d) i
         = bit (f (i div 64)) (i mod 64)"
proof (cases "nbits \<le> 64")
  case True
  with assms have "i < 64" "d \<noteq> []" by (auto simp: BITS_TO_LONGS_def)
  with True show ?thesis by (simp add: bit_at_update_0)
next
  case False
  with assms word_index_less [of i nbits] show ?thesis by (simp add: bit_at_store_loop)
qed

lemma bm_set_wordwise:
  "BITS_TO_LONGS n \<le> length d \<Longrightarrow>
   bm_set n (if n \<le> BITS_PER_LONG then d[0 := f 0] else store_loop f (BITS_TO_LONGS n) d)
   = {i. i < n \<and> bit (f (i div 64)) (i mod 64)}"
  by (auto simp: bit_at_wordwise split del: if_split)

lemma bm_set_bitmap_and:
  "BITS_TO_LONGS n \<le> length d \<Longrightarrow> bm_set n (bitmap_and d a b n) = bm_set n a \<inter> bm_set n b"
  unfolding bitmap_and_def gen_bitmap_and_def
  by (subst bm_set_wordwise) (auto simp: bit_at_def bit_simps)

lemma bm_set_bitmap_or:
  "BITS_TO_LONGS n \<le> length d \<Longrightarrow> bm_set n (bitmap_or d a b n) = bm_set n a \<union> bm_set n b"
  unfolding bitmap_or_def gen_bitmap_or_def
  by (subst bm_set_wordwise) (auto simp: bit_at_def bit_simps)

lemma bm_set_bitmap_xor:
  "BITS_TO_LONGS n \<le> length d \<Longrightarrow>
   bm_set n (bitmap_xor d a b n) = (bm_set n a - bm_set n b) \<union> (bm_set n b - bm_set n a)"
  unfolding bitmap_xor_def gen_bitmap_xor_def
  by (subst bm_set_wordwise) (auto simp: bit_at_def bit_simps)

lemma bm_set_bitmap_andnot:
  "BITS_TO_LONGS n \<le> length d \<Longrightarrow>
   bm_set n (bitmap_andnot d a b n) = bm_set n a - bm_set n b"
  unfolding bitmap_andnot_def gen_bitmap_andnot_def
  by (subst bm_set_wordwise) (auto simp: bit_at_def bit_simps)

lemma bm_set_bitmap_copy:
  "BITS_TO_LONGS n \<le> length d \<Longrightarrow> bm_set n (bitmap_copy d a n) = bm_set n a"
  unfolding bitmap_copy_def
  by (subst bm_set_wordwise) (auto simp: bit_at_def)

lemma bm_set_bitmap_zero:
  "BITS_TO_LONGS n \<le> length d \<Longrightarrow> bm_set n (bitmap_zero d n) = {}"
  unfolding bitmap_zero_def by (subst bm_set_wordwise) auto

lemma bit_mod_64 [simp]: "(i::nat) mod 64 < 64" by simp

lemma last_word_split:
  assumes "i < (n::nat)" "\<not> i div 64 < n div 64"
  shows "i div 64 = n div 64" "n mod 64 \<noteq> 0" "i mod 64 < n mod 64"
proof -
  from assms have "i div 64 \<le> n div 64" by (simp add: div_le_mono)
  with assms show e: "i div 64 = n div 64" by simp
  with assms show "i mod 64 < n mod 64"
    by (metis div_mult_mod_eq nat_add_left_cancel_less)
  then show "n mod 64 \<noteq> 0" by simp
qed

lemma bm_set_bitmap_complement:
  assumes "BITS_TO_LONGS n \<le> length d"
  shows "bm_set n (bitmap_complement d a n) = {..<n} - bm_set n a"
proof (cases "n \<le> 64")
  case True
  moreover have "i < 64 \<and> d \<noteq> []" if "i < n" for i
    using that True assms word_index_less [OF that] by auto
  moreover have "i < n mod 64" if "i < n" "n mod 64 \<noteq> 0" for i
    using that True last_word_split(3) [of i n] by (cases "n = 64") auto
  ultimately show ?thesis
    by (auto simp: bitmap_complement_def bit_at_update_0 bit_at_def [of a] bit_simps bit_laws)
next
  case False
  have "bit_at (gen_bitmap_complement d a n) i \<longleftrightarrow> \<not> bit_at a i" if "i < n" for i
  proof (cases "i div 64 < n div 64")
    case True
    with assms that word_index_less [OF that] show ?thesis
      by (simp add: gen_bitmap_complement_def Let_def bit_at_def nth_store_loop bit_simps)
  next
    case last: False
    note l = last_word_split [OF that last]
    from assms word_index_less [OF that] l have "n div 64 < length d" by simp
    with l show ?thesis
      by (simp add: gen_bitmap_complement_def Let_def bit_at_def bit_simps bit_laws)
  qed
  with False show ?thesis by (auto simp: bitmap_complement_def)
qed

lemma bm_set_bitmap_fill:
  assumes "0 < n" "BITS_TO_LONGS n \<le> length d"
  shows "bm_set n (bitmap_fill d n) = {..<n}"
proof -
  let ?m = "BITS_TO_LONGS n"
  have "bit_at (bitmap_fill d n) i" if "i < n" for i
  proof (cases "i div 64 = ?m - 1")
    case True
    moreover from that True have "n mod 64 \<noteq> 0 \<longrightarrow> i mod 64 < n mod 64"
      using last_word_split(3) [OF that] by (auto simp: BITS_TO_LONGS_alt)
    moreover from assms word_index_less [OF that] have "BITS_TO_LONGS n - 1 < length d" by simp
    ultimately show ?thesis
      by (auto simp: bitmap_fill_def Let_def bit_at_def bit_laws)
  next
    case False
    with assms word_index_less [OF that] show ?thesis
      by (auto simp: bitmap_fill_def Let_def bit_at_def nth_list_update nth_store_loop)
  qed
  then show ?thesis by auto
qed


lemma front_scan_zero:
  assumes "0 < n"
  shows "(if n \<le> BITS_PER_LONG then w 0 AND BITMAP_LAST_WORD_MASK n = 0
          else list_all (\<lambda>k. w k = 0) [0..<n div BITS_PER_LONG] \<and>
               (n mod BITS_PER_LONG \<noteq> 0 \<longrightarrow> w (n div BITS_PER_LONG) AND BITMAP_LAST_WORD_MASK n = 0))
         \<longleftrightarrow> (\<forall>i < n. \<not> bit (w (i div 64) :: u64) (i mod 64))"
proof -
  consider "n < 64" | "n = 64" | "64 < n" by linarith
  then show ?thesis
  proof cases
    case 1
    with assms word_scan_zero [of n w] show ?thesis by auto
  next
    case 2
    with word_scan_zero [of n w] show ?thesis
      by (simp add: BITMAP_LAST_WORD_MASK_def)
  next
    case 3
    with word_scan_zero [of n w] show ?thesis by (simp add: list_all_iff Ball_def)
  qed
qed

lemma bitmap_empty_iff: "0 < n \<Longrightarrow> bitmap_empty a n \<longleftrightarrow> bm_set n a = {}"
  unfolding bitmap_empty_def gen_bitmap_empty_def Let_def
  by (subst front_scan_zero [of n "\<lambda>k. a ! k"]) (auto simp: bit_at_def set_eq_iff)

lemma bitmap_full_iff: "0 < n \<Longrightarrow> bitmap_full a n \<longleftrightarrow> bm_set n a = {..<n}"
  unfolding bitmap_full_def gen_bitmap_full_def Let_def
  by (subst front_scan_zero [of n "\<lambda>k. NOT (a ! k)"]) (auto simp: bit_at_def set_eq_iff bit_simps)

lemma word_xor_eq_0_iff: "(a XOR b = (0::'a::len word)) = (a = b)"
  by (auto simp: bit_eq_iff bit_simps)

lemma bitmap_equal_iff:
  assumes "0 < n"
  shows "bitmap_equal a b n \<longleftrightarrow> bm_set n a = bm_set n b"
proof -
  have "(\<lambda>k. a ! k = b ! k) = (\<lambda>k. a ! k XOR b ! k = 0)"
    by (simp add: word_xor_eq_0_iff)
  then have "bitmap_equal a b n \<longleftrightarrow>
      (\<forall>i < n. \<not> bit (a ! (i div 64) XOR b ! (i div 64)) (i mod 64))"
    unfolding bitmap_equal_def gen_bitmap_equal_def Let_def
    by (subst front_scan_zero [OF assms, of "\<lambda>k. a ! k XOR b ! k", symmetric]) simp
  then show ?thesis by (auto simp: bit_at_def bm_set_eq_iff bit_simps)
qed

lemma bitmap_intersects_iff:
  "0 < n \<Longrightarrow> bitmap_intersects a b n \<longleftrightarrow> bm_set n a \<inter> bm_set n b \<noteq> {}"
proof -
  assume n: "0 < n"
  have "\<not> bitmap_intersects a b n \<longleftrightarrow> (\<forall>i < n. \<not> bit (a ! (i div 64) AND b ! (i div 64)) (i mod 64))"
    unfolding front_scan_zero [OF n, of "\<lambda>k. a ! k AND b ! k", symmetric]
    by (auto simp: bitmap_intersects_def gen_bitmap_intersects_def Let_def list_all_iff list_ex_iff)
  then show ?thesis by (auto simp: bit_at_def set_eq_iff bit_simps)
qed

text \<open>Single bits: success is exactly being in range, and the reading changes by that bit.\<close>

lemma bit_in_range_iff: "bit_in_range nr xs \<longleftrightarrow> -64 < nr \<and> bit_pos nr < 64 * length xs"
proof (cases "-64 < nr")
  case True
  then have "bit_in_range nr xs \<longleftrightarrow> bit_pos nr div 64 < length xs"
    using bit_word_range [of nr] by (auto simp: bit_in_range_def bit_pos_word)
  with True show ?thesis by (simp add: div_less_iff_less_mult mult.commute)
qed (use bit_word_range [of nr] in \<open>simp add: bit_in_range_def\<close>)

lemma bit_in_range_pos: "bit_in_range nr xs \<Longrightarrow> 0 \<le> nr \<Longrightarrow> nat nr < 64 * length xs"
  by (simp add: bit_in_range_iff)

text \<open>Updating the word of a bit number changes the reading at its position only.\<close>

lemma bit_at_update:
  assumes "bit_in_range nr xs" "\<And>j. j < 64 \<Longrightarrow> j \<noteq> nat (nr mod 64) \<Longrightarrow> bit w j = bit (xs ! nat (BITOP_WORD nr)) j"
  shows "bit_at (xs[nat (BITOP_WORD nr) := w]) i
   = (if i = bit_pos nr then bit w (nat (nr mod 64)) else bit_at xs i)"
proof -
  have r: "-64 < nr" "nat (BITOP_WORD nr) < length xs"
    using assms(1) bit_word_range [of nr] by (auto simp: bit_in_range_def)
  note p = bit_pos_word [OF r(1)] bit_pos_bit [OF r(1)]
  show ?thesis
  proof (cases "i div 64 = nat (BITOP_WORD nr)")
    case True
    then have "i = bit_pos nr \<longleftrightarrow> i mod 64 = nat (nr mod 64)" using p by (metis div_mod_decomp)
    with True r(2) p assms(2) [of "i mod 64"] show ?thesis by (auto simp: bit_at_def)
  next
    case False
    then have "i \<noteq> bit_pos nr" using p by auto
    with False show ?thesis by (simp add: bit_at_def)
  qed
qed

lemma bit_at_pos: "bit_in_range nr xs \<Longrightarrow> bit_at xs (bit_pos nr) = bit (xs ! nat (BITOP_WORD nr)) (nat (nr mod 64))"
  using bit_word_range [of nr] by (simp add: bit_in_range_def bit_at_def bit_pos_word bit_pos_bit)

lemma set_bit_c_Some:
  assumes "set_bit_c nr xs = Some ys"
  shows "length ys = length xs" "bit_at ys i = (i = bit_pos nr \<or> bit_at xs i)"
proof -
  have r: "bit_in_range nr xs" "ys = xs[nat (BITOP_WORD nr) := xs ! nat (BITOP_WORD nr) OR BITOP_MASK nr]"
    using assms by (auto simp: set_bit_c_def Let_def split: if_splits)
  show "length ys = length xs" by (simp add: r(2))
  show "bit_at ys i = (i = bit_pos nr \<or> bit_at xs i)"
    unfolding r(2) by (subst bit_at_update [OF r(1)]) (auto simp: bit_simps bit_laws)
qed

lemma clear_bit_c_Some:
  assumes "clear_bit_c nr xs = Some ys"
  shows "length ys = length xs" "bit_at ys i = (i \<noteq> bit_pos nr \<and> bit_at xs i)"
proof -
  have r: "bit_in_range nr xs" "ys = xs[nat (BITOP_WORD nr) := xs ! nat (BITOP_WORD nr) AND NOT (BITOP_MASK nr)]"
    using assms by (auto simp: clear_bit_c_def Let_def split: if_splits)
  show "length ys = length xs" by (simp add: r(2))
  show "bit_at ys i = (i \<noteq> bit_pos nr \<and> bit_at xs i)"
    unfolding r(2) by (subst bit_at_update [OF r(1)]) (auto simp: bit_simps bit_laws)
qed

lemma change_bit_c_Some:
  assumes "change_bit_c nr xs = Some ys"
  shows "length ys = length xs" "bit_at ys i = ((i = bit_pos nr) \<noteq> bit_at xs i)"
proof -
  have r: "bit_in_range nr xs" "ys = xs[nat (BITOP_WORD nr) := xs ! nat (BITOP_WORD nr) XOR BITOP_MASK nr]"
    using assms by (auto simp: change_bit_c_def Let_def split: if_splits)
  show "length ys = length xs" by (simp add: r(2))
  show "bit_at ys i = ((i = bit_pos nr) \<noteq> bit_at xs i)"
    unfolding r(2) by (subst bit_at_update [OF r(1)]) (auto simp: bit_simps bit_laws bit_at_pos [OF r(1)])
qed

lemma set_bit_c_in_range: "(\<exists>ys. set_bit_c nr xs = Some ys) \<longleftrightarrow> bit_in_range nr xs"
  by (simp add: set_bit_c_def Let_def)

lemma and_BITOP_MASK: "w AND BITOP_MASK nr \<noteq> 0 \<longleftrightarrow> bit w (nat (nr mod 64))"
  by (auto simp: bit_eq_iff [where 'a = "64 word"] bit_simps bit_laws)

lemma test_bit_c_eq: "test_bit_c nr xs = (if bit_in_range nr xs then Some (bit_at xs (bit_pos nr)) else None)"
  by (auto simp: test_bit_c_def bit_at_pos and_63 bit_eq_iff [where 'a = "64 word"] bit_simps)

lemma test_and_bit_old:
  "test_and_set_bit_c nr xs = map_option (Pair (bit_at xs (bit_pos nr))) (set_bit_c nr xs)"
  "test_and_clear_bit_c nr xs = map_option (Pair (bit_at xs (bit_pos nr))) (clear_bit_c nr xs)"
  "test_and_change_bit_c nr xs = map_option (Pair (bit_at xs (bit_pos nr))) (change_bit_c nr xs)"
  by (simp_all add: test_and_set_bit_c_def test_and_clear_bit_c_def test_and_change_bit_c_def
      set_bit_c_def clear_bit_c_def change_bit_c_def Let_def and_BITOP_MASK bit_at_pos)


section \<open>Shifts\<close>

lemma nth_foldl_store_down:
  "i < length d \<Longrightarrow>
   foldl (\<lambda>d k. d[k + off := f k]) d (rev [0..<m]) ! i
   = (if off \<le> i \<and> i < off + m then f (i - off) else d ! i)"
proof (induction m arbitrary: d)
  case (Suc m)
  show ?case
  proof (cases "i = m + off")
    case False
    with Suc show ?thesis by (auto simp: less_Suc_eq)
  qed (use Suc in simp)
qed auto

lemma bit_at_split: "j < 64 \<Longrightarrow> bit_at s (64 * k + j) = bit (s ! k) j"
  by (simp add: bit_at_def)

lemma length_foldl_store [simp]:
  "length (foldl (\<lambda>d k. d[g k := f d k]) d ks) = length d"
  by (induction ks arbitrary: d) auto

lemma shift_left_word_cong:
  "(\<And>j. j \<le> k \<Longrightarrow> a ! j = b ! j) \<Longrightarrow> shift_left_word a sh n k = shift_left_word b sh n k"
  by (simp add: shift_left_word_def Let_def)

text \<open>Shifting an array onto itself reads no word that an earlier round overwrote.\<close>

lemma shift_left_in_place:
  "gen_bitmap_shift_left m None sh n = gen_bitmap_shift_left m (Some m) sh n"
proof -
  have "foldl (\<lambda>d k. d[k + off := shift_left_word d sh n k]) d (rev [0..<l])
      = foldl (\<lambda>d k. d[k + off := shift_left_word m sh n k]) d (rev [0..<l])"
    if "\<And>j. j < l \<Longrightarrow> d ! j = m ! j" for off l d
    using that
  proof (induction l arbitrary: d)
    case (Suc l)
    from Suc.prems have "shift_left_word d sh n l = shift_left_word m sh n l"
      by (intro shift_left_word_cong) simp
    with Suc show ?case by (simp add: nth_list_update)
  qed simp
  then show ?thesis by (simp add: gen_bitmap_shift_left_def Let_def)
qed

lemma bit_shift_left_word_raw:
  assumes "j < 64"
  shows "bit (shift_left_word s sh n k) j \<longleftrightarrow>
     (if sh mod 64 \<le> j
      then bit (s ! k) (j - sh mod 64) \<and>
           (n mod 64 \<noteq> 0 \<and> k = BITS_TO_LONGS n - 1 \<longrightarrow> j - sh mod 64 < n mod 64)
      else 0 < k \<and> bit (s ! (k - 1)) (64 - sh mod 64 + j)) \<and>
     (n mod 64 \<noteq> 0 \<and> k + sh div 64 = BITS_TO_LONGS n - 1 \<longrightarrow> j < n mod 64)"
proof -
  let ?rm = "sh mod 64" and ?left = "n mod 64" and ?lim = "BITS_TO_LONGS n"
  define lower where "lower = (if ?rm \<noteq> 0 \<and> k > 0 then s ! (k - 1) else 0)"
  define upper where "upper = (if ?left \<noteq> 0 \<and> k = ?lim - 1 then s ! k AND mask ?left else s ! k)"
  define d where "d = drop_bit (64 - ?rm) lower OR push_bit ?rm upper"
  have word: "shift_left_word s sh n k
      = (if ?left \<noteq> 0 \<and> k + sh div 64 = ?lim - 1 then d AND mask ?left else d)"
    unfolding shift_left_word_def Let_def BITS_PER_LONG_def d_def lower_def upper_def
    by (simp only: mask_eq_exp_minus_1 push_bit_of_1)
  have "bit d j \<longleftrightarrow> bit lower (64 - ?rm + j) \<or> ?rm \<le> j \<and> bit upper (j - ?rm)"
    using assms by (auto simp: d_def bit_simps)
  moreover have "?rm \<le> j \<Longrightarrow> \<not> bit lower (64 - ?rm + j)"
    using bit_imp_le_length [of lower "64 - ?rm + j"] by auto
  moreover have "bit lower x \<longleftrightarrow> ?rm \<noteq> 0 \<and> 0 < k \<and> bit (s ! (k - 1)) x" for x
    by (simp add: lower_def)
  moreover have "bit upper x \<longleftrightarrow> bit (s ! k) x \<and> (?left \<noteq> 0 \<and> k = ?lim - 1 \<longrightarrow> x < ?left)" for x
    by (auto simp: upper_def bit_simps dest: bit_imp_le_length)
  ultimately have "bit d j \<longleftrightarrow>
     (if ?rm \<le> j then bit (s ! k) (j - ?rm) \<and> (?left \<noteq> 0 \<and> k = ?lim - 1 \<longrightarrow> j - ?rm < ?left)
      else 0 < k \<and> bit (s ! (k - 1)) (64 - ?rm + j))"
    by (cases "?rm \<le> j") auto
  with assms show ?thesis by (simp only: word if_distrib [of "\<lambda>w. bit w j"] bit_and_iff bit_mask_iff) auto
qed

lemma bit_shift_left_word:
  assumes "i < n" "sh div 64 \<le> i div 64"
  shows "bit (shift_left_word s sh n (i div 64 - sh div 64)) (i mod 64)
         \<longleftrightarrow> sh \<le> i \<and> bit_at s (i - sh)"
proof -
  define w j off rm where defs: "w = i div 64" "j = i mod 64" "off = sh div 64" "rm = sh mod 64"
  then have i: "i = 64 * w + j" and sh: "sh = 64 * off + rm" and j: "j < 64" and rm: "rm < 64"
    by simp_all
  have last: "n mod 64 \<noteq> 0 \<Longrightarrow> w = BITS_TO_LONGS n - 1 \<Longrightarrow> j < n mod 64"
    using last_word_split(3) [OF assms(1)] defs by (auto simp: BITS_TO_LONGS_alt)
  from assms defs have off: "off \<le> w" by simp
  have lim: "w < BITS_TO_LONGS n" using word_index_less [OF assms(1)] defs by simp
  have val: "bit (shift_left_word s sh n (w - off)) j \<longleftrightarrow>
      (if rm \<le> j then bit (s ! (w - off)) (j - rm)
       else off < w \<and> bit (s ! (w - off - 1)) (64 - rm + j))"
    unfolding bit_shift_left_word_raw [OF j] using last lim off
    by (fold defs) (auto simp: less_imp_diff_less)
  show ?thesis
  proof (cases "rm \<le> j")
    case True
    then have "i - sh = 64 * (w - off) + (j - rm)" "sh \<le> i"
      using off by (auto simp: i sh algebra_simps)
    moreover from j have "j - rm < 64" by simp
    ultimately have "bit_at s (i - sh) = bit (s ! (w - off)) (j - rm)"
      by (simp only: bit_at_split)
    with True val \<open>sh \<le> i\<close> show ?thesis by (fold defs) simp
  next
    case False
    show ?thesis
    proof (cases "w = off")
      case True
      with False val show ?thesis by (fold defs) (simp add: i sh)
    next
      case wo: False
      with False off rm have "i - sh = 64 * (w - off - 1) + (64 + j - rm)" "sh \<le> i"
        by (auto simp: i sh algebra_simps)
      moreover from False j have "64 + j - rm < 64" by simp
      ultimately have "bit_at s (i - sh) = bit (s ! (w - off - 1)) (64 + j - rm)"
        by (simp only: bit_at_split)
      with val wo off rm False \<open>sh \<le> i\<close> show ?thesis by (fold defs) simp
    qed
  qed
qed

lemma gen_shift_left_Some:
  "(\<exists>r. gen_bitmap_shift_left d src sh n = Some r) \<longleftrightarrow> sh div 64 \<le> length d"
  by (auto simp: gen_bitmap_shift_left_def Let_def not_less)

lemma length_gen_shift_left: "gen_bitmap_shift_left d src sh n = Some r \<Longrightarrow> length r = length d"
  by (auto simp: gen_bitmap_shift_left_def Let_def split: if_splits)

lemma bit_at_gen_shift_left:
  assumes "i < n" "BITS_TO_LONGS n \<le> length d" "gen_bitmap_shift_left d (Some s) sh n = Some r"
  shows "bit_at r i \<longleftrightarrow> sh \<le> i \<and> bit_at s (i - sh)"
proof -
  let ?d = "foldl (\<lambda>d k. d[k + sh div 64 := shift_left_word s sh n k]) d (rev [0..<BITS_TO_LONGS n - sh div 64])"
  have r: "r = store_loop (\<lambda>_. 0) (sh div 64) ?d"
    using assms(3) by (auto simp: gen_bitmap_shift_left_def Let_def split: if_splits)
  from word_index_less [OF assms(1)] have w: "i div 64 < BITS_TO_LONGS n" .
  show ?thesis
  proof (cases "i div 64 < sh div 64")
    case True
    then have "i < sh" by (metis div_le_mono not_less)
    with True w assms(2) show ?thesis by (simp add: r bit_at_store_loop)
  next
    case False
    with w assms show ?thesis
      by (simp add: r bit_at_def [of "store_loop _ _ _"] nth_store_loop nth_foldl_store_down bit_shift_left_word)
  qed
qed

text \<open>The right shift. A position is below the width when its word is one of the bitmap and, in the last word,
  its bit is below the remainder.\<close>

lemma below_width:
  assumes "x < 64"
  shows "64 * q + x < n \<longleftrightarrow> q < BITS_TO_LONGS n \<and> (n mod 64 \<noteq> 0 \<and> q = BITS_TO_LONGS n - 1 \<longrightarrow> x < n mod 64)"
proof -
  define l m where "l = n div 64" and "m = n mod 64"
  then have n: "n = 64 * l + m" "m < 64" by simp_all
  consider "q < l" | "q = l" | "l < q" by linarith
  then show ?thesis
  proof cases
    case 3
    then have "64 * l + 64 \<le> 64 * q" by simp
    with 3 n(2) show ?thesis by (simp add: BITS_TO_LONGS_alt n(1))
  qed (use assms n(2) in \<open>auto simp: BITS_TO_LONGS_alt n(1)\<close>)
qed

lemma bit_shift_right_word_raw:
  fixes s :: "u64 list"
  defines "ok \<equiv> \<lambda>n q x. q < BITS_TO_LONGS n \<and> (n mod 64 \<noteq> 0 \<and> q = BITS_TO_LONGS n - 1 \<longrightarrow> x < n mod 64)"
  assumes "j < 64" "sh div 64 + k < BITS_TO_LONGS n"
  shows "bit (shift_right_word s sh n k) j \<longleftrightarrow>
     (if j + sh mod 64 < 64 then bit (s ! (sh div 64 + k)) (j + sh mod 64) \<and> ok n (sh div 64 + k) (j + sh mod 64)
      else bit (s ! (sh div 64 + k + 1)) (j + sh mod 64 - 64) \<and> ok n (sh div 64 + k + 1) (j + sh mod 64 - 64))
     \<and> (n mod 64 \<noteq> 0 \<and> k = BITS_TO_LONGS n - 1 \<longrightarrow> j < n mod 64)"
proof -
  let ?rm = "sh mod 64" and ?left = "n mod 64" and ?lim = "BITS_TO_LONGS n" and ?q = "sh div 64 + k"
  define upper where "upper = (if ?rm = 0 \<or> ?lim \<le> ?q + 1 then 0 else if ?q + 1 = ?lim - 1 \<and> ?left \<noteq> 0
    then s ! (?q + 1) AND mask ?left else s ! (?q + 1))"
  define lower where "lower = (if ?left \<noteq> 0 \<and> ?q = ?lim - 1 then s ! ?q AND mask ?left else s ! ?q)"
  define d where "d = push_bit (64 - ?rm) upper OR drop_bit ?rm lower"
  have word: "shift_right_word s sh n k = (if ?left \<noteq> 0 \<and> k = ?lim - 1 then d AND mask ?left else d)"
    unfolding shift_right_word_def Let_def BITS_PER_LONG_def d_def lower_def upper_def
    by (simp only: mask_eq_exp_minus_1 push_bit_of_1)
  have up: "bit upper x \<longleftrightarrow> ?rm \<noteq> 0 \<and> bit (s ! (?q + 1)) x \<and> ok n (?q + 1) x" for x
    using assms(3) by (auto simp: upper_def ok_def bit_simps dest: bit_imp_le_length)
  have lo: "bit lower x \<longleftrightarrow> bit (s ! ?q) x \<and> ok n ?q x" for x
    using assms(3) by (auto simp: lower_def ok_def bit_simps dest: bit_imp_le_length)
  have "bit d j \<longleftrightarrow> 64 - ?rm \<le> j \<and> bit upper (j - (64 - ?rm)) \<or> bit lower (?rm + j)"
    using assms(2) by (auto simp: d_def bit_simps)
  moreover have "\<not> bit lower (?rm + j)" if "64 \<le> j + ?rm"
    using bit_imp_le_length [of lower "?rm + j"] that by auto
  moreover have "?rm < 64" by simp
  ultimately have "bit d j \<longleftrightarrow> (if j + ?rm < 64 then bit lower (j + ?rm) else bit upper (j + ?rm - 64))"
    using assms(2) by (auto simp: add.commute)
  moreover have "?rm \<noteq> 0" if "\<not> j + ?rm < 64" using that assms(2) by (cases "?rm = 0") auto
  ultimately have "bit d j \<longleftrightarrow> (if j + ?rm < 64 then bit (s ! ?q) (j + ?rm) \<and> ok n ?q (j + ?rm)
      else bit (s ! (?q + 1)) (j + ?rm - 64) \<and> ok n (?q + 1) (j + ?rm - 64))" by (simp add: lo up)
  with assms(2) show ?thesis by (simp only: word if_distrib [of "\<lambda>w. bit w j"] bit_and_iff bit_mask_iff) auto
qed

lemma bit_shift_right_word:
  assumes "i < n" "sh div 64 + i div 64 < BITS_TO_LONGS n"
  shows "bit (shift_right_word s sh n (i div 64)) (i mod 64) \<longleftrightarrow> i + sh < n \<and> bit_at s (i + sh)"
proof -
  define w j off rm where defs: "w = i div 64" "j = i mod 64" "off = sh div 64" "rm = sh mod 64"
  then have j: "j < 64" and rm: "rm < 64" and e: "i + sh = 64 * (off + w) + (j + rm)" and i: "i = 64 * w + j" by simp_all
  have last: "n mod 64 \<noteq> 0 \<and> w = BITS_TO_LONGS n - 1 \<longrightarrow> j < n mod 64"
    using assms(1) below_width [OF j, of w n] i by blast
  show ?thesis
  proof (cases "j + rm < 64")
    case True
    then show ?thesis
      using bit_shift_right_word_raw [OF j, of sh w n s] assms(2) last below_width [OF True, of "off + w" n] bit_at_split [OF True, of s "off + w"]
      by (fold defs) (auto simp: e defs(1))
  next
    case False
    then have x: "j + rm - 64 < 64" "i + sh = 64 * (off + w + 1) + (j + rm - 64)" using j rm e by simp_all
    then show ?thesis
      using False bit_shift_right_word_raw [OF j, of sh w n s] assms(2) last below_width [OF x(1), of "off + w + 1" n]
        bit_at_split [OF x(1), of s "off + w + 1"]
      by (fold defs) (auto simp: defs(1))
  qed
qed

lemma nth_foldl_clear: "i < length d \<Longrightarrow> foldl (\<lambda>d j. d[m + j := 0]) d [0..<k] ! i = (if m \<le> i \<and> i < m + k then 0 else d ! i)"
  by (induction k) (auto simp: nth_list_update less_Suc_eq)

lemma gen_shift_right_Some:
  assumes "BITS_TO_LONGS n \<le> length d"
  shows "(\<exists>r. gen_bitmap_shift_right d s sh n = Some r) \<longleftrightarrow> sh div 64 \<le> BITS_TO_LONGS n"
  using assms by (auto simp: gen_bitmap_shift_right_def Let_def not_less)

lemma length_gen_shift_right: "gen_bitmap_shift_right d s sh n = Some r \<Longrightarrow> length r = length d"
  by (auto simp: gen_bitmap_shift_right_def Let_def split: if_splits)

lemma bit_at_gen_shift_right:
  assumes "i < n" "BITS_TO_LONGS n \<le> length d" "gen_bitmap_shift_right d s sh n = Some r"
  shows "bit_at r i \<longleftrightarrow> i + sh < n \<and> bit_at s (i + sh)"
proof -
  let ?lim = "BITS_TO_LONGS n" and ?off = "sh div 64"
  have le: "?off \<le> ?lim" using gen_shift_right_Some [OF assms(2)] assms(3) by blast
  define m where "m = ?lim - ?off"
  have r: "r = foldl (\<lambda>d j. d[m + j := 0]) (store_loop (shift_right_word s sh n) m d) [0..<?off]"
    using assms(3) by (auto simp: gen_bitmap_shift_right_def Let_def m_def split: if_splits)
  have w: "i div 64 < ?lim" by (rule word_index_less [OF assms(1)])
  have "m + ?off = ?lim" using le by (simp add: m_def)
  then have nth: "r ! (i div 64) = (if i div 64 < m then shift_right_word s sh n (i div 64) else 0)"
    using w assms(2) by (simp add: r nth_foldl_clear nth_store_loop)
  show ?thesis
  proof (cases "?off + i div 64 < ?lim")
    case True
    then show ?thesis using assms(1) by (simp add: bit_at_def [of r] nth m_def less_diff_conv add.commute bit_shift_right_word)
  next
    case False
    then have "\<not> i + sh < n" using word_index_less [of "i + sh" n] div_add1_eq [of i sh 64] by linarith
    moreover have "\<not> bit_at r i" using False by (simp add: bit_at_def nth m_def less_diff_conv add.commute)
    ultimately show ?thesis by simp
  qed
qed


section \<open>Find last set\<close>

lemma and_high_bits_zero_iff:
  assumes "k \<le> 32"
  shows "(x :: u32) AND NOT (mask k) = 0 \<longleftrightarrow> unat x < 2 ^ k"
proof -
  have "x AND NOT (mask k) = 0 \<longleftrightarrow> take_bit k x = x"
    by (auto simp: bit_eq_iff [where 'a = "32 word"] bit_simps)
  also have "\<dots> \<longleftrightarrow> unat x < 2 ^ k"
    using assms by (metis take_bit_nat_eq_self_iff unsigned_take_bit_eq word_unat_eq_iff)
  finally show ?thesis .
qed

lemma unat_push_bit:
  assumes "unat (x::u32) < 2 ^ (32 - k)" "k \<le> 32"
  shows "unat (push_bit k x) = unat x * 2 ^ k"
proof -
  have "unat x * 2 ^ k < 2 ^ (32 - k) * 2 ^ k" using assms(1) by simp
  also have "\<dots> = 2 ^ 32" using assms(2) by (simp flip: power_add)
  finally have "take_bit 32 (unat x * 2 ^ k) = unat x * 2 ^ k"
    by (simp only: take_bit_nat_eq_self_iff)
  moreover have "unat (push_bit k x) = take_bit 32 (push_bit k (unat x))"
    by (simp only: unsigned_push_bit_eq len_of_numeral_defs) simp
  ultimately show ?thesis by (simp only: push_bit_eq_mult)
qed

text \<open>
  A step keeps \<open>x * 2^r\<close> and pushes the lower bound of \<open>x\<close> up.
\<close>

lemma fls_step_inv:
  assumes hi: "hi = NOT (mask (32 - sh))"
    and bnd: "2 ^ m \<le> unat x" and sh: "sh \<le> r" "r \<le> 32" "32 - sh \<le> m + sh"
    and step: "fls_step hi sh (x, r) = (x', r')"
  shows "2 ^ (32 - sh) \<le> unat x'" "unat x' * 2 ^ r' = unat x * 2 ^ r" "r' \<le> r" "r - sh \<le> r'"
proof -
  have c: "x AND hi = 0 \<longleftrightarrow> unat x < 2 ^ (32 - sh)"
    unfolding hi by (rule and_high_bits_zero_iff) simp
  have "(2::nat) ^ (32 - sh) \<le> 2 ^ m * 2 ^ sh"
    using sh(3) by (simp flip: power_add)
  also have "\<dots> \<le> unat x * 2 ^ sh" using bnd by simp
  finally have up: "2 ^ (32 - sh) \<le> unat x * 2 ^ sh" .
  have pw: "2 ^ sh * 2 ^ (r - sh) = (2::nat) ^ r" using sh by (simp flip: power_add)
  show "2 ^ (32 - sh) \<le> unat x'" "r' \<le> r" "r - sh \<le> r'"
    using step c up sh by (auto simp: fls_step_def unat_push_bit split: if_splits)
  show "unat x' * 2 ^ r' = unat x * 2 ^ r"
    using step c sh pw by (auto simp: fls_step_def unat_push_bit mult.assoc split: if_splits)
qed

lemma fls_bounds:
  assumes "x \<noteq> 0"
  shows "0 < fls x \<and> fls x \<le> 32 \<and> 2 ^ (fls x - 1) \<le> unat x \<and> unat x < 2 ^ fls x"
proof -
  obtain x1 r1 where 1: "fls_step 0xffff0000 16 (x, 32) = (x1, r1)" by fastforce
  obtain x2 r2 where 2: "fls_step 0xff000000 8 (x1, r1) = (x2, r2)" by fastforce
  obtain x3 r3 where 3: "fls_step 0xf0000000 4 (x2, r2) = (x3, r3)" by fastforce
  obtain x4 r4 where 4: "fls_step 0xc0000000 2 (x3, r3) = (x4, r4)" by fastforce
  obtain x5 r5 where 5: "fls_step 0x80000000 1 (x4, r4) = (x5, r5)" by fastforce
  have "2 ^ 0 \<le> unat x" using assms by (simp add: Suc_le_eq unat_gt_0)
  have i1: "2 ^ 16 \<le> unat x1" "unat x1 * 2 ^ r1 = unat x * 2 ^ 32" "r1 \<le> 32" "16 \<le> r1"
    using fls_step_inv [OF _ \<open>2 ^ 0 \<le> unat x\<close> _ _ _ 1] by (simp_all add: mask_eq_exp_minus_1)
  have i2: "2 ^ 24 \<le> unat x2" "unat x2 * 2 ^ r2 = unat x * 2 ^ 32" "r2 \<le> 32" "8 \<le> r2"
    using fls_step_inv [OF _ i1(1) _ _ _ 2] i1 by (simp_all add: mask_eq_exp_minus_1)
  have i3: "2 ^ 28 \<le> unat x3" "unat x3 * 2 ^ r3 = unat x * 2 ^ 32" "r3 \<le> 32" "4 \<le> r3"
    using fls_step_inv [OF _ i2(1) _ _ _ 3] i2 by (simp_all add: mask_eq_exp_minus_1)
  have i4: "2 ^ 30 \<le> unat x4" "unat x4 * 2 ^ r4 = unat x * 2 ^ 32" "r4 \<le> 32" "2 \<le> r4"
    using fls_step_inv [OF _ i3(1) _ _ _ 4] i3 by (simp_all add: mask_eq_exp_minus_1)
  have i5: "2 ^ 31 \<le> unat x5" "unat x5 * 2 ^ r5 = unat x * 2 ^ 32" "r5 \<le> 32" "1 \<le> r5"
    using fls_step_inv [OF _ i4(1) _ _ _ 5] i4 by (simp_all add: mask_eq_exp_minus_1)
  have fls: "fls x = r5" using assms 1 2 3 4 5 by (simp add: fls_def)
  have lt: "unat x5 < 2 ^ 32" using unsigned_less [of x5] by simp
  from lt have "unat x5 * 2 ^ r5 < 2 ^ 32 * 2 ^ r5" by (intro mult_strict_right_mono) simp_all
  then have hi: "unat x < 2 ^ r5" unfolding i5(2) by simp
  have "2 ^ 31 * 2 ^ r5 \<le> unat x * 2 ^ 32" unfolding i5(2) [symmetric] using i5(1) by simp
  moreover have "(2::nat) ^ r5 = 2 * 2 ^ (r5 - 1)" using i5(4) by (simp flip: power_Suc)
  ultimately have "2 ^ (r5 - 1) \<le> unat x" by simp
  with hi fls i5 show ?thesis by simp
qed

text \<open>The shifts on all widths; the inline right shift does not mask its source.\<close>

lemma inline_shift_left:
  assumes "n \<le> 64" "d \<noteq> []" "sh < 64"
  shows "\<exists>r. bitmap_shift_left d s sh n = Some r \<and> length r = length d \<and> bm_set n r = {i. i < n \<and> sh \<le> i \<and> i - sh \<in> bm_set n s}"
proof -
  let ?r = "d[0 := push_bit sh (s ! 0) AND BITMAP_LAST_WORD_MASK n]"
  have "bit (?r ! 0) i \<longleftrightarrow> sh \<le> i \<and> bit (s ! 0) (i - sh)" if "i < n" for i
    using that assms by (cases "n = 64") (auto simp: bit_simps bit_BITMAP_LAST_WORD_MASK)
  then have "bm_set n ?r = {i. i < n \<and> sh \<le> i \<and> i - sh \<in> bm_set n s}" using assms(1) by (auto simp: bm_set_def bit_at_def)
  then show ?thesis using assms by (simp add: bitmap_shift_left_def BITS_PER_LONG_def)
qed

lemma bit_u64_less: "bit (x :: u64) p \<Longrightarrow> p < 64"
  using bit_imp_le_length [of x p] by simp

lemma inline_shift_right:
  assumes "n \<le> 64" "d \<noteq> []" "sh < 64"
  shows "\<exists>r. bitmap_shift_right d s sh n = Some r \<and> length r = length d \<and> bm_set n r = {i. i < n \<and> i + sh \<in> bm_set 64 s}"
proof -
  define r where "r = d[0 := drop_bit sh (s ! 0)]"
  then have r: "bit (r ! 0) i \<longleftrightarrow> bit (s ! 0) (i + sh)" for i
    using assms(2) by (simp add: bit_drop_bit_eq add.commute)
  have "i \<in> bm_set n r \<longleftrightarrow> i < n \<and> i + sh \<in> bm_set 64 s" for i
    using assms(1) r [of i] bit_u64_less [of "s ! 0" "i + sh"] by (auto simp: bm_set_def bit_at_def)
  then have "bm_set n r = {i. i < n \<and> i + sh \<in> bm_set 64 s}" by blast
  then show ?thesis using assms by (simp add: bitmap_shift_right_def BITS_PER_LONG_def r_def)
qed

lemma gen_shift_left_set:
  assumes "BITS_TO_LONGS n \<le> length d"
  shows "if sh div 64 \<le> length d
    then \<exists>r. gen_bitmap_shift_left d (Some s) sh n = Some r \<and> length r = length d
      \<and> bm_set n r = {i. i < n \<and> sh \<le> i \<and> i - sh \<in> bm_set n s}
    else gen_bitmap_shift_left d (Some s) sh n = None"
proof (cases "gen_bitmap_shift_left d (Some s) sh n")
  case None
  then show ?thesis using gen_shift_left_Some [of d "Some s" sh n] by auto
next
  case (Some r)
  then show ?thesis
    using gen_shift_left_Some [of d "Some s" sh n] length_gen_shift_left [OF Some] bit_at_gen_shift_left [OF _ assms Some]
    by (auto simp: bm_set_def)
qed

lemma gen_shift_right_set:
  assumes "BITS_TO_LONGS n \<le> length d"
  shows "if sh div 64 \<le> BITS_TO_LONGS n
    then \<exists>r. gen_bitmap_shift_right d s sh n = Some r \<and> length r = length d \<and> bm_set n r = {i. i < n \<and> i + sh \<in> bm_set n s}
    else gen_bitmap_shift_right d s sh n = None"
proof (cases "gen_bitmap_shift_right d s sh n")
  case None
  then show ?thesis using gen_shift_right_Some [OF assms, of s sh] by auto
next
  case (Some r)
  then show ?thesis
    using gen_shift_right_Some [OF assms, of s sh] length_gen_shift_right [OF Some] bit_at_gen_shift_right [OF _ assms Some]
    by (auto simp: bm_set_def)
qed

lemma inline_shifts_agree:
  assumes "0 < n" "n \<le> 64" "1 \<le> length d" "sh < 64"
  shows "map_option (bm_set n) (bitmap_shift_left d a sh n) = map_option (bm_set n) (gen_bitmap_shift_left d (Some a) sh n)"
    "map_option (bm_set n) (bitmap_shift_right d a sh n) = map_option (bm_set n) (gen_bitmap_shift_right d a sh n)
      \<longleftrightarrow> (\<forall>p \<in> {max n sh..<n + sh}. \<not> bit (a ! 0) p)"
proof -
  have d: "d \<noteq> []" "BITS_TO_LONGS n \<le> length d" using assms(1-3) by (auto simp: BITS_TO_LONGS_def)
  have "sh div 64 \<le> length d" using assms(4) by simp
  then obtain l l' where "bitmap_shift_left d a sh n = Some l" "gen_bitmap_shift_left d (Some a) sh n = Some l'" "bm_set n l = bm_set n l'"
    using inline_shift_left [OF assms(2) d(1) assms(4), of a] gen_shift_left_set [OF d(2), of sh a] by metis
  then show "map_option (bm_set n) (bitmap_shift_left d a sh n) = map_option (bm_set n) (gen_bitmap_shift_left d (Some a) sh n)"
    by simp
  obtain r r' where r: "bitmap_shift_right d a sh n = Some r" "bm_set n r = {i. i < n \<and> i + sh \<in> bm_set 64 a}"
    "gen_bitmap_shift_right d a sh n = Some r'" "bm_set n r' = {i. i < n \<and> i + sh \<in> bm_set n a}"
    using inline_shift_right [OF assms(2) d(1) assms(4), of a] gen_shift_right_set [OF d(2), of sh a] assms(1,4)
    by (auto simp: BITS_TO_LONGS_def)
  have b: "i \<in> bm_set m a \<longleftrightarrow> i < m \<and> bit (a ! 0) i" if "m \<le> 64" for i m
    using that by (auto simp: bm_set_def bit_at_def)
  have rng: "p \<in> {max n sh..<n + sh} \<longleftrightarrow> sh \<le> p \<and> p - sh < n \<and> \<not> p < n" for p by auto
  have sub: "bm_set n a \<subseteq> bm_set 64 a" using assms(2) by (auto simp: b)
  have "bm_set n r = bm_set n r' \<longleftrightarrow> (\<forall>i < n. i + sh \<in> bm_set 64 a \<longrightarrow> i + sh \<in> bm_set n a)"
    unfolding r using sub by blast
  also have "\<dots> \<longleftrightarrow> (\<forall>i < n. bit (a ! 0) (i + sh) \<longrightarrow> i + sh < n)"
    unfolding b [OF order_refl] b [OF assms(2)] using bit_u64_less [of "a ! 0"] by blast
  also have "\<dots> \<longleftrightarrow> (\<forall>p. sh \<le> p \<longrightarrow> p - sh < n \<longrightarrow> bit (a ! 0) p \<longrightarrow> p < n)" by (metis add_diff_cancel_right' le_add2 le_add_diff_inverse2)
  also have "\<dots> \<longleftrightarrow> (\<forall>p \<in> {max n sh..<n + sh}. \<not> bit (a ! 0) p)" using rng by blast
  finally show "map_option (bm_set n) (bitmap_shift_right d a sh n) = map_option (bm_set n) (gen_bitmap_shift_right d a sh n)
      \<longleftrightarrow> (\<forall>p \<in> {max n sh..<n + sh}. \<not> bit (a ! 0) p)" unfolding r(1,3) by simp
qed

end
