(* ===== verification/Bitmap_Text.thy ===== *)
theory Bitmap_Text
  imports Bitmap
begin

text \<open>
  The text formats of bitmaps in \<open>bitmap.c\<close>: \<open>bitmap_scnprintf\<close> prints hexadecimal chunks,
  \<open>__bitmap_parse\<close> reads them back (the format of \<open>/proc/irq/N/smp_affinity\<close> and of the sysfs
  cpu maps), \<open>__bitmap_parselist\<close> reads decimal lists of ranges (\<open>/sys/devices/system/cpu/isolated\<close>).
  The input buffer and its length argument are one string here: the first \<open>buflen\<close> bytes.
\<close>

section \<open>Characters (ctype.h)\<close>

definition NUL :: char where
  "NUL = CHR 0x00"

definition isspace :: "char \<Rightarrow> bool" where
  "isspace c \<longleftrightarrow> c = CHR '' '' \<or> (9 \<le> (of_char c :: nat) \<and> (of_char c :: nat) \<le> 13)"

definition isdigit :: "char \<Rightarrow> bool" where
  "isdigit c \<longleftrightarrow> 48 \<le> (of_char c :: nat) \<and> (of_char c :: nat) \<le> 57"

definition isxdigit :: "char \<Rightarrow> bool" where
  "isxdigit c \<longleftrightarrow> isdigit c \<or> (65 \<le> (of_char c :: nat) \<and> (of_char c :: nat) \<le> 70)
                      \<or> (97 \<le> (of_char c :: nat) \<and> (of_char c :: nat) \<le> 102)"

definition toupper :: "char \<Rightarrow> char" where
  "toupper c = (if 97 \<le> (of_char c :: nat) \<and> (of_char c :: nat) \<le> 122
                then char_of ((of_char c :: nat) - 32) else c)"


section \<open>Printing\<close>

definition CHUNKSZ :: nat where
  [simp]: "CHUNKSZ = 32"

definition ALIGN :: "nat \<Rightarrow> nat \<Rightarrow> nat" where
  "ALIGN x a = unat ((of_nat x + of_nat a - 1) AND NOT (of_nat a - 1) :: u64)"

text \<open>The \<open>%0*lx\<close> conversion: lower-case hexadecimal, padded with zeros to the width.\<close>

definition hex_char :: "nat \<Rightarrow> char" where
  "hex_char d = (if d < 10 then char_of (48 + d) else char_of (87 + d))"

fun to_hex :: "nat \<Rightarrow> string" where
  "to_hex n = (if n < 16 then [hex_char n] else to_hex (n div 16) @ [hex_char (n mod 16)])"

declare to_hex.simps [simp del]

definition fmt_0lx :: "nat \<Rightarrow> u64 \<Rightarrow> string" where
  "fmt_0lx width val = (let s = to_hex (unat val) in replicate (width - length s) CHR ''0'' @ s)"

text \<open>
  \<open>len += snprintf(buf+len, buflen-len, ...)\<close> on the text written so far and \<open>len\<close>. The result
  of \<open>snprintf\<close> is the length before truncation; once \<open>len\<close> has passed \<open>buflen\<close>, the unsigned
  difference wraps and the next call writes outside the buffer.
\<close>

definition snprintf_at :: "nat \<Rightarrow> string \<times> nat \<Rightarrow> string \<Rightarrow> (string \<times> nat) option" where
  "snprintf_at buflen = (\<lambda>(buf, len) piece.
     if buflen < len then None
     else Some (buf @ take (buflen - len - 1) piece, len + length piece))"

text \<open>The loop over the chunks, from the chunk at bit \<open>32 * (k - 1)\<close> down to the one at bit 0.\<close>

primrec scnprintf_loop ::
  "nat \<Rightarrow> u64 list \<Rightarrow> nat \<Rightarrow> nat \<Rightarrow> string \<Rightarrow> bool \<Rightarrow> string \<times> nat \<Rightarrow> (string \<times> nat) option" where
  "scnprintf_loop 0 maskp buflen chunksz sep first st = Some st"
| "scnprintf_loop (Suc k) maskp buflen chunksz sep first st =
     (let i = CHUNKSZ * k;
          chunkmask = ucast (push_bit chunksz (1::u64) - 1) :: u32;
          wrd = i div BITS_PER_LONG;
          bt = i mod BITS_PER_LONG;
          val = drop_bit bt (maskp ! wrd) AND ucast chunkmask
      in if val \<noteq> 0 \<or> \<not> first \<or> i = 0
         then (case snprintf_at buflen st (sep @ fmt_0lx ((chunksz + 3) div 4) val) of
                 None \<Rightarrow> None
               | Some st' \<Rightarrow> scnprintf_loop k maskp buflen CHUNKSZ '','' False st')
         else scnprintf_loop k maskp buflen CHUNKSZ sep first st)"

definition bitmap_scnprintf :: "nat \<Rightarrow> u64 list \<Rightarrow> nat \<Rightarrow> (string \<times> nat) option" where
  "bitmap_scnprintf buflen maskp nmaskbits =
     (let chunksz = nmaskbits AND (CHUNKSZ - 1);
          chunksz = (if chunksz = 0 then CHUNKSZ else chunksz)
      in scnprintf_loop (ALIGN nmaskbits CHUNKSZ div CHUNKSZ) maskp buflen chunksz '''' True ('''', 0))"


section \<open>Parsing hexadecimal chunks\<close>

text \<open>The result of a parser: \<open>0\<close> or a negative \<open>errno\<close>.\<close>

datatype parse_rc = RC_OK | RC_EINVAL | RC_EOVERFLOW | RC_ERANGE

definition unhex :: "char \<Rightarrow> nat" where
  "unhex c = (if isdigit c then of_char c - 48 else of_char (toupper c) - 65 + 10)"

text \<open>
  The inner loop: either a \<open>return\<close>, or the end of a chunk with its value, the numbers of its
  digits and of all digits, the last character read and the rest of the buffer.
\<close>

datatype chunk_result =
    ChunkRet parse_rc
  | ChunkEnd u32 nat nat char string

fun parse_chunk :: "string \<Rightarrow> char \<Rightarrow> u32 \<Rightarrow> nat \<Rightarrow> nat \<Rightarrow> chunk_result" where
  "parse_chunk [] c chunk ndigits totaldigits = ChunkEnd chunk ndigits totaldigits c []"
| "parse_chunk (x # buf) old_c chunk ndigits totaldigits =
     (if isspace x then parse_chunk buf x chunk ndigits totaldigits
      else if totaldigits \<noteq> 0 \<and> x \<noteq> NUL \<and> isspace old_c then ChunkRet RC_OK
      else if x = NUL \<or> x = CHR '','' then ChunkEnd chunk ndigits totaldigits x buf
      else if \<not> isxdigit x then ChunkRet RC_EINVAL
      else if chunk AND NOT (push_bit (CHUNKSZ - 4) 1 - 1) \<noteq> 0 then ChunkRet RC_EOVERFLOW
      else parse_chunk buf x (push_bit 4 chunk OR of_nat (unhex x)) (Suc ndigits) (Suc totaldigits))"

lemma parse_chunk_consumes:
  "parse_chunk buf c chunk nd td = ChunkEnd chunk' nd' td' c' rest \<Longrightarrow>
   rest = [] \<or> length rest < length buf"
  by (induction buf c chunk nd td rule: parse_chunk.induct) (auto split: if_splits)

text \<open>A shift by less than a word has no \<open>memset\<close> and always returns (\<open>shift_chunk\<close> below).\<close>

function bitmap_parse_loop ::
  "string \<Rightarrow> char \<Rightarrow> nat \<Rightarrow> nat \<Rightarrow> nat \<Rightarrow> u64 list \<Rightarrow> nat \<Rightarrow> parse_rc \<times> u64 list" where
  "bitmap_parse_loop buf c totaldigits nchunks nbits maskp nmaskbits =
     (case parse_chunk buf c 0 0 totaldigits of
        ChunkRet r \<Rightarrow> (r, maskp)
      | ChunkEnd chunk ndigits totaldigits' c' rest \<Rightarrow>
          if ndigits = 0 then (RC_EINVAL, maskp)
          else if nchunks = 0 \<and> chunk = 0 then
            (if rest \<noteq> [] \<and> c' = CHR '',''
             then bitmap_parse_loop rest c' totaldigits' nchunks nbits maskp nmaskbits
             else (RC_OK, maskp))
          else
            let maskp1 = the (gen_bitmap_shift_left maskp None CHUNKSZ nmaskbits);
                maskp2 = maskp1[0 := maskp1 ! 0 OR ucast chunk];
                nchunks' = nchunks + 1;
                nbits' = nbits + (if nchunks' = 1 then fls chunk else CHUNKSZ)
            in if nmaskbits < nbits' then (RC_EOVERFLOW, maskp2)
               else if rest \<noteq> [] \<and> c' = CHR '',''
               then bitmap_parse_loop rest c' totaldigits' nchunks' nbits' maskp2 nmaskbits
               else (RC_OK, maskp2))"
  by pat_completeness auto
termination
  by (relation "measure (\<lambda>(buf, _). length buf)") (auto dest: parse_chunk_consumes)

declare bitmap_parse_loop.simps [simp del]

definition gen_bitmap_parse :: "string \<Rightarrow> u64 list \<Rightarrow> nat \<Rightarrow> parse_rc \<times> u64 list" where
  "gen_bitmap_parse buf maskp nmaskbits =
     bitmap_parse_loop buf NUL 0 0 0 (bitmap_zero maskp nmaskbits) nmaskbits"

definition bitmap_parse :: "string \<Rightarrow> u64 list \<Rightarrow> nat \<Rightarrow> parse_rc \<times> u64 list" where
  "bitmap_parse buf maskp nmaskbits = gen_bitmap_parse buf maskp nmaskbits"


section \<open>Parsing lists of ranges\<close>

text \<open>The inner loop; \<open>a\<close> and \<open>b\<close> are C \<open>int\<close>s, so \<open>b * 10 + digit\<close> wraps.\<close>

datatype item_result =
    ItemRet parse_rc
  | ItemEnd c_int c_int nat char string

fun parse_item ::
  "string \<Rightarrow> char \<Rightarrow> c_int \<Rightarrow> c_int \<Rightarrow> bool \<Rightarrow> bool \<Rightarrow> nat \<Rightarrow> item_result" where
  "parse_item [] c a b exp_digit in_range totaldigits = ItemEnd a b totaldigits c []"
| "parse_item (x # buf) old_c a b exp_digit in_range totaldigits =
     (if isspace x then parse_item buf x a b exp_digit in_range totaldigits
      else if totaldigits \<noteq> 0 \<and> x \<noteq> NUL \<and> isspace old_c then ItemRet RC_EINVAL
      else if x = NUL \<or> x = CHR '','' then ItemEnd a b totaldigits x buf
      else if x = CHR ''-'' then
        (if exp_digit \<or> in_range then ItemRet RC_EINVAL
         else parse_item buf x a 0 True True totaldigits)
      else if \<not> isdigit x then ItemRet RC_EINVAL
      else let b' = b * 10 + of_nat (of_char x - 48)
           in parse_item buf x (if in_range then a else b') b' False in_range (Suc totaldigits))"

lemma parse_item_consumes:
  "parse_item buf c a b e r td = ItemEnd a' b' td' c' rest \<Longrightarrow> rest = [] \<or> length rest < length buf"
proof (induction buf c a b e r td rule: parse_item.induct)
  case (2 x buf old_c a b e r td)
  then show ?case by (auto simp: Let_def split: if_splits)
qed simp

text \<open>\<open>while (a <= b) { set_bit(a, maskp); a++; }\<close>: the caller has checked \<open>b < nmaskbits\<close>, so the
  increment cannot overflow; a store outside the array ends the run.\<close>

function set_range :: "int \<Rightarrow> int \<Rightarrow> u64 list \<Rightarrow> u64 list option" where
  "set_range a b maskp =
     (if a \<le> b then (case set_bit_c a maskp of None \<Rightarrow> None | Some m \<Rightarrow> set_range (a + 1) b m)
      else Some maskp)"
  by pat_completeness auto
termination
  by (relation "measure (\<lambda>(a, b, _). nat (b - a + 1))") auto

declare set_range.simps [simp del]

function bitmap_parselist_loop ::
  "string \<Rightarrow> char \<Rightarrow> nat \<Rightarrow> u64 list \<Rightarrow> nat \<Rightarrow> (parse_rc \<times> u64 list) option" where
  "bitmap_parselist_loop buf c totaldigits maskp nmaskbits =
     (case parse_item buf c 0 0 True False totaldigits of
        ItemRet r \<Rightarrow> Some (r, maskp)
      | ItemEnd a b totaldigits' c' rest \<Rightarrow>
          if \<not> sint a \<le> sint b then Some (RC_EINVAL, maskp)
          else if int nmaskbits \<le> sint b then Some (RC_ERANGE, maskp)
          else (case set_range (sint a) (sint b) maskp of
                  None \<Rightarrow> None
                | Some m \<Rightarrow>
                    if rest \<noteq> [] \<and> c' = CHR '',''
                    then bitmap_parselist_loop rest c' totaldigits' m nmaskbits
                    else Some (RC_OK, m)))"
  by pat_completeness auto
termination
  by (relation "measure (\<lambda>(buf, _). length buf)") (auto dest: parse_item_consumes)

declare bitmap_parselist_loop.simps [simp del]

definition gen_bitmap_parselist :: "string \<Rightarrow> u64 list \<Rightarrow> nat \<Rightarrow> (parse_rc \<times> u64 list) option" where
  "gen_bitmap_parselist buf maskp nmaskbits =
     bitmap_parselist_loop buf NUL 0 (bitmap_zero maskp nmaskbits) nmaskbits"

definition bitmap_parselist :: "string \<Rightarrow> u64 list \<Rightarrow> nat \<Rightarrow> (parse_rc \<times> u64 list) option" where
  "bitmap_parselist buf maskp nmaskbits = gen_bitmap_parselist buf maskp nmaskbits"


section \<open>Hexadecimal digits\<close>

lemma char_eq_of_char: "(c = d) \<longleftrightarrow> (of_char c :: nat) = of_char d"
  by (metis char_of_char)

lemma of_hex_char: "d < 16 \<Longrightarrow> of_char (hex_char d) = (if d < 10 then 48 + d else 87 + d)"
  by (simp add: hex_char_def)

lemma of_toupper:
  "(of_char (toupper c) :: nat)
   = (if 97 \<le> (of_char c :: nat) \<and> (of_char c :: nat) \<le> 122 then of_char c - 32 else of_char c)"
  by (auto simp: toupper_def)

lemma hex_char_facts:
  assumes "d < 16"
  shows "unhex (hex_char d) = d" "isxdigit (hex_char d)" "\<not> isspace (hex_char d)"
    "hex_char d \<noteq> NUL" "hex_char d \<noteq> CHR '',''"
  using assms
  by (auto simp: unhex_def isxdigit_def isdigit_def isspace_def NUL_def char_eq_of_char
      of_hex_char of_toupper)

definition hex_text :: "string \<Rightarrow> bool" where
  "hex_text s \<longleftrightarrow> (\<forall>x \<in> set s. \<exists>d < 16. x = hex_char d)"

definition hexval :: "string \<Rightarrow> nat" where
  "hexval s = foldl (\<lambda>a x. 16 * a + unhex x) 0 s"

lemma hexval_append: "hexval (s @ t) = hexval s * 16 ^ length t + hexval t"
proof -
  have "foldl (\<lambda>a x. 16 * a + unhex x) a t = a * 16 ^ length t + hexval t" for a
  proof (induction t arbitrary: a)
    case (Cons x t)
    let ?f = "\<lambda>a x. 16 * a + unhex x"
    have "hexval (x # t) = foldl ?f (unhex x) t" by (simp add: hexval_def)
    also have "\<dots> = unhex x * 16 ^ length t + hexval t" by (rule Cons)
    finally have "a * 16 ^ length (x # t) + hexval (x # t) = ?f a x * 16 ^ length t + hexval t"
      by (simp add: algebra_simps)
    also have "\<dots> = foldl ?f a (x # t)" unfolding foldl_Cons by (rule Cons [symmetric])
    finally show ?case by (rule sym)
  qed (simp add: hexval_def)
  then show ?thesis unfolding hexval_def [of "s @ t"] hexval_def [of s] foldl_append .
qed

lemma hexval_simps [simp]: "hexval [] = 0" "hexval [x] = unhex x"
  by (simp_all add: hexval_def)

lemma hexval_Cons: "hexval (x # s) = unhex x * 16 ^ length s + hexval s"
  using hexval_append [of "[x]" s] by simp

lemma to_hex_text: "hex_text (to_hex n) \<and> hexval (to_hex n) = n \<and> to_hex n \<noteq> []"
proof (induction n rule: to_hex.induct)
  case (1 n)
  show ?case
  proof (cases "n < 16")
    case True
    then show ?thesis by (simp add: to_hex.simps [of n] hex_text_def hex_char_facts) blast
  next
    case False
    have "n mod 16 < 16" by simp
    then have "\<exists>d<16. hex_char (n mod 16) = hex_char d" by blast
    with False 1 show ?thesis
      by (auto simp: to_hex.simps [of n] hex_text_def hexval_append hex_char_facts)
  qed
qed

lemma length_to_hex: "n < 16 ^ Suc k \<Longrightarrow> length (to_hex n) \<le> Suc k"
proof (induction k arbitrary: n)
  case (Suc k)
  show ?case
  proof (cases "n < 16")
    case False
    from Suc.prems have "n div 16 < 16 ^ Suc k" by (simp add: div_less_iff_less_mult mult.commute)
    with Suc.IH False show ?thesis by (simp add: to_hex.simps [of n])
  qed (simp add: to_hex.simps [of n])
qed (simp add: to_hex.simps)

lemma fmt_0lx_text:
  assumes "unat v < 16 ^ w" "0 < w"
  shows "hex_text (fmt_0lx w v)" "hexval (fmt_0lx w v) = unat v" "length (fmt_0lx w v) = w"
proof -
  have zero: "CHR ''0'' = hex_char 0" by (simp add: char_eq_of_char of_hex_char)
  from assms(2) obtain k where k: "w = Suc k" by (cases w) auto
  have l: "length (to_hex (unat v)) \<le> w" unfolding k using assms(1) k by (intro length_to_hex) simp
  then show "length (fmt_0lx w v) = w" by (simp add: fmt_0lx_def Let_def)
  show "hex_text (fmt_0lx w v)"
    using to_hex_text [of "unat v"]
    by (auto simp: fmt_0lx_def Let_def hex_text_def zero intro: exI [of _ 0])
  have "hexval (replicate m CHR ''0'') = 0" for m
    by (induction m) (simp_all add: hexval_Cons zero hex_char_facts)
  then show "hexval (fmt_0lx w v) = unat v"
    using to_hex_text [of "unat v"] by (simp add: fmt_0lx_def Let_def hexval_append)
qed

text \<open>The inner loop of the parser on a run of digits.\<close>

lemma unat_push_digit:
  assumes "unat (chunk::u32) < 2 ^ 28" "d < 16"
  shows "unat (push_bit 4 chunk OR of_nat d) = 16 * unat chunk + d"
proof -
  have d: "unat (of_nat d :: u32) = d" using assms(2) by (simp add: unat_of_nat)
  have p: "unat (push_bit 4 chunk) = unat chunk * 2 ^ 4" by (rule unat_push_bit) (use assms in auto)
  have "push_bit 4 chunk AND of_nat d = 0"
  proof (rule bit_word_eqI)
    fix i assume "i < LENGTH(32)"
    have "\<not> bit d i" if "4 \<le> i"
    proof -
      from that have "(2::nat) ^ 4 \<le> 2 ^ i" by (intro power_increasing) auto
      with assms(2) show ?thesis by (simp add: bit_iff_odd)
    qed
    then show "bit (push_bit 4 chunk AND of_nat d) i = bit (0::u32) i"
      by (auto simp: bit_simps)
  qed
  then have "push_bit 4 chunk OR of_nat d = push_bit 4 chunk + of_nat d"
    by (simp add: disjunctive_add_eq_or)
  then show ?thesis using assms p d by (simp add: unat_word_ariths)
qed

lemma parse_chunk_digits:
  assumes "hex_text ds" "ds \<noteq> []" "td = 0 \<or> \<not> isspace c"
    "unat chunk * 16 ^ length ds + hexval ds < 2 ^ 32"
  shows "parse_chunk (ds @ rest) c chunk nd td
       = parse_chunk rest (last ds) (of_nat (unat chunk * 16 ^ length ds + hexval ds))
           (nd + length ds) (td + length ds)"
  using assms
proof (induction ds arbitrary: c chunk nd td)
  case (Cons x ds)
  from Cons.prems(1) obtain d where d: "d < 16" "x = hex_char d" by (auto simp: hex_text_def)
  have "unat chunk * 16 \<le> unat chunk * 16 ^ length (x # ds)" by simp
  also have "\<dots> < 2 ^ 32" using Cons.prems(4) by linarith
  finally have c28: "unat chunk < 2 ^ 28" by simp
  let ?ch = "push_bit 4 chunk OR of_nat (unhex x)"
  have u: "unat ?ch = 16 * unat chunk + d"
    using unat_push_digit [OF c28 d(1)] d by (simp add: hex_char_facts)
  have step: "parse_chunk ((x # ds) @ rest) c chunk nd td
      = parse_chunk (ds @ rest) x ?ch (Suc nd) (Suc td)"
    using d Cons.prems(3) and_high_bits_zero_iff [of 28 chunk] c28
    by (auto simp: hex_char_facts mask_eq_exp_minus_1)
  have val: "unat ?ch * 16 ^ length ds + hexval ds = unat chunk * 16 ^ length (x # ds) + hexval (x # ds)"
    unfolding u hexval_Cons using d by (simp add: hex_char_facts algebra_simps)
  show ?case
  proof (cases "ds = []")
    case True
    have "?ch = of_nat (unat ?ch)" by (simp only: of_nat_unat ucast_id)
    then have "?ch = of_nat (unat chunk * 16 + d)" unfolding u by (simp only: mult.commute)
    moreover from d have "unat chunk * 16 ^ length [x] + hexval [x] = unat chunk * 16 + d"
      by (simp add: hex_char_facts)
    ultimately show ?thesis using True step by simp
  next
    case False
    have "parse_chunk (ds @ rest) x ?ch (Suc nd) (Suc td)
        = parse_chunk rest (last ds) (of_nat (unat ?ch * 16 ^ length ds + hexval ds))
           (Suc nd + length ds) (Suc td + length ds)"
      using Cons.prems d False val by (intro Cons.IH) (auto simp: hex_text_def hex_char_facts)
    with step val False show ?thesis by simp
  qed
qed simp


section \<open>The printed text\<close>

text \<open>What the printing loop writes when the buffer is large enough.\<close>

definition chunk_val :: "u64 list \<Rightarrow> nat \<Rightarrow> nat \<Rightarrow> u64" where
  "chunk_val m k chunksz = drop_bit (32 * k mod 64) (m ! (32 * k div 64)) AND mask chunksz"

primrec scn_text :: "nat \<Rightarrow> u64 list \<Rightarrow> nat \<Rightarrow> string \<Rightarrow> bool \<Rightarrow> string" where
  "scn_text 0 m chunksz sep first = ''''"
| "scn_text (Suc k) m chunksz sep first =
     (if chunk_val m k chunksz \<noteq> 0 \<or> \<not> first \<or> k = 0
      then sep @ fmt_0lx ((chunksz + 3) div 4) (chunk_val m k chunksz) @ scn_text k m 32 '','' False
      else scn_text k m 32 sep first)"

lemma chunkmask_eq:
  assumes "chunksz \<le> 32"
  shows "(ucast (ucast (push_bit chunksz (1::u64) - 1) :: u32) :: u64) = mask chunksz"
proof (rule bit_word_eqI)
  fix i assume "i < LENGTH(64)"
  with assms show "bit (ucast (ucast (push_bit chunksz (1::u64) - 1) :: u32) :: u64) i = bit (mask chunksz :: u64) i"
    by (auto simp: bit_simps simp flip: mask_eq_exp_minus_1)
qed

lemma scnprintf_loop_Suc:
  "chunksz \<le> 32 \<Longrightarrow>
   scnprintf_loop (Suc k) m buflen chunksz sep first st =
     (if chunk_val m k chunksz \<noteq> 0 \<or> \<not> first \<or> k = 0
      then (case snprintf_at buflen st (sep @ fmt_0lx ((chunksz + 3) div 4) (chunk_val m k chunksz)) of
              None \<Rightarrow> None
            | Some st' \<Rightarrow> scnprintf_loop k m buflen 32 '','' False st')
      else scnprintf_loop k m buflen 32 sep first st)"
  by (simp only: scnprintf_loop.simps Let_def CHUNKSZ_def BITS_PER_LONG_def chunkmask_eq chunk_val_def)
     simp

lemma scnprintf_loop_text:
  "chunksz \<le> 32 \<Longrightarrow> len + length (scn_text k m chunksz sep first) < buflen \<Longrightarrow>
   scnprintf_loop k m buflen chunksz sep first (buf, len)
   = Some (buf @ scn_text k m chunksz sep first, len + length (scn_text k m chunksz sep first))"
proof (induction k arbitrary: chunksz sep first buf len)
  case (Suc k)
  let ?v = "chunk_val m k chunksz"
  show ?case
  proof (cases "?v \<noteq> 0 \<or> \<not> first \<or> k = 0")
    case True
    let ?p = "sep @ fmt_0lx ((chunksz + 3) div 4) ?v"
    from True Suc.prems have l: "len + length ?p + length (scn_text k m 32 '','' False) < buflen" by simp
    then have "snprintf_at buflen (buf, len) ?p = Some (buf @ ?p, len + length ?p)"
      by (simp add: snprintf_at_def)
    moreover have "scnprintf_loop k m buflen 32 '','' False (buf @ ?p, len + length ?p)
        = Some ((buf @ ?p) @ scn_text k m 32 '','' False,
                len + length ?p + length (scn_text k m 32 '','' False))"
      using l by (intro Suc.IH) auto
    ultimately show ?thesis using True Suc.prems
      by (simp add: scnprintf_loop_Suc del: scnprintf_loop.simps)
  next
    case False
    with Suc.prems Suc.IH [of 32 len sep first buf] show ?thesis
      by (simp add: scnprintf_loop_Suc del: scnprintf_loop.simps)
  qed
qed simp

lemma bit_chunk_val:
  assumes "j < 32" "chunksz \<le> 32"
  shows "bit (chunk_val m k chunksz) j \<longleftrightarrow> j < chunksz \<and> bit_at m (32 * k + j)"
proof -
  obtain q where "k = 2 * q \<or> k = 2 * q + 1" by (metis evenE oddE)
  then have "32 * k = 64 * q \<or> 32 * k = 64 * q + 32" by auto
  then have split: "(32 * k + j) div 64 = 32 * k div 64" "(32 * k + j) mod 64 = 32 * k mod 64 + j"
    using assms(1) by (auto simp: add.assoc)
  with assms show ?thesis
    by (auto simp only: chunk_val_def bit_at_def bit_and_iff bit_mask_iff bit_drop_bit_eq comp_def split)
      (auto simp: possible_bit_def)
qed

lemma unat_chunk_val:
  assumes "chunksz \<le> 32"
  shows "unat (chunk_val m k chunksz) < 2 ^ chunksz"
proof -
  have "chunk_val m k chunksz = take_bit chunksz (drop_bit (32 * k mod 64) (m ! (32 * k div 64)))"
    by (simp only: chunk_val_def take_bit_eq_mask)
  then show ?thesis by (simp only: unsigned_take_bit_eq take_bit_nat_less_exp)
qed

lemma length_scn_text: "chunksz \<le> 32 \<Longrightarrow> length sep \<le> 1 \<Longrightarrow> 0 < chunksz \<Longrightarrow>
  length (scn_text k m chunksz sep first) \<le> 9 * k"
proof (induction k arbitrary: chunksz sep first)
  case (Suc k)
  let ?w = "(chunksz + 3) div 4"
  from Suc.prems have w: "?w \<le> 8" "0 < ?w" "chunksz \<le> 4 * ?w" by auto
  have "unat (chunk_val m k chunksz) < 2 ^ chunksz" using Suc.prems by (intro unat_chunk_val)
  also have "\<dots> \<le> 2 ^ (4 * ?w)" using w by (intro power_increasing) auto
  finally have "unat (chunk_val m k chunksz) < 16 ^ ?w" by (simp add: power_mult)
  from fmt_0lx_text(3) [OF this w(2)] have "length (fmt_0lx ?w (chunk_val m k chunksz)) = ?w" .
  moreover have "length (scn_text k m 32 '','' False) \<le> 9 * k"
    and "length (scn_text k m 32 sep first) \<le> 9 * k"
    using Suc.IH Suc.prems by simp_all
  ultimately show ?case using w Suc.prems by (cases first) simp_all
qed simp

section \<open>Reading back what was printed\<close>

text \<open>One committed chunk: the mask moves up by 32 bits and takes the chunk at the bottom.\<close>

definition commit_chunk :: "u64 list \<Rightarrow> nat \<Rightarrow> u32 \<Rightarrow> u64 list" where
  "commit_chunk maskp n chunk =
     (let m = the (gen_bitmap_shift_left maskp None 32 n) in m[0 := m ! 0 OR ucast chunk])"

lemma shift_chunk:
  "gen_bitmap_shift_left maskp None CHUNKSZ n = Some (the (gen_bitmap_shift_left maskp None CHUNKSZ n))"
  "length (the (gen_bitmap_shift_left maskp None CHUNKSZ n)) = length maskp"
proof -
  obtain r where r: "gen_bitmap_shift_left maskp None CHUNKSZ n = Some r"
    using gen_shift_left_Some [of maskp None CHUNKSZ n] by (auto simp: CHUNKSZ_def)
  then show "gen_bitmap_shift_left maskp None CHUNKSZ n = Some (the (gen_bitmap_shift_left maskp None CHUNKSZ n))"
    "length (the (gen_bitmap_shift_left maskp None CHUNKSZ n)) = length maskp"
    using length_gen_shift_left by auto
qed

lemma length_shift_chunk [simp]:
  "length (the (gen_bitmap_shift_left maskp None 32 n)) = length maskp"
  using shift_chunk(2) [of maskp n] by (simp add: CHUNKSZ_def)

lemma length_commit_chunk [simp]: "length (commit_chunk maskp n chunk) = length maskp"
  using shift_chunk(2) [of maskp n] by (simp add: commit_chunk_def Let_def CHUNKSZ_def)

lemma bit_at_commit_chunk:
  assumes "i < n" "BITS_TO_LONGS n \<le> length maskp"
  shows "bit_at (commit_chunk maskp n chunk) i
         = (if i < 32 then bit chunk i else bit_at maskp (i - 32))"
proof -
  let ?m = "the (gen_bitmap_shift_left maskp None 32 n)"
  note sc = shift_chunk [of maskp n, unfolded CHUNKSZ_def]
  have len: "0 < length ?m" using word_index_less [OF assms(1)] assms(2) sc(2) by auto
  have sh: "bit_at ?m i \<longleftrightarrow> 32 \<le> i \<and> bit_at maskp (i - 32)"
    by (rule bit_at_gen_shift_left [OF assms]) (use sc(1) shift_left_in_place [of maskp 32 n] in simp)
  show ?thesis
  proof (cases "i < 64")
    case True
    with len have "bit_at (?m[0 := ?m ! 0 OR ucast chunk]) i \<longleftrightarrow> bit_at ?m i \<or> bit (ucast chunk :: u64) i"
      by (simp add: bit_at_def bit_simps)
    with True sh show ?thesis
      by (auto simp: bit_simps commit_chunk_def Let_def dest: bit_imp_le_length)
  next
    case False
    then have "i div 64 \<noteq> 0" by simp
    then have "bit_at (?m[0 := ?m ! 0 OR ucast chunk]) i = bit_at ?m i" by (simp add: bit_at_def)
    with False sh show ?thesis by (simp add: commit_chunk_def Let_def)
  qed
qed

text \<open>The end of a printed text: nothing, or the newline the kernel appends.\<close>

definition line_end :: "string \<Rightarrow> bool" where
  "line_end s \<longleftrightarrow> s = [] \<or> s = [CHR 0x0A]"

lemma isspace_newline [simp]: "isspace (CHR 0x0A)"
  by (simp add: isspace_def)

lemma parse_chunk_printed:
  assumes "unat v < 16 ^ w" "0 < w" "w \<le> 8" "td = 0 \<or> \<not> isspace c"
  shows "parse_chunk (fmt_0lx w v @ rest) c 0 0 td
         = parse_chunk rest (last (fmt_0lx w v)) (ucast v) w (td + w)"
    and "last (fmt_0lx w v) \<noteq> CHR '',''" "\<not> isspace (last (fmt_0lx w v))"
proof -
  note f = fmt_0lx_text [OF assms(1,2)]
  then have ne: "fmt_0lx w v \<noteq> []" using assms(2) by auto
  have "(16::nat) ^ w \<le> 16 ^ 8" using assms(3) by (intro power_increasing) auto
  with assms(1) have lt: "unat v < 2 ^ 32" by simp
  show "parse_chunk (fmt_0lx w v @ rest) c 0 0 td
         = parse_chunk rest (last (fmt_0lx w v)) (ucast v) w (td + w)"
    using parse_chunk_digits [OF f(1) ne assms(4), of 0 rest 0] lt f
    by (simp add: of_nat_unat)
  from ne f(1) obtain d where "d < 16" "last (fmt_0lx w v) = hex_char d"
    using last_in_set [OF ne] unfolding hex_text_def by blast
  then show "last (fmt_0lx w v) \<noteq> CHR '',''" "\<not> isspace (last (fmt_0lx w v))"
    by (simp_all add: hex_char_facts)
qed

text \<open>
  The parser on the chunks below the first printed one. \<open>maskp\<close> holds the bits above chunk \<open>k\<close>,
  moved down to position 0.
\<close>

definition parsed_above :: "u64 list \<Rightarrow> nat \<Rightarrow> nat \<Rightarrow> u64 list \<Rightarrow> bool" where
  "parsed_above m n k maskp \<longleftrightarrow> BITS_TO_LONGS n \<le> length maskp \<and>
     (\<forall>i < n. bit_at maskp i \<longleftrightarrow> i + 32 * k < n \<and> bit_at m (i + 32 * k))"

lemma parsed_above_commit:
  assumes "parsed_above m n (Suc k) maskp" "cs \<le> 32" "32 * k + cs \<le> n"
    "\<forall>i < n. 32 * k + cs \<le> i \<longrightarrow> i < 32 * k + 32 \<longrightarrow> \<not> bit_at m i"
  shows "parsed_above m n k (commit_chunk maskp n (ucast (chunk_val m k cs)))"
proof -
  have "bit_at (commit_chunk maskp n (ucast (chunk_val m k cs))) i
      \<longleftrightarrow> i + 32 * k < n \<and> bit_at m (i + 32 * k)" if "i < n" for i
  proof (cases "i < 32")
    case True
    with assms that show ?thesis
      by (auto simp: bit_at_commit_chunk parsed_above_def bit_simps bit_chunk_val add.commute not_less)
  next
    case False
    then have "i - 32 < n" "i - 32 + 32 * Suc k = i + 32 * k" using that by auto
    with False assms(1) that show ?thesis
      by (simp add: bit_at_commit_chunk parsed_above_def)
  qed
  with assms(1) show ?thesis by (simp add: parsed_above_def)
qed

lemma parsed_above_0: "parsed_above m n 0 maskp \<Longrightarrow> bm_set n maskp = bm_set n m"
  by (auto simp: parsed_above_def)

lemma fls_le:
  assumes "unat x < 2 ^ k"
  shows "fls x \<le> k"
proof (cases "x = 0")
  case False
  note b = fls_bounds [OF False]
  have "(2::nat) ^ (fls x - 1) < 2 ^ k" by (rule le_less_trans [OF _ assms]) (use b in simp)
  then have "fls x - 1 < k" by (rule power_less_imp_less_exp [rotated]) simp
  with b show ?thesis by simp
qed (simp add: fls_def)

text \<open>What the outer loop does with a chunk and what follows it in a printed text.\<close>

lemma parse_chunk_line_end:
  assumes "line_end suf" "\<not> isspace l" "l \<noteq> CHR '',''"
  shows "\<exists>c'. parse_chunk suf l ch nd td = ChunkEnd ch nd td c' [] \<and> c' \<noteq> CHR '',''"
  using assms by (auto simp: line_end_def)

lemma parse_loop_tail:
  assumes "line_end suf"
  shows "parsed_above m n (Suc k) maskp \<Longrightarrow> 0 < nchunks \<Longrightarrow> nbits + 32 * Suc k \<le> n \<Longrightarrow>
    \<not> isspace c \<Longrightarrow>
    \<exists>r. bitmap_parse_loop (fmt_0lx 8 (chunk_val m k 32) @ scn_text k m 32 '','' False @ suf)
          c td nchunks nbits maskp n = (RC_OK, r) \<and> length r = length maskp \<and> bm_set n r = bm_set n m"
proof (induction k arbitrary: maskp nchunks nbits c td)
  case 0
  let ?v = "chunk_val m 0 32"
  have "unat ?v < 16 ^ 8" using unat_chunk_val [of 32 m 0] by simp
  note p = parse_chunk_printed(1) [OF this, of td c suf] parse_chunk_printed(2,3) [OF this, of td c]
  with 0 have p': "parse_chunk (fmt_0lx 8 ?v @ suf) c 0 0 td
      = parse_chunk suf (last (fmt_0lx 8 ?v)) (ucast ?v) 8 (td + 8)"
    "last (fmt_0lx 8 ?v) \<noteq> CHR '',''" "\<not> isspace (last (fmt_0lx 8 ?v))" by simp_all
  then obtain c' where c': "parse_chunk (fmt_0lx 8 ?v @ suf) c 0 0 td
      = ChunkEnd (ucast ?v) 8 (td + 8) c' []"
    using parse_chunk_line_end [OF assms p'(3,2)] by metis
  have "parsed_above m n 0 (commit_chunk maskp n (ucast ?v))"
    using 0 by (intro parsed_above_commit) auto
  with 0 c' show ?case
    by (simp add: bitmap_parse_loop.simps Let_def commit_chunk_def parsed_above_0)
next
  case (Suc k)
  let ?v = "chunk_val m (Suc k) 32"
  let ?rest = "fmt_0lx 8 (chunk_val m k 32) @ scn_text k m 32 '','' False @ suf"
  have "unat ?v < 16 ^ 8" using unat_chunk_val [of 32 m "Suc k"] by simp
  note p = parse_chunk_printed(1) [OF this, of td c "CHR '','' # ?rest"]
    parse_chunk_printed(2,3) [OF this, of td c]
  have tx: "scn_text (Suc k) m 32 '','' False @ suf = CHR '','' # ?rest" by simp
  from Suc.prems p have c': "parse_chunk (fmt_0lx 8 ?v @ CHR '','' # ?rest) c 0 0 td
      = ChunkEnd (ucast ?v) 8 (td + 8) (CHR '','') ?rest"
    by (simp add: isspace_def NUL_def)
  have ne: "?rest \<noteq> []" using fmt_0lx_text(3) [of "chunk_val m k 32" 8] unat_chunk_val [of 32 m k] by auto
  have "parsed_above m n (Suc k) (commit_chunk maskp n (ucast ?v))"
    using Suc.prems by (intro parsed_above_commit) auto
  then obtain r where "bitmap_parse_loop ?rest (CHR '','') (td + 8) (Suc nchunks) (nbits + 32)
      (commit_chunk maskp n (ucast ?v)) n = (RC_OK, r)"
      "length r = length maskp" "bm_set n r = bm_set n m"
    using Suc.prems Suc.IH [of "commit_chunk maskp n (ucast ?v)" "Suc nchunks" "nbits + 32" "CHR '',''" "td + 8"]
    by (auto simp: isspace_def)
  with Suc.prems c' ne show ?case
    unfolding tx
    by (subst bitmap_parse_loop.simps) (simp add: Let_def commit_chunk_def)
qed

text \<open>A printed chunk reads back as its value, which has no bit above the chunk's size.\<close>

lemma printed_chunk:
  assumes "0 < cs" "cs \<le> 32"
  shows "0 < (cs + 3) div 4" "(cs + 3) div 4 \<le> 8" "unat (chunk_val m k cs) < 16 ^ ((cs + 3) div 4)"
    and "unat (ucast (chunk_val m k cs) :: u32) = unat (chunk_val m k cs)" "fls (ucast (chunk_val m k cs)) \<le> cs"
proof -
  let ?v = "chunk_val m k cs" and ?w = "(cs + 3) div 4"
  show w: "0 < ?w" "?w \<le> 8" using assms by auto
  have vlt: "unat ?v < 2 ^ cs" using assms by (intro unat_chunk_val)
  also have "\<dots> \<le> 2 ^ (4 * ?w)" by (intro power_increasing) auto
  finally show "unat ?v < 16 ^ ?w" by (simp add: power_mult)
  have "unat ?v < 2 ^ 32" using vlt assms(2) power_increasing [of cs 32 "2::nat"] by simp
  then show u: "unat (ucast ?v :: u32) = unat ?v" by (simp add: unsigned_ucast_eq take_bit_nat_eq_self)
  show "fls (ucast ?v) \<le> cs" using vlt u by (intro fls_le) simp
qed

text \<open>When the top chunk is zero, printing starts below it.\<close>

lemma zero_chunk_below:
  assumes "chunk_val m k cs = 0" "cs \<le> 32" "\<forall>i < n. 32 * k + cs \<le> i \<longrightarrow> \<not> bit_at m i" "i < n" "32 * k \<le> i"
  shows "\<not> bit_at m i"
proof (cases "32 * k + cs \<le> i")
  case False
  then have "bit (chunk_val m k cs) (i - 32 * k) \<longleftrightarrow> bit_at m i" using assms(2,5) by (subst bit_chunk_val) auto
  with assms(1) show ?thesis by simp
qed (use assms in simp)

text \<open>The only chunk of a text, and the first chunk of a longer one.\<close>

lemma parse_loop_single:
  assumes suf: "line_end suf" and z: "BITS_TO_LONGS n \<le> length z" "bm_set n z = {}"
    and cs: "0 < cs" "cs \<le> 32" "cs \<le> n" "\<forall>i < n. cs \<le> i \<longrightarrow> \<not> bit_at m i"
  shows "\<exists>r. bitmap_parse_loop (fmt_0lx ((cs + 3) div 4) (chunk_val m 0 cs) @ suf) NUL 0 0 0 z n = (RC_OK, r)
      \<and> length r = length z \<and> bm_set n r = bm_set n m"
proof -
  let ?v = "chunk_val m 0 cs" and ?w = "(cs + 3) div 4"
  note w = printed_chunk(1,2) [OF cs(1,2)] printed_chunk(3-5) [OF cs(1,2), of m 0]
  note p = parse_chunk_printed(1) [OF w(3,1,2), of 0 NUL suf] parse_chunk_printed(2,3) [OF w(3,1,2), of 0 NUL]
  then obtain c' where c': "parse_chunk (fmt_0lx ?w ?v @ suf) NUL 0 0 0 = ChunkEnd (ucast ?v) ?w ?w c' []"
    using parse_chunk_line_end [OF suf p(3,2)] by (metis add_0)
  show ?thesis
  proof (cases "(ucast ?v :: u32) = 0")
    case True
    then have "?v = 0" using w(4) by (metis unat_eq_zero unsigned_0)
    then have "\<not> bit_at m i" if "i < n" for i using zero_chunk_below [of m 0 cs n i] cs that by simp
    with True c' w z(2) show ?thesis by (simp add: bitmap_parse_loop.simps) auto
  next
    case False
    have "parsed_above m n (Suc 0) z" using z cs by (auto simp: parsed_above_def set_eq_iff)
    then have "parsed_above m n 0 (commit_chunk z n (ucast ?v))" using cs by (intro parsed_above_commit) auto
    from parsed_above_0 [OF this] False c' w cs show ?thesis
      by (simp add: bitmap_parse_loop.simps Let_def commit_chunk_def)
  qed
qed

lemma parse_loop_first:
  assumes suf: "line_end suf" and z: "BITS_TO_LONGS n \<le> length z" "bm_set n z = {}"
    and cs: "0 < cs" "cs \<le> 32" "32 * Suc k + cs \<le> n" "\<forall>i < n. 32 * Suc k + cs \<le> i \<longrightarrow> \<not> bit_at m i"
    and nz: "chunk_val m (Suc k) cs \<noteq> 0"
  shows "\<exists>r. bitmap_parse_loop (fmt_0lx ((cs + 3) div 4) (chunk_val m (Suc k) cs) @ CHR '','' # fmt_0lx 8 (chunk_val m k 32)
        @ scn_text k m 32 '','' False @ suf) NUL 0 0 0 z n = (RC_OK, r) \<and> length r = length z \<and> bm_set n r = bm_set n m"
proof -
  let ?v = "chunk_val m (Suc k) cs" and ?w = "(cs + 3) div 4"
  let ?rest = "fmt_0lx 8 (chunk_val m k 32) @ scn_text k m 32 '','' False @ suf"
  note w = printed_chunk(1,2) [OF cs(1,2)] printed_chunk(3-5) [OF cs(1,2), of m "Suc k"]
  have c': "parse_chunk (fmt_0lx ?w ?v @ CHR '','' # ?rest) NUL 0 0 0 = ChunkEnd (ucast ?v) ?w ?w (CHR '','') ?rest"
    using parse_chunk_printed(1) [OF w(3,1,2), of 0 NUL "CHR '','' # ?rest"] parse_chunk_printed(2,3) [OF w(3,1,2), of 0 NUL]
    by (simp add: isspace_def NUL_def)
  have nz': "(ucast ?v :: u32) \<noteq> 0" using nz w(4) by (metis unat_eq_zero unsigned_0)
  have ne: "?rest \<noteq> []" using fmt_0lx_text(3) [of "chunk_val m k 32" 8] unat_chunk_val [of 32 m k] by auto
  have "parsed_above m n (Suc (Suc k)) z" using z cs by (auto simp: parsed_above_def set_eq_iff)
  then have "parsed_above m n (Suc k) (commit_chunk z n (ucast ?v))" using cs by (intro parsed_above_commit) auto
  then obtain r where "bitmap_parse_loop ?rest (CHR '','') ?w 1 (fls (ucast ?v))
      (commit_chunk z n (ucast ?v)) n = (RC_OK, r)" "length r = length z" "bm_set n r = bm_set n m"
    using parse_loop_tail [OF suf, of m n k "commit_chunk z n (ucast ?v)" 1 "fls (ucast ?v)" "CHR '',''" ?w]
      w(5) cs by (auto simp: isspace_def)
  with c' ne nz' w cs show ?thesis by (subst bitmap_parse_loop.simps) (simp add: Let_def commit_chunk_def)
qed

lemma parse_loop_head:
  assumes "line_end suf" "BITS_TO_LONGS n \<le> length z" "bm_set n z = {}"
  shows "0 < cs \<Longrightarrow> cs \<le> 32 \<Longrightarrow> 32 * k + cs \<le> n \<Longrightarrow> (\<forall>i < n. 32 * k + cs \<le> i \<longrightarrow> \<not> bit_at m i) \<Longrightarrow>
    \<exists>r. bitmap_parse_loop (scn_text (Suc k) m cs '''' True @ suf) NUL 0 0 0 z n = (RC_OK, r)
      \<and> length r = length z \<and> bm_set n r = bm_set n m"
proof (induction k arbitrary: cs)
  case (Suc k)
  show ?case
  proof (cases "chunk_val m (Suc k) cs = 0")
    case True
    then have "\<forall>i < n. 32 * k + 32 \<le> i \<longrightarrow> \<not> bit_at m i" using zero_chunk_below [OF True Suc.prems(2,4)] by simp
    then show ?thesis using Suc.IH [of 32] Suc.prems True by simp
  next
    case False
    then show ?thesis using parse_loop_first [OF assms Suc.prems False] by simp
  qed
next
  case 0
  then show ?case using parse_loop_single [OF assms, of cs m] by simp
qed

lemma unat_drop_bit: "unat (drop_bit k (w :: 'a::len word)) = unat w div 2 ^ k"
  by (simp only: unsigned_drop_bit_eq take_bit_nat_eq_self [OF unsigned_less])
     (simp only: drop_bit_eq_div)

lemma ALIGN_CHUNKSZ:
  assumes "n < 2 ^ 63"
  shows "ALIGN n 32 div 32 = (n + 31) div 32"
proof -
  let ?w = "of_nat (n + 31) :: u64"
  have "(of_nat n + of_nat 32 - 1 :: u64) = ?w" by simp
  moreover have "(of_nat 32 - 1 :: u64) = mask 5" by (simp add: mask_eq_exp_minus_1)
  ultimately have "ALIGN n 32 = unat (?w AND NOT (mask 5))" by (simp only: ALIGN_def)
  then have "ALIGN n 32 div 2 ^ 5 = unat (drop_bit 5 (?w AND NOT (mask 5)))"
    by (simp only: unat_drop_bit)
  also have "drop_bit 5 (?w AND NOT (mask 5)) = drop_bit 5 ?w"
    by (rule bit_word_eqI) (simp only: bit_drop_bit_eq bit_and_iff bit_not_iff_eq bit_mask_iff comp_def,
        auto dest: bit_imp_le_length)
  also have "unat (drop_bit 5 ?w) = (n + 31) div 2 ^ 5"
    using assms by (simp only: unat_drop_bit unat_of_nat) simp
  finally show ?thesis by simp
qed

lemma and_31_nat: "(n::nat) AND 31 = n mod 32"
proof -
  have "n AND mask 5 = take_bit 5 n" by (simp only: take_bit_eq_mask)
  then show ?thesis by (simp add: mask_eq_exp_minus_1 take_bit_eq_mod)
qed

lemma chunk_count:
  assumes "0 < n"
  obtains k where "(n + 31) div 32 = Suc k" "32 * k + (if n mod 32 = 0 then 32 else n mod 32) = n"
proof -
  define q r where "q = n div 32" and "r = n mod 32"
  then have n: "n = 32 * q + r" "r < 32" by simp_all
  show thesis
  proof (cases "r = 0")
    case True
    with n assms that [of "q - 1"] show thesis by (simp add: r_def [symmetric])
  next
    case False
    with n have "(n + 31) div 32 = Suc q" by simp
    with n False that [of q] show thesis by (simp add: r_def [symmetric])
  qed
qed

lemma bitmap_scnprintf_eq:
  fixes n buflen :: nat and m :: "u64 list"
  assumes "0 < n" "n < 2 ^ 63" "9 * ((n + 31) div 32) < buflen"
  defines "cs \<equiv> if n mod 32 = 0 then 32 else n mod 32"
  defines "tx \<equiv> scn_text ((n + 31) div 32) m cs '''' True"
  shows "bitmap_scnprintf buflen m n = Some (tx, length tx)" "length tx < buflen"
proof -
  have cs: "0 < cs" "cs \<le> 32" using mod_less_divisor [of 32 n] by (auto simp: cs_def simp del: mod_less_divisor)
  have "length tx \<le> 9 * ((n + 31) div 32)" unfolding tx_def using cs by (intro length_scn_text) simp_all
  with assms(3) show len: "length tx < buflen" by simp
  have "(if n AND 31 = 0 then 32 else n AND 31) = cs" by (simp add: cs_def and_31_nat)
  then have "bitmap_scnprintf buflen m n
      = scnprintf_loop ((n + 31) div 32) m buflen cs '''' True ('''', 0)"
    using ALIGN_CHUNKSZ [OF assms(2)] by (auto simp: bitmap_scnprintf_def Let_def)
  also have "\<dots> = Some ('''' @ tx, 0 + length tx)"
    unfolding tx_def using cs len by (intro scnprintf_loop_text) (simp_all add: tx_def)
  finally show "bitmap_scnprintf buflen m n = Some (tx, length tx)" by simp
qed

text \<open>Printing a bitmap and parsing the text, with or without the newline the kernel adds.\<close>

lemma parse_printed:
  assumes "0 < n" "n < 2 ^ 63" "BITS_TO_LONGS n \<le> length dst" "9 * ((n + 31) div 32) < buflen"
    and "line_end suf"
  shows "\<exists>tx r. bitmap_scnprintf buflen m n = Some (tx, length tx) \<and> length tx < buflen \<and>
     bitmap_parse (tx @ suf) dst n = (RC_OK, r) \<and> length r = length dst \<and> bm_set n r = bm_set n m"
proof -
  obtain k where k: "(n + 31) div 32 = Suc k" "32 * k + (if n mod 32 = 0 then 32 else n mod 32) = n"
    using chunk_count [OF assms(1)] by blast
  let ?cs = "if n mod 32 = 0 then 32 else n mod 32" and ?z = "bitmap_zero dst n"
  have cs: "0 < ?cs" "?cs \<le> 32" using mod_less_divisor [of 32 n] by (auto simp del: mod_less_divisor)
  let ?tx = "scn_text (Suc k) m ?cs '''' True"
  have len: "length ?z = length dst" by (simp add: bitmap_zero_def)
  have "\<exists>r. bitmap_parse_loop (?tx @ suf) NUL 0 0 0 ?z n = (RC_OK, r) \<and> length r = length ?z
      \<and> bm_set n r = bm_set n m"
    by (rule parse_loop_head) (use assms cs k len in \<open>auto simp: bm_set_bitmap_zero\<close>)
  then show ?thesis
    using bitmap_scnprintf_eq [OF assms(1,2,4), of m] len k(1)
    by (auto simp: bitmap_parse_def gen_bitmap_parse_def)
qed


section \<open>Decimal lists of ranges\<close>

definition dec_char :: "nat \<Rightarrow> char" where
  "dec_char d = char_of (48 + d)"

fun to_dec :: "nat \<Rightarrow> string" where
  "to_dec n = (if n < 10 then [dec_char n] else to_dec (n div 10) @ [dec_char (n mod 10)])"

declare to_dec.simps [simp del]

text \<open>A range as the kernel prints it, and a comma-separated list of ranges.\<close>

definition range_text :: "nat \<times> nat \<Rightarrow> string" where
  "range_text = (\<lambda>(a, b). if a = b then to_dec a else to_dec a @ ''-'' @ to_dec b)"

primrec ranges_text :: "nat \<times> nat \<Rightarrow> (nat \<times> nat) list \<Rightarrow> string" where
  "ranges_text r [] = range_text r"
| "ranges_text r (q # qs) = range_text r @ '','' @ ranges_text q qs"

lemma dec_char_facts:
  assumes "d < 10"
  shows "of_char (dec_char d) = 48 + d" "isdigit (dec_char d)" "\<not> isspace (dec_char d)"
    "dec_char d \<noteq> NUL" "dec_char d \<noteq> CHR '',''" "dec_char d \<noteq> CHR ''-''"
  using assms by (auto simp: dec_char_def isdigit_def isspace_def NUL_def char_eq_of_char)

lemma to_dec_not_Nil [simp]: "to_dec n \<noteq> []"
  by (subst to_dec.simps) simp

lemma last_to_dec: "\<exists>d < 10. last (to_dec n) = dec_char d"
  by (subst to_dec.simps) (auto intro: exI [of _ "n mod 10"])

lemma parse_item_to_dec:
  assumes "\<not> isspace c"
  shows "parse_item (to_dec n @ rest) c (if r then a else 0) 0 e r td
    = parse_item rest (last (to_dec n)) (if r then a else of_nat n) (of_nat n) False r
        (td + length (to_dec n))"
  using assms
proof (induction n arbitrary: rest c td e rule: to_dec.induct)
  case (1 n)
  show ?case
  proof (cases "n < 10")
    case True
    then show ?thesis using 1(2) by (simp add: to_dec.simps [of n] dec_char_facts Let_def)
  next
    case False
    let ?q = "n div 10" and ?d = "dec_char (n mod 10)"
    have d: "n mod 10 < 10" by simp
    obtain d' where d': "d' < 10" "last (to_dec ?q) = dec_char d'" using last_to_dec by blast
    have n: "of_nat ?q * 10 + of_nat (n mod 10) = (of_nat n :: c_int)"
      by (metis div_mult_mod_eq of_nat_add of_nat_mult of_nat_numeral)
    show ?thesis
      using False 1(1) [OF False 1(2), of "?d # rest" e td] d'
      by (simp add: to_dec.simps [of n] dec_char_facts [OF d] dec_char_facts [OF d'(1)] n Let_def)
  qed
qed

text \<open>What ends a range: a comma with more text, or the end of the line.\<close>

lemma parse_item_range:
  assumes "\<not> isspace c"
  obtains l td' where
    "\<not> isspace l" "l \<noteq> NUL" "l \<noteq> CHR '',''" "0 < td'"
    "\<And>rest. parse_item (range_text (a, b) @ rest) c 0 0 True False td
      = parse_item rest l (of_nat a) (of_nat b) False (a \<noteq> b) td'"
proof -
  obtain da where da: "da < 10" "last (to_dec a) = dec_char da" using last_to_dec by blast
  obtain db where db: "db < 10" "last (to_dec b) = dec_char db" using last_to_dec by blast
  note fa = dec_char_facts [OF da(1)] and fb = dec_char_facts [OF db(1)]
  have m: "\<not> isspace CHR ''-''" by (simp add: isspace_def)
  show thesis
  proof (cases "a = b")
    case True
    have "parse_item (range_text (a, b) @ rest) c 0 0 True False td
      = parse_item rest (last (to_dec a)) (of_nat a) (of_nat b) False (a \<noteq> b) (td + length (to_dec a))" for rest
      using parse_item_to_dec [OF assms, of a rest False 0 True td] True by (simp add: range_text_def)
    moreover have "0 < td + length (to_dec a)" by simp
    ultimately show thesis using that fa da(2) by metis
  next
    case False
    let ?td = "td + length (to_dec a)"
    have "parse_item (range_text (a, b) @ rest) c 0 0 True False td
        = parse_item (''-'' @ to_dec b @ rest) (last (to_dec a)) (of_nat a) (of_nat a) False False ?td" for rest
      using parse_item_to_dec [OF assms, of a "''-'' @ to_dec b @ rest" False 0 True td] False
      by (simp add: range_text_def)
    also have "\<dots> rest = parse_item (to_dec b @ rest) CHR ''-'' (of_nat a) 0 True True ?td" for rest
      using fa da(2) m by (simp add: NUL_def)
    also have "\<dots> rest = parse_item rest (last (to_dec b)) (of_nat a) (of_nat b) False (a \<noteq> b)
        (?td + length (to_dec b))" for rest
      using parse_item_to_dec [OF m, of b rest True "of_nat a" True ?td] False by simp
    finally show thesis using that [of "last (to_dec b)" "?td + length (to_dec b)"] fb db(2) by simp
  qed
qed

lemma set_range_Some:
  assumes "-64 < a" "b < 64 * int (length m)" "m \<noteq> []"
  shows "\<exists>r. set_range a b m = Some r \<and> length r = length m
    \<and> (\<forall>i. bit_at r i \<longleftrightarrow> bit_at m i \<or> (\<exists>j. a \<le> j \<and> j \<le> b \<and> i = bit_pos j))"
  using assms
proof (induction a b m rule: set_range.induct)
  case (1 a b m)
  show ?case
  proof (cases "a \<le> b")
    case True
    have "bit_pos a < 64 * length m"
      using True 1(2-4) by (cases m) (auto simp: bit_pos_def nat_less_iff)
    then obtain m' where m': "set_bit_c a m = Some m'"
      using 1(2) set_bit_c_in_range [of a m] by (auto simp: bit_in_range_iff)
    have l: "length m' = length m" "\<And>i. bit_at m' i \<longleftrightarrow> bit_at m i \<or> i = bit_pos a"
      using set_bit_c_Some [OF m'] by auto
    then obtain r where r: "set_range (a + 1) b m' = Some r" "length r = length m'"
      "\<And>i. bit_at r i \<longleftrightarrow> bit_at m' i \<or> (\<exists>j. a + 1 \<le> j \<and> j \<le> b \<and> i = bit_pos j)"
      using 1(1) [OF True m'] 1(2-4) by fastforce
    have "(\<exists>j. a \<le> j \<and> j \<le> b \<and> i = bit_pos j) \<longleftrightarrow> i = bit_pos a \<or> (\<exists>j. a + 1 \<le> j \<and> j \<le> b \<and> i = bit_pos j)" for i
      using True by (metis add1_zle_eq order.order_iff_strict order_less_imp_le order_refl zless_add1_eq)
    then have "bit_at r i \<longleftrightarrow> bit_at m i \<or> (\<exists>j. a \<le> j \<and> j \<le> b \<and> i = bit_pos j)" for i
      using r(3) [of i] l(2) [of i] by blast
    then show ?thesis using True m' r l(1) by (simp add: set_range.simps [of a])
  qed (auto simp: set_range.simps [of a])
qed

lemma set_range_None: "a \<le> b \<Longrightarrow> a \<le> -64 \<Longrightarrow> set_range a b m = None"
  using set_bit_c_in_range [of a m] by (auto simp: set_range.simps [of a] bit_in_range_iff split: option.split)

lemma parse_item_line_end:
  assumes "line_end suf" "\<not> isspace l" "l \<noteq> CHR '',''"
  shows "\<exists>l'. l' \<noteq> CHR '','' \<and> parse_item suf l a b e r td = ItemEnd a b td l' []"
  using assms(1) unfolding line_end_def
proof
  assume "suf = []"
  with assms(3) show ?thesis by simp
next
  assume "suf = [CHR 0x0A]"
  then show ?thesis by (simp add: isspace_def)
qed

lemma parselist_one:
  assumes "\<not> isspace c" "a \<le> b" "b < n" "n \<le> 64 * length m" "n < 2 ^ 31"
  obtains m' td' where "length m' = length m"
    "\<And>i. bit_at m' i \<longleftrightarrow> bit_at m i \<or> i \<in> {a..b}"
    "\<And>more. more \<noteq> [] \<Longrightarrow> bitmap_parselist_loop (range_text (a, b) @ '','' @ more) c td m n
       = bitmap_parselist_loop more CHR '','' td' m' n"
    "\<And>suf. line_end suf \<Longrightarrow> bitmap_parselist_loop (range_text (a, b) @ suf) c td m n = Some (RC_OK, m')"
proof -
  obtain l td' where l: "\<not> isspace l" "l \<noteq> NUL" "l \<noteq> CHR '',''" "0 < td'"
    "\<And>rest. parse_item (range_text (a, b) @ rest) c 0 0 True False td
      = parse_item rest l (of_nat a) (of_nat b) False (a \<noteq> b) td'"
    using parse_item_range [OF assms(1)] by metis
  have "m \<noteq> []" using assms(3,4) by auto
  then obtain m' where m': "set_range (int a) (int b) m = Some m'" "length m' = length m"
    "\<And>i. bit_at m' i \<longleftrightarrow> bit_at m i \<or> (\<exists>j. int a \<le> j \<and> j \<le> int b \<and> i = bit_pos j)"
    using set_range_Some [of "int a" "int b" m] assms(3,4) by auto
  have s: "sint (of_nat k :: c_int) = int k" if "k \<le> b" for k
    using that assms(3,5) by (simp add: signed_of_nat signed_take_bit_int_eq_self)
  have loop: "bitmap_parselist_loop (range_text (a, b) @ rest) c td m n =
      (if rest' \<noteq> [] \<and> c' = CHR '','' then bitmap_parselist_loop rest' c' td' m' n else Some (RC_OK, m'))"
    if "parse_item rest l (of_nat a) (of_nat b) False (a \<noteq> b) td' = ItemEnd (of_nat a) (of_nat b) td' c' rest'"
    for rest c' rest'
    using that assms(2,3) m'(1)
    by (simp add: bitmap_parselist_loop.simps [of "range_text (a, b) @ rest"] l(5) s)
  show thesis
  proof (rule that [OF m'(2)])
    have "(\<exists>j. int a \<le> j \<and> j \<le> int b \<and> i = bit_pos j) \<longleftrightarrow> i \<in> {a..b}" for i
      by (auto simp: bit_pos_def intro: exI [of _ "int i"])
    then show "bit_at m' i \<longleftrightarrow> bit_at m i \<or> i \<in> {a..b}" for i using m'(3) [of i] by simp
  next
    fix more :: string assume "more \<noteq> []"
    then show "bitmap_parselist_loop (range_text (a, b) @ '','' @ more) c td m n
        = bitmap_parselist_loop more CHR '','' td' m' n"
      using l(1) by (subst loop [of _ "CHR '',''" more]) (simp_all add: isspace_def)
  next
    fix suf assume "line_end suf"
    from parse_item_line_end [OF this l(1,3)]
    show "bitmap_parselist_loop (range_text (a, b) @ suf) c td m n = Some (RC_OK, m')"
      by (metis loop)
  qed
qed

lemma range_text_not_Nil [simp]: "range_text r \<noteq> []"
  by (simp add: range_text_def split: prod.split)

lemma ranges_text_not_Nil [simp]: "ranges_text r rs \<noteq> []"
  by (cases rs) simp_all

lemma parselist_loop_ranges:
  assumes "\<not> isspace c" "\<forall>(a, b) \<in> set (r # rs). a \<le> b \<and> b < n"
    and "n \<le> 64 * length m" "n < 2 ^ 31" "line_end suf"
  shows "\<exists>m'. bitmap_parselist_loop (ranges_text r rs @ suf) c td m n = Some (RC_OK, m')
    \<and> length m' = length m \<and> (\<forall>i. bit_at m' i \<longleftrightarrow> bit_at m i \<or> (\<exists>(a, b) \<in> set (r # rs). a \<le> i \<and> i \<le> b))"
  using assms
proof (induction rs arbitrary: r c td m)
  case Nil
  obtain a b where r: "r = (a, b)" by (cases r)
  have ab: "a \<le> b" "b < n" using Nil(2) r by auto
  show ?case
    by (rule parselist_one [OF Nil(1) ab Nil(3,4), of td])
      (use Nil(5) r in \<open>auto\<close>)
next
  case (Cons q qs)
  obtain a b where r: "r = (a, b)" by (cases r)
  have ab: "a \<le> b" "b < n" using Cons(3) r by auto
  obtain m' td' where m': "length m' = length m" "\<And>i. bit_at m' i \<longleftrightarrow> bit_at m i \<or> i \<in> {a..b}"
    "\<And>more. more \<noteq> [] \<Longrightarrow> bitmap_parselist_loop (range_text (a, b) @ '','' @ more) c td m n
       = bitmap_parselist_loop more CHR '','' td' m' n"
    using parselist_one [OF Cons(2) ab Cons(4,5), of td] by metis
  have "\<not> isspace CHR '',''" by (simp add: isspace_def)
  from Cons.IH [OF this, of q m' td'] Cons.prems m'(1)
  obtain m2 where "bitmap_parselist_loop (ranges_text q qs @ suf) CHR '','' td' m' n = Some (RC_OK, m2)"
    "length m2 = length m'"
    "\<And>i. bit_at m2 i \<longleftrightarrow> bit_at m' i \<or> (\<exists>(a, b) \<in> set (q # qs). a \<le> i \<and> i \<le> b)"
    by auto
  with m'(1,2) m'(3) [of "ranges_text q qs @ suf"] r show ?case by auto
qed

lemma bitmap_parselist_ranges:
  assumes "\<forall>(a, b) \<in> set (r # rs). a \<le> b \<and> b < n"
    and "BITS_TO_LONGS n \<le> length dst" "0 < n" "n < 2 ^ 31" "line_end suf"
  shows "\<exists>m. bitmap_parselist (ranges_text r rs @ suf) dst n = Some (RC_OK, m)
    \<and> length m = length dst \<and> bm_set n m = (\<Union>(a, b) \<in> set (r # rs). {a..b})"
proof -
  have z: "bm_set n (bitmap_zero dst n) = {}" "length (bitmap_zero dst n) = length dst"
    using assms(2) bm_set_bitmap_zero [of n dst] by (simp_all add: bitmap_zero_def)
  have "n \<le> 64 * length dst"
    using assms(2) by (simp add: BITS_TO_LONGS_def)
  then obtain m where m: "bitmap_parselist (ranges_text r rs @ suf) dst n = Some (RC_OK, m)"
    "length m = length dst"
    "\<And>i. bit_at m i \<longleftrightarrow> bit_at (bitmap_zero dst n) i \<or> (\<exists>(a, b) \<in> set (r # rs). a \<le> i \<and> i \<le> b)"
    using parselist_loop_ranges [OF _ assms(1) _ assms(4,5), of NUL "bitmap_zero dst n" 0] z(2)
    by (auto simp: bitmap_parselist_def gen_bitmap_parselist_def NUL_def isspace_def)
  have "i \<in> bm_set n m \<longleftrightarrow> (\<exists>(a, b) \<in> set (r # rs). a \<le> i \<and> i \<le> b)" for i
  proof -
    have "i \<notin> bm_set n (bitmap_zero dst n)" using z(1) by blast
    then show ?thesis using m(3) [of i] assms(1) by fastforce
  qed
  then have "bm_set n m = (\<Union>(a, b) \<in> set (r # rs). {a..b})" by fastforce
  with m show ?thesis by blast
qed

text \<open>One item with numbers of any size: they are reduced to \<open>int\<close> before they are compared.\<close>

lemma bitmap_parselist_item:
  assumes len: "BITS_TO_LONGS n \<le> length dst" "0 < n" and suf: "line_end suf"
    and A: "A = sint (of_nat a :: c_int)" and B: "B = sint (of_nat b :: c_int)"
  defines "r \<equiv> bitmap_parselist (range_text (a, b) @ suf) dst n" and "z \<equiv> bitmap_zero dst n"
  shows "B < A \<Longrightarrow> r = Some (RC_EINVAL, z)" "A \<le> B \<Longrightarrow> int n \<le> B \<Longrightarrow> r = Some (RC_ERANGE, z)"
    "A \<le> B \<Longrightarrow> B < int n \<Longrightarrow> A \<le> -64 \<Longrightarrow> r = None"
    "A \<le> B \<Longrightarrow> B < int n \<Longrightarrow> -64 < A \<Longrightarrow>
      \<exists>m. r = Some (RC_OK, m) \<and> length m = length dst \<and> bm_set n m = {bit_pos j |j. A \<le> j \<and> j \<le> B} \<inter> {..<n}"
proof -
  have z: "bm_set n z = {}" "length z = length dst"
    using len(1) bm_set_bitmap_zero [of n dst] by (simp_all add: bitmap_zero_def z_def)
  have l64: "n \<le> 64 * length dst" using len(1) by (simp add: BITS_TO_LONGS_def)
  have "\<not> isspace NUL" by (simp add: NUL_def isspace_def)
  from parse_item_range [OF this, of a b 0] obtain l td' where l: "\<not> isspace l" "l \<noteq> CHR '',''"
    "\<And>rest. parse_item (range_text (a, b) @ rest) NUL 0 0 True False 0 = parse_item rest l (of_nat a) (of_nat b) False (a \<noteq> b) td'"
    by metis
  from parse_item_line_end [OF suf l(1,2)] obtain l' where
    "parse_item (range_text (a, b) @ suf) NUL 0 0 True False 0 = ItemEnd (of_nat a) (of_nat b) td' l' []" unfolding l(3) by blast
  then have r: "r = (if \<not> A \<le> B then Some (RC_EINVAL, z) else if int n \<le> B then Some (RC_ERANGE, z)
      else map_option (Pair RC_OK) (set_range A B z))"
    by (simp add: r_def z_def A B bitmap_parselist_def gen_bitmap_parselist_def bitmap_parselist_loop.simps [of "range_text (a, b) @ suf"]
        map_option_case split: option.split)
  show "B < A \<Longrightarrow> r = Some (RC_EINVAL, z)" "A \<le> B \<Longrightarrow> int n \<le> B \<Longrightarrow> r = Some (RC_ERANGE, z)"
    "A \<le> B \<Longrightarrow> B < int n \<Longrightarrow> A \<le> -64 \<Longrightarrow> r = None" by (simp_all add: r set_range_None)
  assume ab: "A \<le> B" "B < int n" "-64 < A"
  then obtain m where m: "set_range A B z = Some m" "length m = length z"
    "\<And>i. bit_at m i \<longleftrightarrow> bit_at z i \<or> (\<exists>j. A \<le> j \<and> j \<le> B \<and> i = bit_pos j)"
    using set_range_Some [of A B z] l64 len(2) z(2) by fastforce
  have "bm_set n m = {bit_pos j |j. A \<le> j \<and> j \<le> B} \<inter> {..<n}" using z(1) m(3) by (auto simp: bm_set_def)
  with m(1,2) ab z(2) show "\<exists>m. r = Some (RC_OK, m) \<and> length m = length dst \<and> bm_set n m = {bit_pos j |j. A \<le> j \<and> j \<le> B} \<inter> {..<n}"
    by (simp add: r)
qed

end
