(* ===== verification/Cpumask.thy ===== *)
theory Cpumask
  imports Bitmap_Text
begin

text \<open>
  \<open>cpumask.h\<close>: a \<open>cpumask_t\<close> is a structure with one bitmap of \<open>NR_CPUS\<close> bits, an array of 64
  words. The macros pass addresses; here an operation takes the old value of its destination and
  returns the new one (so \<open>cpus_and(d, a, b)\<close> is \<open>d := cpus_and d a b\<close>). Setting, clearing or
  testing a cpu number outside the mask is an invalid memory access: \<open>None\<close>. (The numbers from -63 to -1
  are not: they address the first word.)

  \<open>cpus_of\<close> reads a mask as the set of its cpus. The locale \<open>mask_algebra\<close> is the interface the
  balancer relies on; it is interpreted on the operations below.
\<close>

definition NR_CPUS :: nat where
  "NR_CPUS = 4096"

lemma BITS_TO_LONGS_NR_CPUS [simp]: "BITS_TO_LONGS NR_CPUS = 64"
  by (simp add: BITS_TO_LONGS_def NR_CPUS_def)

lemma NR_CPUS_pos [simp]: "0 < NR_CPUS"
  by (simp add: NR_CPUS_def)

typedef cpumask_t = "{xs :: u64 list. length xs = BITS_TO_LONGS NR_CPUS}"
  morphisms bits mk_cpumask
  by (rule exI [of _ "replicate 64 0"]) simp

setup_lifting type_definition_cpumask_t

lemma length_bits [simp]: "length (bits m) = 64"
  using bits [of m] by simp


section \<open>Operations\<close>

lift_definition cpu_set :: "int \<Rightarrow> cpumask_t \<Rightarrow> cpumask_t option" is set_bit_c
  by (auto simp: set_bit_c_def Let_def)

lift_definition cpu_clear :: "int \<Rightarrow> cpumask_t \<Rightarrow> cpumask_t option" is clear_bit_c
  by (auto simp: clear_bit_c_def Let_def)

lift_definition cpu_isset :: "int \<Rightarrow> cpumask_t \<Rightarrow> bool option" is test_bit_c .

lift_definition cpus_setall :: "cpumask_t \<Rightarrow> cpumask_t" is "\<lambda>dst. bitmap_fill dst NR_CPUS"
  by (simp add: bitmap_fill_def Let_def)

lift_definition cpus_clear :: "cpumask_t \<Rightarrow> cpumask_t" is "\<lambda>dst. bitmap_zero dst NR_CPUS"
  by (simp add: bitmap_zero_def)

lift_definition cpus_and :: "cpumask_t \<Rightarrow> cpumask_t \<Rightarrow> cpumask_t \<Rightarrow> cpumask_t"
  is "\<lambda>dst src1 src2. bitmap_and dst src1 src2 NR_CPUS"
  by (simp add: bitmap_and_def gen_bitmap_and_def)

lift_definition cpus_or :: "cpumask_t \<Rightarrow> cpumask_t \<Rightarrow> cpumask_t \<Rightarrow> cpumask_t"
  is "\<lambda>dst src1 src2. bitmap_or dst src1 src2 NR_CPUS"
  by (simp add: bitmap_or_def gen_bitmap_or_def)

lift_definition cpus_xor :: "cpumask_t \<Rightarrow> cpumask_t \<Rightarrow> cpumask_t \<Rightarrow> cpumask_t"
  is "\<lambda>dst src1 src2. bitmap_xor dst src1 src2 NR_CPUS"
  by (simp add: bitmap_xor_def gen_bitmap_xor_def)

lift_definition cpus_andnot :: "cpumask_t \<Rightarrow> cpumask_t \<Rightarrow> cpumask_t \<Rightarrow> cpumask_t"
  is "\<lambda>dst src1 src2. bitmap_andnot dst src1 src2 NR_CPUS"
  by (simp add: bitmap_andnot_def gen_bitmap_andnot_def)

lift_definition cpus_complement :: "cpumask_t \<Rightarrow> cpumask_t \<Rightarrow> cpumask_t"
  is "\<lambda>dst src. bitmap_complement dst src NR_CPUS"
  by (simp add: bitmap_complement_def gen_bitmap_complement_def Let_def)

lift_definition cpus_equal :: "cpumask_t \<Rightarrow> cpumask_t \<Rightarrow> bool"
  is "\<lambda>src1 src2. bitmap_equal src1 src2 NR_CPUS" .

lift_definition cpus_intersects :: "cpumask_t \<Rightarrow> cpumask_t \<Rightarrow> bool"
  is "\<lambda>src1 src2. bitmap_intersects src1 src2 NR_CPUS" .

lift_definition cpus_empty :: "cpumask_t \<Rightarrow> bool" is "\<lambda>src. bitmap_empty src NR_CPUS" .

lift_definition cpus_full :: "cpumask_t \<Rightarrow> bool" is "\<lambda>src. bitmap_full src NR_CPUS" .

lift_definition cpus_weight :: "cpumask_t \<Rightarrow> nat" is "\<lambda>src. bitmap_weight src NR_CPUS" .

lift_definition cpus_shift_right :: "cpumask_t \<Rightarrow> cpumask_t \<Rightarrow> nat \<Rightarrow> cpumask_t option"
  is "\<lambda>dst src n. bitmap_shift_right dst src n NR_CPUS"
  by (auto simp: bitmap_shift_right_def pred_option_def length_gen_shift_right)

lift_definition cpus_shift_left :: "cpumask_t \<Rightarrow> cpumask_t \<Rightarrow> nat \<Rightarrow> cpumask_t option"
  is "\<lambda>dst src n. bitmap_shift_left dst src n NR_CPUS"
  by (auto simp: bitmap_shift_left_def pred_option_def length_gen_shift_left)

lift_definition CPU_MASK_ALL :: cpumask_t
  is "replicate (BITS_TO_LONGS NR_CPUS - 1) (NOT 0) @ [BITMAP_LAST_WORD_MASK NR_CPUS]"
  by simp

lift_definition CPU_MASK_NONE :: cpumask_t is "replicate (BITS_TO_LONGS NR_CPUS) 0"
  by simp

text \<open>The masks have more than one word, so \<open>cpumask_of_cpu\<close> takes its second branch.\<close>

definition cpumask_of_cpu :: "int \<Rightarrow> cpumask_t \<Rightarrow> cpumask_t option" where
  "cpumask_of_cpu cpu m = cpu_set cpu (cpus_clear m)"

text \<open>\<open>ffs\<close> takes an \<open>unsigned int\<close>: only the low 32 bits of the first word are looked at.\<close>

primrec ffs_from :: "nat \<Rightarrow> nat \<Rightarrow> u32 \<Rightarrow> int" where
  "ffs_from 0 i w = 0"
| "ffs_from (Suc k) i w = (if bit w i then int i + 1 else ffs_from k (Suc i) w)"

definition first_cpu :: "cpumask_t \<Rightarrow> int" where
  "first_cpu src = ffs_from 32 0 (ucast (bits src ! 0)) - 1"

lift_definition cpumask_scnprintf :: "nat \<Rightarrow> cpumask_t \<Rightarrow> (string \<times> nat) option"
  is "\<lambda>len src. bitmap_scnprintf len src NR_CPUS" .


lemma length_bitmap_parse_loop:
  "length (snd (bitmap_parse_loop buf c td nc nb m n)) = length m"
proof (induction buf c td nc nb m n rule: bitmap_parse_loop.induct)
  case (1 buf c td nc nb m n)
  show ?case
    by (subst bitmap_parse_loop.simps) (use 1 in \<open>auto simp: Let_def shift_chunk(2) split: chunk_result.split\<close>)
qed

lemma length_set_range: "set_range a b m = Some r \<Longrightarrow> length r = length m"
proof (induction a b m rule: set_range.induct)
  case (1 a b m)
  then show ?case
    by (auto simp: set_range.simps [of a] set_bit_c_Some split: if_splits option.splits)
qed

lemma length_bitmap_parselist_loop:
  "bitmap_parselist_loop buf c td m n = Some (rc, r) \<Longrightarrow> length r = length m"
proof (induction buf c td m n rule: bitmap_parselist_loop.induct)
  case (1 buf c td m n)
  have "length x = length y" if "set_range a b y = Some x" for a b x y
    using length_set_range [OF that] .
  with 1(2) show ?case
    by (subst (asm) bitmap_parselist_loop.simps)
      (fastforce dest: 1(1) split: item_result.splits if_splits option.splits)
qed

lift_definition cpumask_parse_user :: "string \<Rightarrow> cpumask_t \<Rightarrow> parse_rc \<times> cpumask_t"
  is "\<lambda>buf dst. bitmap_parse buf dst NR_CPUS"
  by (auto simp: bitmap_parse_def gen_bitmap_parse_def length_bitmap_parse_loop bitmap_zero_def pred_prod_beta)

lift_definition cpulist_parse :: "string \<Rightarrow> cpumask_t \<Rightarrow> (parse_rc \<times> cpumask_t) option"
  is "\<lambda>buf dst. bitmap_parselist buf dst NR_CPUS"
  by (auto simp: bitmap_parselist_def gen_bitmap_parselist_def bitmap_zero_def pred_prod_beta
      pred_option_def dest: length_bitmap_parselist_loop)


section \<open>Masks as sets of cpus\<close>

definition cpus_of :: "cpumask_t \<Rightarrow> nat set" where
  "cpus_of m = bm_set NR_CPUS (bits m)"

lemma cpus_of_le: "cpus_of m \<subseteq> {..<NR_CPUS}"
  by (auto simp: cpus_of_def)

lemma finite_cpus_of [simp]: "finite (cpus_of m)"
  by (simp add: cpus_of_def)

lemma cpus_of_and [simp]: "cpus_of (cpus_and d a b) = cpus_of a \<inter> cpus_of b"
  unfolding cpus_of_def cpus_and.rep_eq by (subst bm_set_bitmap_and) auto

lemma cpus_of_or [simp]: "cpus_of (cpus_or d a b) = cpus_of a \<union> cpus_of b"
  unfolding cpus_of_def cpus_or.rep_eq by (subst bm_set_bitmap_or) auto

lemma cpus_of_xor: "cpus_of (cpus_xor d a b) = (cpus_of a - cpus_of b) \<union> (cpus_of b - cpus_of a)"
  unfolding cpus_of_def cpus_xor.rep_eq by (subst bm_set_bitmap_xor) auto

lemma cpus_of_andnot [simp]: "cpus_of (cpus_andnot d a b) = cpus_of a - cpus_of b"
  unfolding cpus_of_def cpus_andnot.rep_eq by (subst bm_set_bitmap_andnot) auto

lemma cpus_of_complement [simp]: "cpus_of (cpus_complement d a) = {..<NR_CPUS} - cpus_of a"
  unfolding cpus_of_def cpus_complement.rep_eq by (subst bm_set_bitmap_complement) auto

lemma cpus_of_clear [simp]: "cpus_of (cpus_clear d) = {}"
  unfolding cpus_of_def cpus_clear.rep_eq by (rule bm_set_bitmap_zero) simp

lemma cpus_of_setall [simp]: "cpus_of (cpus_setall d) = {..<NR_CPUS}"
  unfolding cpus_of_def cpus_setall.rep_eq by (rule bm_set_bitmap_fill) simp_all

lemma cpus_of_NONE [simp]: "cpus_of CPU_MASK_NONE = {}"
proof -
  have "i div 64 < 64" if "i < NR_CPUS" for i using that by (simp add: NR_CPUS_def)
  then show ?thesis by (auto simp: cpus_of_def CPU_MASK_NONE.rep_eq bit_at_def)
qed

lemma cpus_of_ALL [simp]: "cpus_of CPU_MASK_ALL = {..<NR_CPUS}"
proof -
  have "bits CPU_MASK_ALL = replicate 64 (NOT 0)"
    unfolding CPU_MASK_ALL.rep_eq
    by (simp add: BITMAP_LAST_WORD_MASK_def NR_CPUS_def BITS_TO_LONGS_def replicate_append_same
        flip: replicate_Suc)
  then show ?thesis
    by (auto simp: cpus_of_def bit_at_def NR_CPUS_def bit_simps)
qed

lemma cpus_empty_iff [simp]: "cpus_empty m \<longleftrightarrow> cpus_of m = {}"
  by (simp add: cpus_empty.rep_eq cpus_of_def bitmap_empty_iff)

lemma cpus_full_iff: "cpus_full m \<longleftrightarrow> cpus_of m = {..<NR_CPUS}"
  by (simp add: cpus_full.rep_eq cpus_of_def bitmap_full_iff)

lemma cpus_equal_iff [simp]: "cpus_equal a b \<longleftrightarrow> cpus_of a = cpus_of b"
  by (simp add: cpus_equal.rep_eq cpus_of_def bitmap_equal_iff)

lemma cpus_intersects_iff [simp]: "cpus_intersects a b \<longleftrightarrow> cpus_of a \<inter> cpus_of b \<noteq> {}"
  by (simp add: cpus_intersects.rep_eq cpus_of_def bitmap_intersects_iff)

lemma mask_range_iff: "bit_in_range cpu (bits m) \<longleftrightarrow> -64 < cpu \<and> cpu < int NR_CPUS"
  by (auto simp: bit_in_range_iff bit_pos_def NR_CPUS_def)

lemma bit_pos_mask: "-64 < cpu \<Longrightarrow> cpu < int NR_CPUS \<Longrightarrow> bit_pos cpu < NR_CPUS"
  by (auto simp: bit_pos_def NR_CPUS_def)

lemma cpu_isset_eq: "cpu_isset cpu m = (if -64 < cpu \<and> cpu < int NR_CPUS then Some (bit_pos cpu \<in> cpus_of m) else None)"
  by (auto simp: cpu_isset.rep_eq test_bit_c_eq mask_range_iff cpus_of_def bit_pos_mask)

lemma cpu_set_None: "cpu_set cpu m = None \<longleftrightarrow> \<not> (-64 < cpu \<and> cpu < int NR_CPUS)"
proof -
  have "map_option bits (cpu_set cpu m) = set_bit_c cpu (bits m)" by (simp add: cpu_set.rep_eq)
  then have "cpu_set cpu m = None \<longleftrightarrow> set_bit_c cpu (bits m) = None" by (metis option.map_disc_iff)
  then show ?thesis by (simp add: set_bit_c_def Let_def mask_range_iff)
qed

lemma cpu_set_Some:
  assumes "cpu_set cpu m = Some m'"
  shows "-64 < cpu" "cpu < int NR_CPUS" "cpus_of m' = insert (bit_pos cpu) (cpus_of m)"
proof -
  show r: "-64 < cpu" "cpu < int NR_CPUS" using cpu_set_None [of cpu m] assms by simp_all
  have "set_bit_c cpu (bits m) = Some (bits m')"
    using assms by (transfer) simp
  note * = set_bit_c_Some(2) [OF this]
  show "cpus_of m' = insert (bit_pos cpu) (cpus_of m)" using bit_pos_mask [OF r] by (auto simp: cpus_of_def *)
qed

lemma cpu_clear_None: "cpu_clear cpu m = None \<longleftrightarrow> \<not> (-64 < cpu \<and> cpu < int NR_CPUS)"
proof -
  have "map_option bits (cpu_clear cpu m) = clear_bit_c cpu (bits m)" by (simp add: cpu_clear.rep_eq)
  then have "cpu_clear cpu m = None \<longleftrightarrow> clear_bit_c cpu (bits m) = None" by (metis option.map_disc_iff)
  then show ?thesis by (simp add: clear_bit_c_def Let_def mask_range_iff)
qed

lemma cpu_clear_Some:
  assumes "cpu_clear cpu m = Some m'"
  shows "-64 < cpu" "cpu < int NR_CPUS" "cpus_of m' = cpus_of m - {bit_pos cpu}"
proof -
  show r: "-64 < cpu" "cpu < int NR_CPUS" using cpu_clear_None [of cpu m] assms by simp_all
  have "clear_bit_c cpu (bits m) = Some (bits m')"
    using assms by (transfer) simp
  note * = clear_bit_c_Some(2) [OF this]
  show "cpus_of m' = cpus_of m - {bit_pos cpu}" by (auto simp: cpus_of_def *)
qed

text \<open>A mask is determined by its set: the 64 words have no padding.\<close>

lemma cpus_of_inject: "cpus_of a = cpus_of b \<longleftrightarrow> a = b"
proof
  assume "cpus_of a = cpus_of b"
  then have *: "\<forall>i<4096. bit_at (bits a) i = bit_at (bits b) i"
    by (simp add: cpus_of_def bm_set_eq_iff NR_CPUS_def)
  then have "bits a ! k = bits b ! k" if "k < 64" for k
  proof -
    have "bit (bits a ! k) j = bit (bits b ! k) j" if "j < 64" for j
    proof -
      have "64 * k + j < 4096" using \<open>k < 64\<close> that by linarith
      with * have "bit_at (bits a) (64 * k + j) = bit_at (bits b) (64 * k + j)" by blast
      with that show ?thesis by (simp add: bit_at_split)
    qed
    then show ?thesis by (auto intro!: bit_word_eqI)
  qed
  then have "bits a = bits b" by (intro nth_equalityI) simp_all
  then show "a = b" by (simp add: bits_inject)
qed simp

instantiation cpumask_t :: equal
begin

definition equal_cpumask_t :: "cpumask_t \<Rightarrow> cpumask_t \<Rightarrow> bool" where
  "equal_cpumask_t a b = cpus_equal a b"

instance
  by standard (simp add: equal_cpumask_t_def cpus_of_inject)

end


section \<open>Text that is no mask\<close>

text \<open>A character that is no digit ends the parse with an error and an empty mask.\<close>

lemma xdigit_plain: "isxdigit c \<Longrightarrow> \<not> isspace c \<and> c \<noteq> NUL \<and> c \<noteq> CHR '',''"
  by (auto simp: isxdigit_def isdigit_def isspace_def NUL_def)

lemma parse_chunk_stops:
  assumes "\<forall>c \<in> set ds. isxdigit c" "\<not> isxdigit x" "\<not> isspace x" "x \<noteq> CHR '',''" "x \<noteq> NUL" "td = 0 \<or> \<not> isspace c"
  shows "parse_chunk (ds @ x # rest) c chunk nd td \<in> {ChunkRet RC_EINVAL, ChunkRet RC_EOVERFLOW}"
  using assms
proof (induction ds arbitrary: c chunk nd td)
  case (Cons y ds)
  then show ?case using xdigit_plain [of y] by auto
qed auto

lemma parse_user_stops:
  assumes "\<forall>c \<in> set ds. isxdigit c" "\<not> isxdigit x" "\<not> isspace x" "x \<noteq> CHR '',''" "x \<noteq> NUL"
  shows "fst (cpumask_parse_user (ds @ x # rest) m) \<in> {RC_EINVAL, RC_EOVERFLOW} \<and> snd (cpumask_parse_user (ds @ x # rest) m) = CPU_MASK_NONE"
proof -
  obtain r where r: "parse_chunk (ds @ x # rest) NUL 0 0 0 = ChunkRet r" "r \<in> {RC_EINVAL, RC_EOVERFLOW}"
    using parse_chunk_stops [OF assms, of 0 NUL rest 0 0] by auto
  have "map_prod id bits (cpumask_parse_user (ds @ x # rest) m) = (r, bitmap_zero (bits m) NR_CPUS)"
    by (simp add: cpumask_parse_user.rep_eq bitmap_parse_def gen_bitmap_parse_def bitmap_parse_loop.simps r(1))
  moreover have "bitmap_zero (bits m) NR_CPUS = bits (cpus_clear m)" by (simp add: cpus_clear.rep_eq)
  moreover have "cpus_clear m = CPU_MASK_NONE" by (simp flip: cpus_of_inject)
  ultimately have "fst (cpumask_parse_user (ds @ x # rest) m) = r" "bits (snd (cpumask_parse_user (ds @ x # rest) m)) = bits CPU_MASK_NONE"
    by (cases "cpumask_parse_user (ds @ x # rest) m"; simp)+
  then show ?thesis using r(2) by (simp add: bits_inject)
qed


section \<open>The interface the balancer uses\<close>

locale mask_algebra =
  fixes members :: "'m \<Rightarrow> nat set" and univ :: "nat set"
    and mand mor :: "'m \<Rightarrow> 'm \<Rightarrow> 'm \<Rightarrow> 'm" and mcompl :: "'m \<Rightarrow> 'm \<Rightarrow> 'm"
    and mempty :: "'m \<Rightarrow> bool" and mintersects :: "'m \<Rightarrow> 'm \<Rightarrow> bool"
  assumes members_and: "members (mand d a b) = members a \<inter> members b"
    and members_or: "members (mor d a b) = members a \<union> members b"
    and members_compl: "members (mcompl d a) = univ - members a"
    and members_univ: "members a \<subseteq> univ"
    and mempty_iff: "mempty a \<longleftrightarrow> members a = {}"
    and mintersects_iff: "mintersects a b \<longleftrightarrow> members a \<inter> members b \<noteq> {}"
begin

text \<open>Filtering with the complement of the banned set leaves exactly the other cpus.\<close>

lemma filter_banned: "members (mand d a (mcompl d' banned)) = members a - members banned"
  using members_univ [of a] by (auto simp: members_and members_compl)

lemma filter_banned_empty: "mempty (mand d a (mcompl d' banned)) \<longleftrightarrow> members a \<subseteq> members banned"
  by (simp add: mempty_iff filter_banned)

lemma accumulate:
  "members (foldl (\<lambda>m x. mor m m (f x)) m0 xs) = members m0 \<union> (\<Union>x \<in> set xs. members (f x))"
  by (induction xs arbitrary: m0) (auto simp: members_or)

end

interpretation cm: mask_algebra cpus_of "{..<NR_CPUS}" cpus_and cpus_or cpus_complement
  cpus_empty cpus_intersects
  by unfold_locales (simp_all add: cpus_of_le)

end
