(* ===== verification/GList.thy ===== *)
theory GList
  imports Prelude
begin

text \<open>
  The doubly linked lists of \<open>glib/glist.c\<close>, with their nodes in an explicit heap: the code relinks
  nodes in place, frees them during traversals and sorts by relinking. A pointer is an address, 0 is
  \<open>NULL\<close>. A result \<open>None\<close> means an access through \<open>NULL\<close> or a freed node, or a loop that does not
  end (on a cyclic list). The address that \<open>malloc\<close> returns is an argument of \<open>g_list_append\<close>; the
  temporary list head of \<open>g_list_sort_merge\<close> is the cell \<open>stk\<close> of the stack, which holds
  anything when the function is entered.

  \<open>glist h p ns\<close> says that the nodes \<open>ns\<close> form a well-linked list with head \<open>p\<close>. The lemmas show
  that each operation implements an operation on HOL lists, which is how the other theories use them.
\<close>

record 'd gnode =
  data :: 'd
  nxt :: addr
  prv :: addr

type_synonym 'd gheap = "addr \<Rightarrow> 'd gnode option"

abbreviation (input) NULL :: addr where
  "NULL \<equiv> 0"

text \<open>Stores through a pointer; they fault when the node does not exist.\<close>

definition set_nxt :: "addr \<Rightarrow> addr \<Rightarrow> 'd gheap \<Rightarrow> 'd gheap option" where
  "set_nxt p q h = (case h p of None \<Rightarrow> None | Some n \<Rightarrow> Some (h(p \<mapsto> n\<lparr>nxt := q\<rparr>)))"

definition set_prv :: "addr \<Rightarrow> addr \<Rightarrow> 'd gheap \<Rightarrow> 'd gheap option" where
  "set_prv p q h = (case h p of None \<Rightarrow> None | Some n \<Rightarrow> Some (h(p \<mapsto> n\<lparr>prv := q\<rparr>)))"


section \<open>Operations\<close>

partial_function (option) g_list_free :: "addr \<Rightarrow> 'd gheap \<Rightarrow> 'd gheap option" where
  "g_list_free l h =
     (if l = NULL then Some h
      else Option.bind (h l) (\<lambda>n. g_list_free (nxt n) (h(l := None))))"

text \<open>The loop of \<open>g_list_last\<close>, entered with a non-null pointer.\<close>

partial_function (option) last_loop :: "addr \<Rightarrow> 'd gheap \<Rightarrow> addr option" where
  "last_loop l h =
     Option.bind (h l) (\<lambda>n. if nxt n \<noteq> NULL then last_loop (nxt n) h else Some l)"

definition g_list_last :: "addr \<Rightarrow> 'd gheap \<Rightarrow> addr option" where
  "g_list_last l h = (if l \<noteq> NULL then last_loop l h else Some l)"

definition g_list_append :: "addr \<Rightarrow> addr \<Rightarrow> 'd \<Rightarrow> 'd gheap \<Rightarrow> (addr \<times> 'd gheap) option" where
  "g_list_append new_list l d h =
     (if l \<noteq> NULL
      then do {
        let h = h(new_list \<mapsto> \<lparr>data = d, nxt = NULL, prv = NULL\<rparr>);
        last \<leftarrow> g_list_last l h;
        h \<leftarrow> set_nxt last new_list h;
        h \<leftarrow> set_prv new_list last h;
        Some (l, h)
      }
      else Some (new_list, h(new_list \<mapsto> \<lparr>data = d, nxt = NULL, prv = NULL\<rparr>)))"

definition g_list_remove_link :: "addr \<Rightarrow> addr \<Rightarrow> 'd gheap \<Rightarrow> (addr \<times> 'd gheap) option" where
  "g_list_remove_link l link h =
     (if link = NULL then Some (l, h)
      else do {
        n \<leftarrow> h link;
        h \<leftarrow> (if prv n \<noteq> NULL then set_nxt (prv n) (nxt n) h else Some h);
        n \<leftarrow> h link;
        h \<leftarrow> (if nxt n \<noteq> NULL then set_prv (nxt n) (prv n) h else Some h);
        n \<leftarrow> h link;
        let l = (if link = l then nxt n else l);
        h \<leftarrow> set_nxt link NULL h;
        h \<leftarrow> set_prv link NULL h;
        Some (l, h)
      })"

text \<open>\<open>free(NULL)\<close> does nothing.\<close>

definition g_list_delete_link :: "addr \<Rightarrow> addr \<Rightarrow> 'd gheap \<Rightarrow> (addr \<times> 'd gheap) option" where
  "g_list_delete_link l link h = do {
     (l, h) \<leftarrow> g_list_remove_link l link h;
     Some (l, if link = NULL then h else h(link := None))
   }"

partial_function (option) first_loop :: "addr \<Rightarrow> 'd gheap \<Rightarrow> addr option" where
  "first_loop l h =
     Option.bind (h l) (\<lambda>n. if prv n \<noteq> NULL then first_loop (prv n) h else Some l)"

definition g_list_first :: "addr \<Rightarrow> 'd gheap \<Rightarrow> addr option" where
  "g_list_first l h = (if l \<noteq> NULL then first_loop l h else Some l)"

text \<open>The loop of \<open>g_list_sort_merge\<close>; the result is the state after the loop.\<close>

partial_function (option) merge_loop ::
  "('d \<Rightarrow> 'd \<Rightarrow> int) \<Rightarrow> addr \<Rightarrow> addr \<Rightarrow> addr \<Rightarrow> addr \<Rightarrow> 'd gheap
   \<Rightarrow> (addr \<times> addr \<times> addr \<times> 'd gheap) option" where
  "merge_loop cmp l1 l2 l lprev h =
     (if l1 \<noteq> NULL \<and> l2 \<noteq> NULL
      then do {
        n1 \<leftarrow> h l1;
        n2 \<leftarrow> h l2;
        if cmp (data n1) (data n2) \<le> 0
        then do {
          h \<leftarrow> set_nxt l l1 h;
          n1 \<leftarrow> h l1;
          h \<leftarrow> set_prv l1 lprev h;
          merge_loop cmp (nxt n1) l2 l1 l1 h
        }
        else do {
          h \<leftarrow> set_nxt l l2 h;
          n2 \<leftarrow> h l2;
          h \<leftarrow> set_prv l2 lprev h;
          merge_loop cmp l1 (nxt n2) l2 l2 h
        }
      }
      else Some (l1, l2, l, h))"

definition g_list_sort_merge ::
  "addr \<Rightarrow> ('d \<Rightarrow> 'd \<Rightarrow> int) \<Rightarrow> addr \<Rightarrow> addr \<Rightarrow> 'd gheap \<Rightarrow> (addr \<times> 'd gheap) option" where
  "g_list_sort_merge stk cmp l1 l2 h = do {
     (l1, l2, l, h) \<leftarrow> merge_loop cmp l1 l2 stk NULL h;
     let q = (if l1 \<noteq> NULL then l1 else l2);
     h \<leftarrow> set_nxt l q h;
     h \<leftarrow> set_prv q l h;
     n \<leftarrow> h stk;
     Some (nxt n, h)
   }"

text \<open>The loop that finds the middle; the result is \<open>l1\<close>.\<close>

partial_function (option) split_loop :: "addr \<Rightarrow> addr \<Rightarrow> 'd gheap \<Rightarrow> addr option" where
  "split_loop l1 l2 h = do {
     n2 \<leftarrow> h l2;
     let l2 = nxt n2;
     if l2 = NULL then Some l1
     else do {
       n2 \<leftarrow> h l2;
       let l2 = nxt n2;
       if l2 = NULL then Some l1
       else do { n1 \<leftarrow> h l1; split_loop (nxt n1) l2 h }
     }
   }"

partial_function (option) g_list_sort_real ::
  "addr \<Rightarrow> ('d \<Rightarrow> 'd \<Rightarrow> int) \<Rightarrow> addr \<Rightarrow> 'd gheap \<Rightarrow> (addr \<times> 'd gheap) option" where
  "g_list_sort_real stk cmp l h =
     (if l = NULL then Some (NULL, h)
      else do {
        n \<leftarrow> h l;
        if nxt n = NULL then Some (l, h)
        else do {
          l1 \<leftarrow> split_loop l (nxt n) h;
          n1 \<leftarrow> h l1;
          let l2 = nxt n1;
          h \<leftarrow> set_nxt l1 NULL h;
          (a, h) \<leftarrow> g_list_sort_real stk cmp l h;
          (b, h) \<leftarrow> g_list_sort_real stk cmp l2 h;
          g_list_sort_merge stk cmp a b h
        }
      })"

definition g_list_sort ::
  "addr \<Rightarrow> addr \<Rightarrow> ('d \<Rightarrow> 'd \<Rightarrow> int) \<Rightarrow> 'd gheap \<Rightarrow> (addr \<times> 'd gheap) option" where
  "g_list_sort stk l cmp h = g_list_sort_real stk cmp l h"

text \<open>\<open>guint\<close> counts wrap at \<open>2 ^ 32\<close>.\<close>

partial_function (option) length_loop :: "addr \<Rightarrow> u32 \<Rightarrow> 'd gheap \<Rightarrow> u32 option" where
  "length_loop l len h =
     (if l = NULL then Some len
      else Option.bind (h l) (\<lambda>n. length_loop (nxt n) (len + 1) h))"

definition g_list_length :: "addr \<Rightarrow> 'd gheap \<Rightarrow> u32 option" where
  "g_list_length l h = length_loop l 0 h"

text \<open>The handler may change the heap of nodes and the rest of the state.\<close>

partial_function (option) g_list_foreach ::
  "addr \<Rightarrow> ('d \<Rightarrow> 'd gheap \<times> 's \<Rightarrow> ('d gheap \<times> 's) option) \<Rightarrow> 'd gheap \<times> 's \<Rightarrow> ('d gheap \<times> 's) option" where
  "g_list_foreach l func st =
     (if l = NULL then Some st
      else do {
        n \<leftarrow> fst st l;
        st \<leftarrow> func (data n) st;
        g_list_foreach (nxt n) func st
      })"

definition g_list_free_full ::
  "addr \<Rightarrow> ('d \<Rightarrow> 'd gheap \<times> 's \<Rightarrow> ('d gheap \<times> 's) option) \<Rightarrow> 'd gheap \<times> 's \<Rightarrow> ('d gheap \<times> 's) option" where
  "g_list_free_full l free_func st = do {
     (h, s) \<leftarrow> g_list_foreach l free_func st;
     h \<leftarrow> g_list_free l h;
     Some (h, s)
   }"

partial_function (option) g_list_find_custom :: "addr \<Rightarrow> ('d \<Rightarrow> int) \<Rightarrow> 'd gheap \<Rightarrow> addr option" where
  "g_list_find_custom l func h =
     (if l = NULL then Some NULL
      else do {
        n \<leftarrow> h l;
        if func (data n) = 0 then Some l else g_list_find_custom (nxt n) func h
      })"

partial_function (option) remove_loop :: "addr \<Rightarrow> addr \<Rightarrow> 'd \<Rightarrow> 'd gheap \<Rightarrow> (addr \<times> 'd gheap) option" where
  "remove_loop l tmp d h =
     (if tmp = NULL then Some (l, h)
      else do {
        n \<leftarrow> h tmp;
        if data n \<noteq> d then remove_loop l (nxt n) d h
        else do {
          (l, h) \<leftarrow> g_list_remove_link l tmp h;
          h \<leftarrow> g_list_free tmp h;
          Some (l, h)
        }
      })"

definition g_list_remove :: "addr \<Rightarrow> 'd \<Rightarrow> 'd gheap \<Rightarrow> (addr \<times> 'd gheap) option" where
  "g_list_remove l d h = remove_loop l l d h"


section \<open>Well-linked segments\<close>

text \<open>\<open>dseg h D pr p ns q\<close>: the nodes \<open>ns\<close>, with data \<open>D\<close>, lead from \<open>p\<close> to \<open>q\<close>; the first has the
  back link \<open>pr\<close>.\<close>

primrec dseg :: "'d gheap \<Rightarrow> (addr \<Rightarrow> 'd) \<Rightarrow> addr \<Rightarrow> addr \<Rightarrow> addr list \<Rightarrow> addr \<Rightarrow> bool" where
  "dseg h D pr p [] q \<longleftrightarrow> p = q"
| "dseg h D pr p (a # as) q \<longleftrightarrow>
     p = a \<and> a \<noteq> NULL \<and> (\<exists>y. h a = Some \<lparr>data = D a, nxt = y, prv = pr\<rparr> \<and> dseg h D a y as q)"

definition glist :: "'d gheap \<Rightarrow> (addr \<Rightarrow> 'd) \<Rightarrow> addr \<Rightarrow> addr list \<Rightarrow> bool" where
  "glist h D p ns \<longleftrightarrow> dseg h D NULL p ns NULL \<and> distinct ns"

text \<open>Well linked but for the back link of the first node.\<close>

fun wseg :: "'d gheap \<Rightarrow> (addr \<Rightarrow> 'd) \<Rightarrow> addr \<Rightarrow> addr list \<Rightarrow> bool" where
  "wseg h D p [] \<longleftrightarrow> p = NULL"
| "wseg h D p (a # as) \<longleftrightarrow>
     p = a \<and> a \<noteq> NULL \<and> (\<exists>y pr. h a = Some \<lparr>data = D a, nxt = y, prv = pr\<rparr> \<and> dseg h D a y as NULL)"

lemma dseg_cong [frame]:
  "\<forall>a \<in> set ns. h' a = h a \<Longrightarrow> dseg h' D pr p ns q = dseg h D pr p ns q"
  by (induction ns arbitrary: pr p) auto

lemma dseg_upd [simp]: "a \<notin> set ns \<Longrightarrow> dseg (h(a := v)) D pr p ns q = dseg h D pr p ns q"
  by (rule dseg_cong) auto

lemma wseg_upd [simp]: "a \<notin> set ns \<Longrightarrow> wseg (h(a := v)) D p ns = wseg h D p ns"
  by (cases ns) auto

lemma wseg_cong [frame]: "\<forall>a \<in> set ns. h' a = h a \<Longrightarrow> wseg h' D p ns = wseg h D p ns"
  by (cases ns) (auto simp: dseg_cong [of _ h' h])

lemma wseg_dseg: "dseg h D pr p ns NULL \<Longrightarrow> wseg h D p ns"
  by (cases ns) auto

lemma dseg_NULL [simp]: "dseg h D pr NULL ns NULL \<longleftrightarrow> ns = []"
  by (cases ns) auto

lemma dseg_append:
  "dseg h D pr p (as @ bs) q \<longleftrightarrow>
   (\<exists>r. dseg h D pr p as r \<and> dseg h D (if as = [] then pr else last as) r bs q)"
  by (induction as arbitrary: pr p) auto

lemma dseg_not_NULL: "dseg h D pr p ns q \<Longrightarrow> NULL \<notin> set ns"
  by (induction ns arbitrary: pr p) auto

lemma dseg_dom: "dseg h D pr p ns q \<Longrightarrow> a \<in> set ns \<Longrightarrow> \<exists>n. h a = Some n \<and> data n = D a"
  by (induction ns arbitrary: pr p) auto

lemma set_nxt_Some [simp]: "h p = Some n \<Longrightarrow> set_nxt p q h = Some (h(p \<mapsto> n\<lparr>nxt := q\<rparr>))"
  by (simp add: set_nxt_def)

lemma set_prv_Some [simp]: "h p = Some n \<Longrightarrow> set_prv p q h = Some (h(p \<mapsto> n\<lparr>prv := q\<rparr>))"
  by (simp add: set_prv_def)


section \<open>Walking a list\<close>

lemma last_loop_ok:
  "dseg h D pr p ns NULL \<Longrightarrow> ns \<noteq> [] \<Longrightarrow> last_loop p h = Some (last ns)"
proof (induction ns arbitrary: pr p)
  case (Cons a as)
  then show ?case by (cases as) (auto simp: last_loop.simps [of a])
qed simp

lemma length_loop_ok:
  "dseg h D pr p ns NULL \<Longrightarrow> length_loop p k h = Some (k + of_nat (length ns))"
proof (induction ns arbitrary: pr p k)
  case (Cons a as)
  then show ?case by (auto simp: length_loop.simps [of a] add.assoc)
qed (simp add: length_loop.simps)

lemma find_custom_ok:
  "dseg h D pr p ns NULL \<Longrightarrow>
   g_list_find_custom p f h = Some (case find (\<lambda>a. f (D a) = 0) ns of None \<Rightarrow> NULL | Some a \<Rightarrow> a)"
proof (induction ns arbitrary: pr p)
  case (Cons a as)
  then show ?case by (auto simp: g_list_find_custom.simps [of a])
qed (simp add: g_list_find_custom.simps)

lemma first_loop_ok:
  "dseg h D NULL p (as @ [a]) q \<Longrightarrow> first_loop a h = Some (hd (as @ [a]))"
proof (induction as arbitrary: a q rule: rev_induct)
  case Nil
  then show ?case by (auto simp: first_loop.simps [of a])
next
  case (snoc b bs)
  then have "first_loop b h = Some (hd (bs @ [b]))"
    by (auto simp: dseg_append)
  moreover have "b \<noteq> NULL" "\<exists>n. h a = Some n \<and> prv n = b"
    using snoc.prems by (auto simp: dseg_append)
  ultimately show ?case by (cases bs) (auto simp: first_loop.simps [of a])
qed

lemma free_ok:
  "dseg h D pr p ns NULL \<Longrightarrow> distinct ns \<Longrightarrow> g_list_free p h = Some (h |` (- set ns))"
proof (induction ns arbitrary: pr p h)
  case (Cons a as)
  then obtain y where y: "h a = Some \<lparr>data = D a, nxt = y, prv = pr\<rparr>" "dseg (h(a := None)) D a y as NULL"
    by auto
  have "g_list_free p h = g_list_free y (h(a := None))"
    using Cons.prems y(1) by (simp add: g_list_free.simps [of a])
  also have "\<dots> = Some ((h(a := None)) |` (- set as))"
    by (rule Cons.IH [OF y(2)]) (use Cons.prems(2) in simp)
  also have "(h(a := None)) |` (- set as) = h |` (- set (a # as))"
    by (auto simp: fun_eq_iff restrict_map_def)
  finally show ?case .
qed (simp add: g_list_free.simps restrict_map_def)


section \<open>Append and delete\<close>

lemma append_ok:
  assumes "glist h D p ns" "h new = None" "new \<noteq> NULL" "D new = d"
  shows "\<exists>p' h'. g_list_append new p d h = Some (p', h') \<and> glist h' D p' (ns @ [new])
    \<and> (\<forall>a. a \<notin> set ns \<and> a \<noteq> new \<longrightarrow> h' a = h a)"
proof (cases ns rule: rev_cases)
  case Nil
  with assms show ?thesis by (auto simp: g_list_append_def glist_def)
next
  case (snoc as a)
  let ?h = "h(new \<mapsto> \<lparr>data = d, nxt = NULL, prv = NULL\<rparr>)"
  have ds: "dseg h D NULL p ns NULL" "distinct ns" using assms(1) by (simp_all add: glist_def)
  have new: "new \<notin> set ns" using assms(2) dseg_dom [OF ds(1)] by force
  then have "dseg ?h D NULL p ns NULL" using ds by simp
  then have "g_list_last p ?h = Some a"
    using last_loop_ok [of ?h D NULL p ns] snoc by (cases "p = NULL") (auto simp: g_list_last_def)
  moreover obtain pr r where a: "h a = Some \<lparr>data = D a, nxt = NULL, prv = pr\<rparr>"
    "a \<noteq> NULL" "dseg h D NULL p as r" "r = a" "pr = (if as = [] then NULL else last as)"
    using ds(1) snoc by (auto simp: dseg_append)
  moreover have "p \<noteq> NULL" using ds(1) snoc by (cases as) auto
  ultimately show ?thesis
    using snoc new ds(2) assms(3,4)
    by (auto simp: g_list_append_def glist_def dseg_append)
qed

lemma remove_link_ok:
  assumes "glist h D p (as @ a # bs)"
  shows "\<exists>p' h'. g_list_remove_link p a h = Some (p', h') \<and> glist h' D p' (as @ bs)
    \<and> h' a = Some \<lparr>data = D a, nxt = NULL, prv = NULL\<rparr>
    \<and> (\<forall>x. x \<notin> set (as @ a # bs) \<longrightarrow> h' x = h x)"
proof -
  have ds: "dseg h D NULL p (as @ a # bs) NULL" "distinct (as @ a # bs)"
    using assms by (simp_all add: glist_def)
  show ?thesis
  proof (cases as rule: rev_cases)
    case Nil
    with ds show ?thesis
      by (cases bs) (auto simp: g_list_remove_link_def glist_def)
  next
    case (snoc as' b)
    with ds show ?thesis
      by (cases bs; cases as') (auto simp: g_list_remove_link_def glist_def dseg_append)
  qed
qed

lemma delete_link_ok:
  assumes "glist h D p (as @ a # bs)"
  shows "\<exists>p' h'. g_list_delete_link p a h = Some (p', h') \<and> glist h' D p' (as @ bs)
    \<and> h' a = None \<and> (\<forall>x. x \<notin> set (as @ a # bs) \<longrightarrow> h' x = h x)"
proof -
  obtain p' h' where r: "g_list_remove_link p a h = Some (p', h')" "glist h' D p' (as @ bs)"
    "\<forall>x. x \<notin> set (as @ a # bs) \<longrightarrow> h' x = h x"
    using remove_link_ok [OF assms] by blast
  have "a \<notin> set (as @ bs)" "a \<noteq> NULL"
    using assms by (auto simp: glist_def dest: dseg_not_NULL)
  with r show ?thesis by (auto simp: g_list_delete_link_def glist_def)
qed

lemma remove_loop_ok:
  assumes "glist h D p (as @ cs)" "dseg h D pr q cs NULL" "d \<notin> D ` set as"
  shows "\<exists>p' h' a. remove_loop p q d h = Some (p', h') \<and> glist h' D p' (remove1 a (as @ cs))
    \<and> (d \<notin> D ` set cs \<and> a \<notin> set (as @ cs) \<and> h' = h
       \<or> find (\<lambda>a. D a = d) cs = Some a \<and> h' a = None \<and> (\<forall>x. x \<notin> set (as @ cs) \<longrightarrow> h' x = h x))"
  using assms
proof (induction cs arbitrary: as pr q)
  case Nil
  obtain a where "a \<notin> set as" using ex_new_if_finite [OF infinite_UNIV_nat] by blast
  with Nil show ?case by (intro exI [of _ p] exI [of _ h] exI [of _ a])
      (auto simp: remove_loop.simps [of _ NULL] remove1_idem)
next
  case (Cons c cs)
  from Cons.prems(2) obtain y where y: "q = c" "c \<noteq> NULL"
    "h c = Some \<lparr>data = D c, nxt = y, prv = pr\<rparr>" "dseg h D c y cs NULL" by auto
  show ?case
  proof (cases "D c = d")
    case True
    obtain p' h' where r: "g_list_remove_link p c h = Some (p', h')" "glist h' D p' (as @ cs)"
      "h' c = Some \<lparr>data = D c, nxt = NULL, prv = NULL\<rparr>" "\<forall>x. x \<notin> set (as @ c # cs) \<longrightarrow> h' x = h x"
      using remove_link_ok [OF Cons.prems(1)] by blast
    have c: "c \<notin> set (as @ cs)" using Cons.prems(1) by (auto simp: glist_def)
    then have "remove1 c (as @ c # cs) = as @ cs" by (simp add: remove1_append)
    moreover have "g_list_free c h' = Some (h'(c := None))"
      using r(3) y(2) by (simp add: g_list_free.simps [of c] g_list_free.simps [of 0])
    moreover have "glist (h'(c := None)) D p' (as @ cs)" using r(2) c by (simp add: glist_def)
    moreover have "remove_loop p q d h = Some (p', h'(c := None))"
      using True y r(1) calculation(2) by (simp add: remove_loop.simps [of p c])
    moreover have "find (\<lambda>a. D a = d) (c # cs) = Some c" using True by simp
    moreover have "\<forall>x. x \<notin> set (as @ c # cs) \<longrightarrow> (h'(c := None)) x = h x" using r(4) by simp
    ultimately have "remove_loop p q d h = Some (p', h'(c := None))
      \<and> glist (h'(c := None)) D p' (remove1 c (as @ c # cs))
      \<and> find (\<lambda>a. D a = d) (c # cs) = Some c \<and> (h'(c := None)) c = None
      \<and> (\<forall>x. x \<notin> set (as @ c # cs) \<longrightarrow> (h'(c := None)) x = h x)"
      by simp
    then show ?thesis by blast
  next
    case False
    have "remove_loop p q d h = remove_loop p y d h"
      using False y by (simp add: remove_loop.simps [of p c])
    then show ?thesis using Cons.IH [of "as @ [c]" c y] Cons.prems y False by auto
  qed
qed

lemma remove_ok:
  assumes "glist h D p ns" "D a = d" "find (\<lambda>a. D a = d) ns = Some a"
  shows "\<exists>p' h'. g_list_remove p d h = Some (p', h') \<and> glist h' D p' (remove1 a ns)
    \<and> h' a = None \<and> (\<forall>x. x \<notin> set ns \<longrightarrow> h' x = h x)"
proof -
  have "dseg h D NULL p ns NULL" using assms(1) by (simp add: glist_def)
  moreover have "d \<in> D ` set ns" using assms(3) by (auto simp: find_Some_iff)
  ultimately show ?thesis
    using remove_loop_ok [of h D p "[]" ns NULL p d] assms(1,3) by (auto simp: g_list_remove_def)
qed


section \<open>Sorting\<close>

text \<open>The function on lists that the relinking implements: a merge sort that splits in the middle
  and takes from the first part on ties.\<close>

fun merge_by :: "('a \<Rightarrow> 'a \<Rightarrow> bool) \<Rightarrow> 'a list \<Rightarrow> 'a list \<Rightarrow> 'a list" where
  "merge_by le [] ys = ys"
| "merge_by le xs [] = xs"
| "merge_by le (x # xs) (y # ys) =
     (if le x y then x # merge_by le xs (y # ys) else y # merge_by le (x # xs) ys)"

function sort_by :: "('a \<Rightarrow> 'a \<Rightarrow> bool) \<Rightarrow> 'a list \<Rightarrow> 'a list" where
  "sort_by le xs =
     (if length xs \<le> 1 then xs
      else let n = length xs div 2
           in merge_by le (sort_by le (take n xs)) (sort_by le (drop n xs)))"
  by pat_completeness auto
termination
  by (relation "measure (\<lambda>(_, xs). length xs)") auto

declare sort_by.simps [simp del]

lemma set_merge_by [simp]: "set (merge_by le xs ys) = set xs \<union> set ys"
  by (induction le xs ys rule: merge_by.induct) auto

lemma length_merge_by [simp]: "length (merge_by le xs ys) = length xs + length ys"
  by (induction le xs ys rule: merge_by.induct) auto

lemma mset_merge_by [simp]: "mset (merge_by le xs ys) = mset xs + mset ys"
  by (induction le xs ys rule: merge_by.induct) auto

lemma mset_sort_by [simp]: "mset (sort_by le xs) = mset xs"
proof (induction le xs rule: sort_by.induct)
  case (1 le xs)
  then show ?case
    by (subst sort_by.simps) (simp add: Let_def flip: mset_append)
qed

lemma length_sort_by [simp]: "length (sort_by le xs) = length xs"
  by (metis mset_sort_by size_mset)

lemma set_sort_by [simp]: "set (sort_by le xs) = set xs"
  by (metis mset_sort_by set_mset_mset)

lemma distinct_sort_by [simp]: "distinct (sort_by le xs) = distinct xs"
  by (metis mset_sort_by mset_eq_imp_distinct_iff)

lemma map_merge_by:
  "map f (merge_by (\<lambda>a b. le (f a) (f b)) xs ys) = merge_by le (map f xs) (map f ys)"
  by (induction "\<lambda>a b. le (f a) (f b)" xs ys rule: merge_by.induct) auto

lemma map_sort_by: "map f (sort_by (\<lambda>a b. le (f a) (f b)) xs) = sort_by le (map f xs)"
proof (induction "\<lambda>a b. le (f a) (f b)" xs rule: sort_by.induct)
  case (1 xs)
  then show ?case
    by (subst (1 2) sort_by.simps) (simp add: Let_def map_merge_by take_map drop_map)
qed

text \<open>The merge loop and the two stores after it.\<close>

definition merge_tail :: "addr \<times> addr \<times> addr \<times> 'd gheap \<Rightarrow> 'd gheap option" where
  "merge_tail = (\<lambda>(l1, l2, l, h). do {
     let q = (if l1 \<noteq> NULL then l1 else l2);
     h \<leftarrow> set_nxt l q h;
     set_prv q l h
   })"

lemma wseg_Cons_dom: "wseg h D p (a # as) \<Longrightarrow> p = a \<and> a \<noteq> NULL"
  by simp

lemma merge_loop_ok:
  assumes "wseg h D l1 as" "wseg h D l2 bs" "distinct (as @ bs)" "l \<notin> set (as @ bs)" "l \<noteq> NULL"
    and "h l = Some n" "as @ bs \<noteq> []" "as = [] \<or> bs = [] \<Longrightarrow> l = lprev"
    and "\<And>a b. le a b = (cmp (D a) (D b) \<le> 0)"
  shows "\<exists>h'. Option.bind (merge_loop cmp l1 l2 l lprev h) merge_tail = Some h'
    \<and> dseg h' D lprev (hd (merge_by le as bs)) (merge_by le as bs) NULL
    \<and> h' l = Some (n\<lparr>nxt := hd (merge_by le as bs)\<rparr>)
    \<and> (\<forall>x. x \<notin> set (l # as @ bs) \<longrightarrow> h' x = h x)"
  using assms
proof (induction le as bs arbitrary: h l1 l2 l lprev n rule: merge_by.induct)
  case (1 le bs)
  then show ?case
    by (cases bs) (auto simp: merge_loop.simps [of _ 0] merge_tail_def Let_def)
next
  case (2 le a as)
  then show ?case
    by (auto simp: merge_loop.simps [of _ _ 0] merge_tail_def Let_def)
next
  case (3 le a as b bs)
  show ?case
  proof (cases "le a b")
    case True
    obtain y pr where a: "h a = Some \<lparr>data = D a, nxt = y, prv = pr\<rparr>" "dseg h D a y as NULL" "l1 = a" "a \<noteq> NULL"
      using "3.prems"(1) by auto
    obtain y2 pr2 where b: "h b = Some \<lparr>data = D b, nxt = y2, prv = pr2\<rparr>" "l2 = b" "b \<noteq> NULL"
      using "3.prems"(2) by auto
    let ?h = "h(l \<mapsto> n\<lparr>nxt := a\<rparr>, a \<mapsto> \<lparr>data = D a, nxt = y, prv = lprev\<rparr>)"
    have d: "l \<noteq> a" "l \<notin> set as" "l \<notin> set (b # bs)" "a \<notin> set as" "a \<notin> set (b # bs)"
      using "3.prems"(3,4) by auto
    have "wseg ?h D y as" "wseg ?h D l2 (b # bs)"
      using wseg_dseg [OF a(2)] "3.prems"(2) d by (simp_all del: wseg.simps)
    then obtain h' where h': "Option.bind (merge_loop cmp y l2 a a ?h) merge_tail = Some h'"
      "dseg h' D a (hd (merge_by le as (b # bs))) (merge_by le as (b # bs)) NULL"
      "h' a = Some (\<lparr>data = D a, nxt = y, prv = lprev\<rparr>\<lparr>nxt := hd (merge_by le as (b # bs))\<rparr>)"
      "\<forall>x. x \<notin> set (a # as @ b # bs) \<longrightarrow> h' x = ?h x"
      using "3.IH"(1) [OF True, of ?h y l2 a _ a] "3.prems" a(4) d by fastforce
    have "merge_loop cmp l1 l2 l lprev h = merge_loop cmp y l2 a a ?h"
      using True a b d "3.prems"(6,9) by (simp add: merge_loop.simps [of _ a b])
    then show ?thesis using True h' d a(4) by auto
  next
    case False
    obtain y pr where a: "h b = Some \<lparr>data = D b, nxt = y, prv = pr\<rparr>" "dseg h D b y bs NULL" "l2 = b" "b \<noteq> NULL"
      using "3.prems"(2) by auto
    obtain y2 pr2 where b: "h a = Some \<lparr>data = D a, nxt = y2, prv = pr2\<rparr>" "l1 = a" "a \<noteq> NULL"
      using "3.prems"(1) by auto
    let ?h = "h(l \<mapsto> n\<lparr>nxt := b\<rparr>, b \<mapsto> \<lparr>data = D b, nxt = y, prv = lprev\<rparr>)"
    have d: "l \<noteq> b" "l \<notin> set bs" "l \<notin> set (a # as)" "b \<notin> set bs" "b \<notin> set (a # as)"
      using "3.prems"(3,4) by auto
    have "wseg ?h D y bs" "wseg ?h D l1 (a # as)"
      using wseg_dseg [OF a(2)] "3.prems"(1) d by (simp_all del: wseg.simps)
    then obtain h' where h': "Option.bind (merge_loop cmp l1 y b b ?h) merge_tail = Some h'"
      "dseg h' D b (hd (merge_by le (a # as) bs)) (merge_by le (a # as) bs) NULL"
      "h' b = Some (\<lparr>data = D b, nxt = y, prv = lprev\<rparr>\<lparr>nxt := hd (merge_by le (a # as) bs)\<rparr>)"
      "\<forall>x. x \<notin> set (b # (a # as) @ bs) \<longrightarrow> h' x = ?h x"
      using "3.IH"(2) [OF False, of ?h l1 y b _ b] "3.prems" a(4) d by fastforce
    have "merge_loop cmp l1 l2 l lprev h = merge_loop cmp l1 y b b ?h"
      using False a b d "3.prems"(6,9) by (simp add: merge_loop.simps [of _ a b])
    then show ?thesis using False h' d a(4) by auto
  qed
qed

lemma sort_merge_ok:
  assumes "wseg h D l1 as" "wseg h D l2 bs" "distinct (as @ bs)" "stk \<notin> set (as @ bs)" "stk \<noteq> NULL"
    and "h stk \<noteq> None" "as \<noteq> []" "bs \<noteq> []" "\<And>a b. le a b = (cmp (D a) (D b) \<le> 0)"
  shows "\<exists>h'. g_list_sort_merge stk cmp l1 l2 h = Some (hd (merge_by le as bs), h')
    \<and> dseg h' D NULL (hd (merge_by le as bs)) (merge_by le as bs) NULL
    \<and> h' stk \<noteq> None \<and> (\<forall>x. x \<notin> set (stk # as @ bs) \<longrightarrow> h' x = h x)"
proof -
  obtain n where n: "h stk = Some n" using assms(6) by blast
  obtain h' where h': "Option.bind (merge_loop cmp l1 l2 stk NULL h) merge_tail = Some h'"
    "dseg h' D NULL (hd (merge_by le as bs)) (merge_by le as bs) NULL"
    "h' stk = Some (n\<lparr>nxt := hd (merge_by le as bs)\<rparr>)"
    "\<forall>x. x \<notin> set (stk # as @ bs) \<longrightarrow> h' x = h x"
    using merge_loop_ok [OF assms(1-5) n] assms(7-9) by (metis append_is_Nil_conv)
  from h'(1) have "g_list_sort_merge stk cmp l1 l2 h
      = Option.bind (h' stk) (\<lambda>n. Some (nxt n, h'))"
    by (auto simp: g_list_sort_merge_def merge_tail_def Let_def split: bind_splits)
  with h' show ?thesis by auto
qed

lemma split_loop_ok:
  "dseg h D pr1 l1 xs NULL \<Longrightarrow> dseg h D pr2 l2 ys NULL \<Longrightarrow> ys \<noteq> [] \<Longrightarrow>
   (length ys - 1) div 2 < length xs \<Longrightarrow> split_loop l1 l2 h = Some (xs ! ((length ys - 1) div 2))"
proof (induction ys arbitrary: xs l1 l2 pr1 pr2 rule: length_induct)
  case (1 ys)
  then obtain y ys' where ys: "ys = y # ys'" by (cases ys) auto
  obtain x xs' where xs: "xs = x # xs'" using "1.prems"(4) by (cases xs) auto
  consider "ys' = []" | y2 where "ys' = [y2]" | y2 y3 ys'' where "ys' = y2 # y3 # ys''"
    by (metis list.exhaust)
  then show ?case
  proof cases
    case 3
    obtain n1 where n1: "h l1 = Some n1" "dseg h D x (nxt n1) xs' NULL"
      using "1.prems"(1) xs by auto
    have "dseg h D y2 y3 (y3 # ys'') NULL" using "1.prems"(2) ys 3 by auto
    then have "split_loop (nxt n1) y3 h = Some (xs' ! ((length (y3 # ys'') - 1) div 2))"
      using "1.IH" [rule_format, of "y3 # ys''" _ "nxt n1" xs' y2 y3] n1(2) ys 3 xs "1.prems"(4) by auto
    then show ?thesis using "1.prems"(1,2) ys 3 xs n1(1)
      by (auto simp: split_loop.simps [of _ l2] split_loop.simps [of _ y])
  qed (use 1 ys xs in \<open>auto simp: split_loop.simps [of _ y]\<close>)
qed

lemma wseg_iff: "wseg h D p ns \<longleftrightarrow> (\<exists>pr. dseg h D pr p ns NULL)"
  by (cases ns) auto

lemma cut_ok:
  assumes "dseg h D pr l (xs @ [a] @ ys) NULL" "distinct (xs @ [a] @ ys)"
  obtains n where "h a = Some n"
    "wseg (h(a \<mapsto> n\<lparr>nxt := NULL\<rparr>)) D l (xs @ [a])" "wseg (h(a \<mapsto> n\<lparr>nxt := NULL\<rparr>)) D (nxt n) ys"
proof -
  obtain y where y: "dseg h D pr l xs a" "a \<noteq> NULL" "dseg h D a y ys NULL"
    "h a = Some \<lparr>data = D a, nxt = y, prv = if xs = [] then pr else last xs\<rparr>"
    using assms(1) by (auto simp: dseg_append)
  let ?h = "h(a \<mapsto> \<lparr>data = D a, nxt = NULL, prv = if xs = [] then pr else last xs\<rparr>)"
  have "dseg ?h D pr l (xs @ [a]) NULL" "dseg ?h D a y ys NULL"
    using y assms(2) by (simp_all add: dseg_append)
  with y(4) that show thesis by (fastforce simp: wseg_iff)
qed

text \<open>The first half of the work: the list is cut in the middle.\<close>

lemma halves:
  assumes "1 < length ns"
  obtains xs a where "take (length ns div 2) ns = xs @ [a]" "ns = xs @ [a] @ drop (length ns div 2) ns"
    "a = ns ! (length ns div 2 - 1)" "length (xs @ [a]) < length ns" "length (drop (length ns div 2) ns) < length ns"
    "drop (length ns div 2) ns \<noteq> []"
proof
  let ?k = "length ns div 2"
  have k: "0 < ?k" "?k < length ns" using assms by auto
  show "take ?k ns = take (?k - 1) ns @ [ns ! (?k - 1)]" "ns = take (?k - 1) ns @ [ns ! (?k - 1)] @ drop ?k ns"
    using k take_Suc_conv_app_nth [of "?k - 1" ns] id_take_nth_drop [of "?k - 1" ns] by auto
  show "length (take (?k - 1) ns @ [ns ! (?k - 1)]) < length ns" "length (drop ?k ns) < length ns" "drop ?k ns \<noteq> []"
    using k by auto
qed (rule refl)

lemma split_middle:
  assumes "dseg h D pr l ns NULL" "1 < length ns"
  shows "\<exists>n0. h l = Some n0 \<and> l \<noteq> NULL \<and> nxt n0 \<noteq> NULL \<and> split_loop l (nxt n0) h = Some (ns ! (length ns div 2 - 1))"
proof -
  obtain z zs n0 where z: "ns = z # zs" "h l = Some n0" "l \<noteq> NULL" "dseg h D z (nxt n0) zs NULL" "zs \<noteq> []"
    using assms by (cases ns) auto
  have "nxt n0 \<noteq> NULL" using z(4,5) by (cases "nxt n0 = 0") auto
  moreover have "(length zs - 1) div 2 = length ns div 2 - 1" using z(1,5) by (cases zs) auto
  then have "split_loop l (nxt n0) h = Some (ns ! (length ns div 2 - 1))" using split_loop_ok [OF assms(1) z(4,5)] assms(2) by fastforce
  ultimately show ?thesis using z(2,3) by blast
qed

lemma sort_real_ok:
  assumes "wseg h D l ns" "distinct ns" "stk \<notin> set ns" "stk \<noteq> NULL" "h stk \<noteq> None"
    and "\<And>a b. le a b = (cmp (D a) (D b) \<le> 0)"
  shows "\<exists>l' h'. g_list_sort_real stk cmp l h = Some (l', h') \<and> wseg h' D l' (sort_by le ns)
    \<and> (if length ns \<le> 1 then h' = h \<and> l' = l else dseg h' D NULL l' (sort_by le ns) NULL)
    \<and> h' stk \<noteq> None \<and> (\<forall>x. x \<notin> set (stk # ns) \<longrightarrow> h' x = h x)"
  using assms(1-5)
proof (induction ns arbitrary: h l rule: length_induct)
  case (1 ns)
  show ?case
  proof (cases "length ns \<le> 1")
    case True
    then have "ns = [] \<or> (\<exists>a. ns = [a])" by (cases ns) auto
    with 1 show ?thesis by (auto simp: g_list_sort_real.simps [of _ _ l] sort_by.simps)
  next
    case False
    define ys where "ys = drop (length ns div 2) ns"
    obtain xs a where ns: "take (length ns div 2) ns = xs @ [a]" "ns = xs @ [a] @ ys" "a = ns ! (length ns div 2 - 1)"
      and len: "length (xs @ [a]) < length ns" "length ys < length ns" "ys \<noteq> []"
      using halves [of ns] False unfolding ys_def by auto
    obtain pr where pr: "dseg h D pr l ns NULL" using "1.prems"(1) wseg_iff by blast
    obtain n0 where z: "h l = Some n0" "l \<noteq> NULL" "nxt n0 \<noteq> NULL" "split_loop l (nxt n0) h = Some a"
      using split_middle [OF pr] False ns(3) by auto
    obtain n where n: "h a = Some n" "wseg (h(a \<mapsto> n\<lparr>nxt := NULL\<rparr>)) D l (xs @ [a])"
      "wseg (h(a \<mapsto> n\<lparr>nxt := NULL\<rparr>)) D (nxt n) ys"
      using cut_ok [of h D pr l xs a ys] pr "1.prems"(2) unfolding ns(2) [symmetric] by metis
    let ?h = "h(a \<mapsto> n\<lparr>nxt := NULL\<rparr>)"
    have d: "distinct (xs @ [a])" "distinct ys" "set (xs @ [a]) \<inter> set ys = {}" "stk \<notin> set (xs @ [a])" "stk \<notin> set ys"
      "set ns = set (xs @ [a]) \<union> set ys"
      using "1.prems"(2,3) ns(2) by (metis distinct_append append_assoc Un_iff set_append)+
    have s: "?h stk \<noteq> None" using d(4) "1.prems"(5) by simp
    obtain l1 h1 where r1: "g_list_sort_real stk cmp l ?h = Some (l1, h1)" "wseg h1 D l1 (sort_by le (xs @ [a]))"
      "h1 stk \<noteq> None" "\<forall>x. x \<notin> set (stk # xs @ [a]) \<longrightarrow> h1 x = ?h x"
      using "1.IH" [rule_format, OF len(1) n(2) d(1,4) "1.prems"(4) s] by blast
    have w2: "wseg h1 D (nxt n) ys" using n(3) r1(4) d(3,5) by (subst wseg_cong [of _ _ ?h]) auto
    obtain l2 h2 where r2: "g_list_sort_real stk cmp (nxt n) h1 = Some (l2, h2)" "wseg h2 D l2 (sort_by le ys)"
      "h2 stk \<noteq> None" "\<forall>x. x \<notin> set (stk # ys) \<longrightarrow> h2 x = h1 x"
      using "1.IH" [rule_format, OF len(2) w2 d(2,5) "1.prems"(4) r1(3)] by blast
    have w: "wseg h2 D l1 (sort_by le (xs @ [a]))" using r1(2) r2(4) d(3,4) by (subst wseg_cong [of _ _ h1]) auto
    have e: "sort_by le ns = merge_by le (sort_by le (xs @ [a])) (sort_by le ys)"
      using False ns(1) by (subst sort_by.simps) (simp add: Let_def ys_def)
    have s2: "distinct (sort_by le (xs @ [a]) @ sort_by le ys)" "stk \<notin> set (sort_by le (xs @ [a]) @ sort_by le ys)"
      using d by auto
    have ne: "sort_by le (xs @ [a]) \<noteq> []" "sort_by le ys \<noteq> []"
      using len(3) by (metis length_sort_by length_0_conv snoc_eq_iff_butlast)+
    obtain h3 where r3: "g_list_sort_merge stk cmp l1 l2 h2 = Some (hd (sort_by le ns), h3)"
      "dseg h3 D NULL (hd (sort_by le ns)) (sort_by le ns) NULL" "h3 stk \<noteq> None"
      "\<forall>x. x \<notin> set (stk # (xs @ [a]) @ ys) \<longrightarrow> h3 x = h2 x"
      using sort_merge_ok [OF w r2(2) s2 "1.prems"(4) r2(3) ne, of le cmp] assms(6) by (auto simp: e)
    have "g_list_sort_real stk cmp l h = Some (hd (sort_by le ns), h3)"
      using z n(1) r1(1) r2(1) r3(1) by (subst g_list_sort_real.simps) simp
    moreover have "\<forall>x. x \<notin> set (stk # ns) \<longrightarrow> h3 x = h x" using r1(4) r2(4) r3(4) d(6) by auto
    ultimately show ?thesis using r3(2,3) False by (auto intro: wseg_dseg)
  qed
qed

lemma g_list_sort_glist:
  assumes "glist h D p ns" "stk \<notin> set ns" "stk \<noteq> NULL" "h stk \<noteq> None"
  shows "\<exists>p' h'. g_list_sort stk p cmp h = Some (p', h')
    \<and> glist h' D p' (sort_by (\<lambda>a b. cmp (D a) (D b) \<le> 0) ns)
    \<and> (\<forall>x. x \<notin> set (stk # ns) \<longrightarrow> h' x = h x)"
proof -
  let ?le = "\<lambda>a b. cmp (D a) (D b) \<le> 0"
  have w: "wseg h D p ns" "distinct ns" using assms(1) by (auto simp: glist_def intro: wseg_dseg)
  obtain p' h' where r: "g_list_sort_real stk cmp p h = Some (p', h')"
    "if length ns \<le> 1 then h' = h \<and> p' = p else dseg h' D NULL p' (sort_by ?le ns) NULL"
    "\<forall>x. x \<notin> set (stk # ns) \<longrightarrow> h' x = h x"
    using sort_real_ok [OF w assms(2-4), of ?le cmp] by blast
  have "length ns \<le> 1 \<Longrightarrow> sort_by ?le ns = ns" by (subst sort_by.simps) simp
  then have "glist h' D p' (sort_by ?le ns)"
    using r(2) assms(1) w(2) by (auto simp: glist_def split: if_splits)
  with r(1,3) show ?thesis unfolding g_list_sort_def by blast
qed


section \<open>Orders that sorting respects\<close>

lemma merge_induct [case_names Nil1 Nil2 Cons]:
  assumes "\<And>ys. P [] ys" "\<And>x xs. P (x # xs) []"
    and "\<And>x xs y ys. P xs (y # ys) \<Longrightarrow> P (x # xs) ys \<Longrightarrow> P (x # xs) (y # ys)"
  shows "P xs ys"
proof (induction xs arbitrary: ys)
  case (Cons x xs)
  show ?case by (induction ys) (use assms(2,3) Cons in auto)
qed (rule assms(1))

lemma halves_induct [case_names short halves]:
  assumes "\<And>xs. length xs \<le> 1 \<Longrightarrow> P xs"
    and "\<And>xs. 1 < length xs \<Longrightarrow> P (take (length xs div 2) xs) \<Longrightarrow> P (drop (length xs div 2) xs) \<Longrightarrow> P xs"
  shows "P xs"
proof (induction xs rule: length_induct)
  case (1 xs)
  then show ?case using assms by (cases "length xs \<le> 1") auto
qed

lemma sort_by_short: "length xs \<le> 1 \<Longrightarrow> sort_by le xs = xs"
  by (subst sort_by.simps) simp

lemma sort_by_halves:
  "1 < length xs \<Longrightarrow> sort_by le xs = merge_by le (sort_by le (take (length xs div 2) xs))
     (sort_by le (drop (length xs div 2) xs))"
  by (subst sort_by.simps) (simp add: Let_def)

text \<open>What a comparison function has to satisfy for the merge sort to sort, and to keep equivalent
  elements in their order.\<close>

locale sort_order =
  fixes le :: "'a \<Rightarrow> 'a \<Rightarrow> bool"
  assumes total: "le x y \<or> le y x"
    and trans: "le x y \<Longrightarrow> le y z \<Longrightarrow> le x z"
begin

lemma sorted_merge_by:
  "sorted_wrt le xs \<Longrightarrow> sorted_wrt le ys \<Longrightarrow> sorted_wrt le (merge_by le xs ys)"
proof (induction xs ys rule: merge_induct)
  case (Cons x xs y ys)
  then show ?case using total [of x y] by (auto intro: trans)
qed auto

lemma sorted_sort_by: "sorted_wrt le (sort_by le xs)"
proof (induction xs rule: halves_induct)
  case (short xs)
  then show ?case by (cases xs) (auto simp: sort_by_short)
qed (simp add: sort_by_halves sorted_merge_by)

lemma filter_merge_by:
  "sorted_wrt le xs \<Longrightarrow> filter (\<lambda>y. le x y \<and> le y x) (merge_by le xs ys)
    = filter (\<lambda>y. le x y \<and> le y x) xs @ filter (\<lambda>y. le x y \<and> le y x) ys"
proof (induction xs ys rule: merge_induct)
  case (Cons z zs y ys)
  show ?case
  proof (cases "le z y")
    case False
    have "\<not> (le x w \<and> le w x)" if "le x y" "le y x" "w \<in> set (z # zs)" for w
    proof -
      have "le z w" using that(3) Cons.prems total [of z z] by auto
      with False that(1) show ?thesis using trans by blast
    qed
    then have "filter (\<lambda>y. le x y \<and> le y x) (z # zs) = []" if "le x y" "le y x"
      using that by (auto simp: filter_empty_conv simp del: filter.simps)
    with Cons False show ?thesis by auto
  qed (use Cons in auto)
qed auto

lemma stable_sort_by:
  "filter (\<lambda>y. le x y \<and> le y x) (sort_by le xs) = filter (\<lambda>y. le x y \<and> le y x) xs"
  by (induction xs rule: halves_induct)
    (simp_all add: sort_by_short sort_by_halves filter_merge_by sorted_sort_by flip: filter_append)

end


section \<open>Moving a node and walking a changing list\<close>

text \<open>The list part of \<open>migrate_irq\<close> (classify.c): unlink the first node that matches, then append a
  new node with its data to the other list. \<open>malloc\<close> may return the address just freed.\<close>

definition migrate_links ::
  "('d gheap \<Rightarrow> addr) \<Rightarrow> ('d \<Rightarrow> int) \<Rightarrow> addr \<Rightarrow> addr \<Rightarrow> 'd gheap \<Rightarrow> (addr \<times> addr \<times> 'd gheap) option" where
  "migrate_links malloc cmp from to h = do {
     entry \<leftarrow> g_list_find_custom from cmp h;
     if entry = NULL then Some (from, to, h)
     else do {
       n \<leftarrow> h entry;
       (from, h) \<leftarrow> g_list_delete_link from entry h;
       (to, h) \<leftarrow> g_list_append (malloc h) to (data n) h;
       Some (from, to, h)
     }
   }"

lemma dseg_data_cong:
  "\<forall>a \<in> set ns. D' a = D a \<Longrightarrow> dseg h D' pr p ns q = dseg h D pr p ns q"
  by (induction ns arbitrary: pr p) auto

lemma glist_cong: "\<forall>a \<in> set ns. h' a = h a \<and> D' a = D a \<Longrightarrow> glist h D p ns \<Longrightarrow> glist h' D' p ns"
proof -
  have "\<forall>a \<in> set ns. h' a = h a \<and> D' a = D a \<Longrightarrow> dseg h' D' pr p ns q = dseg h D pr p ns q" for pr p q
    by (induction ns arbitrary: pr p) auto
  then show "\<forall>a \<in> set ns. h' a = h a \<and> D' a = D a \<Longrightarrow> glist h D p ns \<Longrightarrow> glist h' D' p ns"
    by (simp add: glist_def)
qed

text \<open>\<open>malloc\<close> succeeds, with an address that is not in use, as long as finitely many addresses are.\<close>

definition allocates :: "('d gheap \<Rightarrow> addr) \<Rightarrow> bool" where
  "allocates malloc \<longleftrightarrow> (\<forall>h. finite (dom h) \<longrightarrow> malloc h \<noteq> NULL \<and> h (malloc h) = None)"

lemma finite_dom_change:
  assumes "finite (dom h)" "\<forall>x. x \<notin> set xs \<longrightarrow> h' x = h x"
  shows "finite (dom h')"
proof -
  have "dom h' \<subseteq> dom h \<union> set xs" using assms(2) by (metis Un_iff domIff subsetI)
  with assms(1) show ?thesis by (meson finite_UnI finite_set finite_subset)
qed

lemma migrate_links_ok:
  assumes "glist h D from (as @ a # bs)" "glist h D to cs" "set (as @ a # bs) \<inter> set cs = {}"
    and "cmp (D a) = 0" "\<forall>x \<in> set as. cmp (D x) \<noteq> 0"
    and fin: "finite (dom h)" and malloc: "allocates malloc"
  shows "\<exists>from' to' h' new. migrate_links malloc cmp from to h = Some (from', to', h')
    \<and> new \<notin> set (as @ bs) \<union> set cs
    \<and> glist h' (D(new := D a)) from' (as @ bs) \<and> glist h' (D(new := D a)) to' (cs @ [new])
    \<and> finite (dom h') \<and> (\<forall>x. x \<notin> set (new # as @ a # bs @ cs) \<longrightarrow> h' x = h x)"
proof -
  have ds: "dseg h D NULL from (as @ a # bs) NULL" using assms(1) by (simp add: glist_def)
  have "find (\<lambda>x. cmp (D x) = 0) (as @ a # bs) = Some a"
    using assms(4,5) by (induction as) auto
  then have e: "g_list_find_custom from cmp h = Some a" using find_custom_ok [OF ds] by simp
  obtain n where n: "h a = Some n" "data n = D a" using dseg_dom [OF ds] by force
  have a0: "a \<noteq> NULL" using dseg_not_NULL [OF ds] by auto
  obtain p1 h1 where d: "g_list_delete_link from a h = Some (p1, h1)" "glist h1 D p1 (as @ bs)"
    "h1 a = None" "\<forall>x. x \<notin> set (as @ a # bs) \<longrightarrow> h1 x = h x"
    using delete_link_ok [OF assms(1)] by blast
  let ?new = "malloc h1" and ?D = "D(malloc h1 := D a)"
  have fresh: "?new \<noteq> NULL" "h1 ?new = None"
    using malloc finite_dom_change [OF fin d(4)] by (auto simp: allocates_def)
  have to1: "glist h1 D to cs" by (rule glist_cong [OF _ assms(2)]) (use d(4) assms(3) in auto)
  have new: "?new \<notin> set (as @ bs)" "?new \<notin> set cs"
    using d(2) to1 fresh(2) by (auto simp: glist_def dest: dseg_dom)
  have "glist h1 ?D to cs" by (rule glist_cong [OF _ to1]) (use new in auto)
  then obtain p2 h2 where ap: "g_list_append ?new to (D a) h1 = Some (p2, h2)"
    "glist h2 ?D p2 (cs @ [?new])" "\<forall>x. x \<notin> set cs \<and> x \<noteq> ?new \<longrightarrow> h2 x = h1 x"
    using append_ok [of h1 ?D to cs ?new "D a"] fresh by auto
  have "glist h2 ?D p1 (as @ bs)"
    by (rule glist_cong [OF _ d(2)]) (use ap(3) new assms(3) in auto)
  moreover have "migrate_links malloc cmp from to h = Some (p1, p2, h2)"
    using e n d(1) ap(1) a0 by (simp add: migrate_links_def)
  moreover have "\<forall>x. x \<notin> set (?new # as @ a # bs @ cs) \<longrightarrow> h2 x = h x"
    using ap(3) d(4) by auto
  moreover from finite_dom_change [OF fin this] have "finite (dom h2)" .
  ultimately show ?thesis using ap(2) new by blast
qed

lemma migrate_links_absent:
  "glist h D from ns \<Longrightarrow> \<forall>a \<in> set ns. cmp (D a) \<noteq> 0 \<Longrightarrow>
   migrate_links malloc cmp from to h = Some (from, to, h)"
proof -
  assume "glist h D from ns" "\<forall>a \<in> set ns. cmp (D a) \<noteq> 0"
  then have "g_list_find_custom from cmp h = Some NULL"
    using find_custom_ok [of h D NULL "from" ns cmp] find_None_iff [of "\<lambda>a. cmp (D a) = 0" ns]
    by (simp add: glist_def)
  then show ?thesis by (simp add: migrate_links_def)
qed

text \<open>
  A walk visits the elements the list had when it began, provided each call of the handler leaves
  the part not yet visited linked. \<open>R as st t\<close> relates the concrete state \<open>st\<close>, with the nodes \<open>as\<close>
  still to visit, to an abstract state \<open>t\<close>.
\<close>

locale walk =
  fixes R :: "addr list \<Rightarrow> 'd gheap \<times> 's \<Rightarrow> 't \<Rightarrow> bool" and D :: "addr \<Rightarrow> 'd"
    and func :: "'d \<Rightarrow> 'd gheap \<times> 's \<Rightarrow> ('d gheap \<times> 's) option" and g :: "'d \<Rightarrow> 't \<Rightarrow> 't option"
  assumes linked: "R as st t \<Longrightarrow> \<exists>p. wseg (fst st) D p as"
    and step: "R (a # as) st t \<Longrightarrow> rel_option (R as) (func (D a) st) (g (D a) t)"
begin

lemma foreach_sim:
  "R as st t \<Longrightarrow> wseg (fst st) D p as \<Longrightarrow>
   rel_option (R []) (g_list_foreach p func st) (for_each g (map D as) t)"
proof (induction as arbitrary: p st t)
  case Nil
  then show ?case by (simp add: g_list_foreach.simps)
next
  case (Cons a as)
  from Cons.prems(2) obtain y pr where y: "p = a" "a \<noteq> NULL"
    "fst st a = Some \<lparr>data = D a, nxt = y, prv = pr\<rparr>" "dseg (fst st) D a y as NULL" by auto
  from step [OF Cons.prems(1)] show ?case
  proof (cases rule: option.rel_cases)
    case None
    then show ?thesis using y by (simp add: g_list_foreach.simps [of a])
  next
    case (Some st' t')
    obtain q where q: "wseg (fst st') D q as" using linked [OF Some(3)] by blast
    then have "q = y" using y(4) by (cases as) auto
    then show ?thesis using q Some y Cons.IH
      by (simp add: g_list_foreach.simps [of a])
  qed
qed

end

text \<open>
  The walk of \<open>for_each_irq\<close> with a handler that moves the node it is called on, when \<open>P\<close> holds of
  its data, to another list (\<open>move_candidate_irqs\<close>, \<open>force_irq_migration\<close>, \<open>place_irq_in_node\<close>).
  \<open>key\<close> is the irq number by which \<open>migrate_irq\<close> searches.
\<close>

definition relink_if ::
  "('d gheap \<Rightarrow> addr) \<Rightarrow> ('d \<Rightarrow> bool) \<Rightarrow> ('d \<Rightarrow> int) \<Rightarrow> 'd \<Rightarrow> 'd gheap \<times> addr \<times> addr
   \<Rightarrow> ('d gheap \<times> addr \<times> addr) option" where
  "relink_if malloc P key d = (\<lambda>(h, f, t).
     if P d then do {
       (f, t, h) \<leftarrow> migrate_links malloc (\<lambda>x. key d - key x) f t h;
       Some (h, f, t)
     }
     else Some (h, f, t))"

definition move_if :: "('d \<Rightarrow> bool) \<Rightarrow> 'd \<Rightarrow> 'd list \<times> 'd list \<Rightarrow> ('d list \<times> 'd list) option" where
  "move_if P d = (\<lambda>(xs, ys). Some (if P d then (remove1 d xs, ys @ [d]) else (xs, ys)))"

definition lists_rel ::
  "('d gheap \<Rightarrow> addr) \<Rightarrow> ('d \<Rightarrow> int) \<Rightarrow> (addr \<Rightarrow> 'd) \<Rightarrow> addr list \<Rightarrow> 'd gheap \<times> addr \<times> addr
   \<Rightarrow> 'd list \<times> 'd list \<Rightarrow> bool" where
  "lists_rel malloc key D as = (\<lambda>(h, f, t) (xs, ys). \<exists>D' pre cs.
     allocates malloc \<and> finite (dom h) \<and> (\<forall>a \<in> set as. D' a = D a)
     \<and> glist h D' f (pre @ as) \<and> glist h D' t cs \<and> set (pre @ as) \<inter> set cs = {}
     \<and> xs = map D' (pre @ as) \<and> ys = map D' cs \<and> distinct (map key xs))"

lemma lists_rel_step:
  assumes "lists_rel malloc key D (a # as) st t"
  shows "rel_option (lists_rel malloc key D as) (relink_if malloc P key (D a) st) (move_if P (D a) t)"
proof -
  obtain h f tt where st: "st = (h, f, tt)" by (cases st)
  obtain D' pre cs where al: "allocates malloc" "finite (dom h)" and r: "\<forall>b \<in> set (a # as). D' b = D b"
    "glist h D' f (pre @ a # as)" "glist h D' tt cs" "set (pre @ a # as) \<inter> set cs = {}"
    "distinct (map (key \<circ> D') (pre @ a # as))" "t = (map D' (pre @ a # as), map D' cs)"
    using assms by (auto simp: lists_rel_def st)
  show ?thesis
  proof (cases "P (D a)")
    case True
    have k: "\<forall>x \<in> set pre. key (D a) - key (D' x) \<noteq> 0" "key (D a) - key (D' a) = 0"
      using r(1,5) by auto
    obtain f' t' h' new where m: "migrate_links malloc (\<lambda>x. key (D a) - key x) f tt h = Some (f', t', h')"
      "new \<notin> set (pre @ as) \<union> set cs" "glist h' (D'(new := D' a)) f' (pre @ as)"
      "glist h' (D'(new := D' a)) t' (cs @ [new])" "finite (dom h')"
      using migrate_links_ok [OF r(2,3,4) k(2,1) al(2,1)] by blast
    have "D' a \<notin> D' ` set pre" using r(5) by auto
    then have "remove1 (D' a) (map D' (pre @ a # as)) = map D' (pre @ as)"
      by (simp add: remove1_append)
    then have "move_if P (D a) t = Some (map D' (pre @ as), map D' cs @ [D a])"
      using True r(1,6) by (simp add: move_if_def)
    moreover have "lists_rel malloc key D as (h', f', t') (map D' (pre @ as), map D' cs @ [D a])"
      unfolding lists_rel_def prod.case
      by (rule exI [of _ "D'(new := D' a)"], rule exI [of _ pre], rule exI [of _ "cs @ [new]"])
        (use m r al(1) in \<open>auto simp: fun_upd_def\<close>)
    ultimately show ?thesis using True m(1) by (simp add: relink_if_def st)
  next
    case False
    have "lists_rel malloc key D as st t"
      unfolding lists_rel_def st r(6) prod.case
      by (rule exI [of _ D'], rule exI [of _ "pre @ [a]"], rule exI [of _ cs]) (use r al in auto)
    with False show ?thesis by (cases t) (simp add: relink_if_def move_if_def st)
  qed
qed

lemma lists_rel_linked:
  assumes "lists_rel malloc key D as st t"
  shows "\<exists>p. wseg (fst st) D p as"
proof -
  obtain D' pre f where r: "\<forall>a \<in> set as. D' a = D a" "glist (fst st) D' f (pre @ as)"
    using assms by (cases st; cases t) (auto simp: lists_rel_def)
  then obtain p pr where "dseg (fst st) D' pr p as NULL" by (auto simp: glist_def dseg_append)
  then have "wseg (fst st) D' p as" by (rule wseg_dseg)
  moreover have "wseg h D' p as = wseg h D p as" for h p
    using r(1) by (metis (no_types, lifting) wseg_iff dseg_data_cong)
  ultimately show ?thesis by blast
qed

interpretation wk: walk "lists_rel malloc key D" D "relink_if malloc P key" "move_if P"
  for malloc key D P
  by unfold_locales (rule lists_rel_linked, assumption, rule lists_rel_step)

lemma move_if_walk:
  "distinct (pre @ xs) \<Longrightarrow> for_each (move_if P) xs (pre @ xs, ys)
   = Some (pre @ filter (\<lambda>d. \<not> P d) xs, ys @ filter P xs)"
proof (induction xs arbitrary: pre ys)
  case (Cons x xs)
  show ?case
  proof (cases "P x")
    case True
    then show ?thesis using Cons by (simp add: move_if_def remove1_append)
  next
    case False
    then show ?thesis using Cons.IH [of "pre @ [x]" ys] Cons.prems by (simp add: move_if_def)
  qed
qed simp

end
