(* ===== verification/State.thy ===== *)
theory State
  imports Cpumask GList
begin

text \<open>
  The state of the balancer (\<open>types.h\<close>, \<open>irqbalance.h\<close> and the static variables of the C files) and
  the operations all components share: dereferencing, \<open>for_each_irq\<close>, \<open>for_each_object\<close>,
  \<open>get_irq_info\<close>, \<open>migrate_irq\<close> and \<open>sort_irq_list\<close> of \<open>classify.c\<close>.

  Objects of the topology tree and irq descriptors live in two stores, maps from addresses; pointers
  are addresses, \<open>NULL\<close> is 0 and never mapped. A \<open>GList\<close> of pointers is the list of the pointers: the
  theory \<open>GList\<close> shows that the linked lists implement the list operations used here. An operation
  returns \<open>None\<close> when it dereferences a pointer that is not valid.

  Fields of \<open>struct irq_info\<close> that clash with those of \<open>struct topo_obj\<close> or with keywords carry the
  prefix \<open>i_\<close>. The integers \<open>powersave_mode\<close>, \<open>moved\<close>, \<open>warned\<close> are only ever 0 or 1: \<open>bool\<close>.
\<close>

section \<open>Data (types.h)\<close>

definition BALANCE_NONE :: int where [simp]: "BALANCE_NONE = 0"
definition BALANCE_PACKAGE :: int where [simp]: "BALANCE_PACKAGE = 1"
definition BALANCE_CACHE :: int where [simp]: "BALANCE_CACHE = 2"
definition BALANCE_CORE :: int where [simp]: "BALANCE_CORE = 3"

definition IRQ_NODEF :: int where "IRQ_NODEF = -1"
definition IRQ_OTHER :: int where "IRQ_OTHER = 0"
definition IRQ_LEGACY :: int where "IRQ_LEGACY = 1"
definition IRQ_SCSI :: int where "IRQ_SCSI = 2"
definition IRQ_VIDEO :: int where "IRQ_VIDEO = 3"
definition IRQ_ETH :: int where "IRQ_ETH = 4"
definition IRQ_GBETH :: int where "IRQ_GBETH = 5"
definition IRQ_10GBETH :: int where "IRQ_10GBETH = 6"
definition IRQ_VIRT_EVENT :: int where "IRQ_VIRT_EVENT = 7"

definition IRQ_TYPE_LEGACY :: int where "IRQ_TYPE_LEGACY = 0"
definition IRQ_TYPE_MSI :: int where "IRQ_TYPE_MSI = 1"
definition IRQ_TYPE_MSIX :: int where "IRQ_TYPE_MSIX = 2"
definition IRQ_TYPE_VIRT_EVENT :: int where "IRQ_TYPE_VIRT_EVENT = 3"

definition IRQ_FLAG_BANNED :: int where "IRQ_FLAG_BANNED = 1"

datatype obj_type_e = OBJ_TYPE_CPU | OBJ_TYPE_CACHE | OBJ_TYPE_PACKAGE | OBJ_TYPE_NODE

datatype hp_e = HINT_POLICY_IGNORE | HINT_POLICY_SUBSET | HINT_POLICY_EXACT

text \<open>The targets of the pointer \<open>obj_type_list\<close>; \<open>None\<close> is \<open>NULL\<close>.\<close>

datatype list_ref = NUMA_NODES | PACKAGES | CACHE_DOMAINS | CPUS

record topo_obj =
  load :: u64
  last_load :: u64
  irq_count :: u64
  obj_type :: obj_type_e
  number :: int
  powersave_mode :: bool
  mask :: cpumask_t
  interrupts :: "addr list"
  parent :: addr
  children :: "addr list"
  obj_type_list :: "list_ref option"

record irq_info =
  irq :: int
  i_class :: int
  i_type :: int
  level :: int
  flags :: int
  numa_node :: addr
  cpumask :: cpumask_t
  affinity_hint :: cpumask_t
  hint_policy :: hp_e
  i_irq_count :: u64
  last_irq_count :: u64
  i_load :: u64
  moved :: bool
  assigned_obj :: addr
  warned :: bool
  i_name :: "string option"

text \<open>
  The global variables. \<open>smp_affinity_log\<close> is not a variable of the program: it records the writes to
  \<open>/proc/irq/N/smp_affinity\<close>, the only effect of the balancer on the system, in order.
\<close>

record sys =
  objs :: "addr \<Rightarrow> topo_obj option"
  irqs :: "addr \<Rightarrow> irq_info option"
  numa_nodes :: "addr list"
  packages :: "addr list"
  cache_domains :: "addr list"
  cpus :: "addr list"
  interrupts_db :: "addr list"
  banned_irqs :: "addr list"
  cl_banned_irqs :: "addr list"
  cl_banned_modules :: "string list"
  banned_irq_names :: "(string \<times> bool) list"
  rebalance_irq_list :: "addr list"
  banned_cpus :: cpumask_t
  unbanned_cpus :: cpumask_t
  numa_avail :: bool
  debug_mode :: bool
  one_shot_mode :: bool
  need_rescan :: bool
  global_hint_policy :: hp_e
  power_thresh :: u64
  deepest_cache :: u64
  cycle_count :: u64
  package_count :: nat
  cache_domain_count :: nat
  core_count :: nat
  cpu_possible_map :: cpumask_t
  proc_int_has_msi :: bool
  msi_found_in_sysfs :: bool
  smp_affinity_log :: "(int \<times> string) list"

type_synonym 'a sys_op = "sys \<Rightarrow> 'a option"


section \<open>Access to the stores\<close>

definition upd_obj :: "addr \<Rightarrow> (topo_obj \<Rightarrow> topo_obj) \<Rightarrow> sys \<Rightarrow> sys option" where
  "upd_obj a f s = (case objs s a of None \<Rightarrow> None | Some d \<Rightarrow> Some (s\<lparr>objs := (objs s)(a \<mapsto> f d)\<rparr>))"

definition upd_irq :: "addr \<Rightarrow> (irq_info \<Rightarrow> irq_info) \<Rightarrow> sys \<Rightarrow> sys option" where
  "upd_irq a f s = (case irqs s a of None \<Rightarrow> None | Some i \<Rightarrow> Some (s\<lparr>irqs := (irqs s)(a \<mapsto> f i)\<rparr>))"

text \<open>The addresses of list variables, the \<open>GList **\<close> arguments.\<close>

datatype list_loc = Rebalance | ObjIrqs addr

definition get_list :: "list_loc \<Rightarrow> sys \<Rightarrow> addr list option" where
  "get_list l s = (case l of
     Rebalance \<Rightarrow> Some (rebalance_irq_list s)
   | ObjIrqs a \<Rightarrow> map_option interrupts (objs s a))"

definition put_list :: "list_loc \<Rightarrow> addr list \<Rightarrow> sys \<Rightarrow> sys option" where
  "put_list l xs s = (case l of
     Rebalance \<Rightarrow> Some (s\<lparr>rebalance_irq_list := xs\<rparr>)
   | ObjIrqs a \<Rightarrow> upd_obj a (\<lambda>d. d\<lparr>interrupts := xs\<rparr>) s)"

text \<open>\<open>g_list_find_custom\<close> on a list of pointers; the handler dereferences the element.\<close>

primrec find_custom :: "(addr \<Rightarrow> int option) \<Rightarrow> addr list \<Rightarrow> addr option option" where
  "find_custom f [] = Some None"
| "find_custom f (a # as) = (case f a of None \<Rightarrow> None
     | Some c \<Rightarrow> if c = 0 then Some (Some a) else find_custom f as)"

text \<open>\<open>g_list_length\<close> as the \<open>guint\<close> it returns.\<close>

definition glength :: "addr list \<Rightarrow> u32" where
  "glength xs = of_nat (length xs)"


section \<open>Shared operations (classify.c)\<close>

text \<open>\<open>compare_ints\<close>: the difference of two C \<open>int\<close>s, which wraps, is 0 exactly when they are equal.\<close>

definition compare_ints :: "sys \<Rightarrow> int \<Rightarrow> addr \<Rightarrow> int option" where
  "compare_ints s find_irq a =
     map_option (\<lambda>i. sint (of_int (irq i) - of_int find_irq :: c_int)) (irqs s a)"

definition for_each_irq :: "addr list \<Rightarrow> (addr \<Rightarrow> sys \<Rightarrow> sys option) \<Rightarrow> sys \<Rightarrow> sys option" where
  "for_each_irq xs cb s = for_each cb (if xs \<noteq> [] then xs else interrupts_db s) s"

text \<open>The same traversal for a handler that also updates what its \<open>data\<close> argument points to.\<close>

definition for_each_irq_with ::
  "addr list \<Rightarrow> (addr \<Rightarrow> 'a \<times> sys \<Rightarrow> ('a \<times> sys) option) \<Rightarrow> 'a \<times> sys \<Rightarrow> ('a \<times> sys) option" where
  "for_each_irq_with xs cb st = for_each cb (if xs \<noteq> [] then xs else interrupts_db (snd st)) st"

definition for_each_object :: "addr list \<Rightarrow> (addr \<Rightarrow> 's \<Rightarrow> 's option) \<Rightarrow> 's \<Rightarrow> 's option" where
  "for_each_object xs cb s = for_each cb xs s"

definition get_irq_info :: "int \<Rightarrow> sys \<Rightarrow> addr option option" where
  "get_irq_info n s = do {
     entry \<leftarrow> find_custom (compare_ints s n) (interrupts_db s);
     case entry of Some a \<Rightarrow> Some (Some a)
     | None \<Rightarrow> find_custom (compare_ints s n) (banned_irqs s)
   }"

definition migrate_irq :: "list_loc \<Rightarrow> list_loc \<Rightarrow> addr \<Rightarrow> sys \<Rightarrow> sys option" where
  "migrate_irq from_loc to_loc info s = do {
     i \<leftarrow> irqs s info;
     from_list \<leftarrow> get_list from_loc s;
     entry \<leftarrow> find_custom (compare_ints s (irq i)) from_list;
     case entry of
       None \<Rightarrow> Some s
     | Some tmp \<Rightarrow> do {
         s \<leftarrow> put_list from_loc (remove1 tmp from_list) s;
         to_list \<leftarrow> get_list to_loc s;
         s \<leftarrow> put_list to_loc (to_list @ [tmp]) s;
         upd_irq info (\<lambda>i. i\<lparr>moved := True\<rparr>) s
       }
   }"

text \<open>\<open>sort_irqs\<close> compares addresses last; \<open>irq_key\<close> pairs an address with what it points to.\<close>

definition sort_irqs :: "addr \<times> irq_info \<Rightarrow> addr \<times> irq_info \<Rightarrow> int" where
  "sort_irqs = (\<lambda>(pa, a) (pb, b).
     if i_class a < i_class b then 1
     else if i_class b < i_class a then -1
     else if i_load a < i_load b then 1
     else if i_load b < i_load a then -1
     else if pa < pb then 1
     else -1)"

text \<open>Sorting compares, and so dereferences, only lists of at least two elements.\<close>

definition deref_irqs :: "addr list \<Rightarrow> sys \<Rightarrow> (addr \<times> irq_info) list option" where
  "deref_irqs xs s = those (map (\<lambda>a. map_option (Pair a) (irqs s a)) xs)"

definition sort_irq_list :: "list_loc \<Rightarrow> sys \<Rightarrow> sys option" where
  "sort_irq_list loc s = do {
     xs \<leftarrow> get_list loc s;
     if length xs \<le> 1 then Some s
     else do {
       ys \<leftarrow> deref_irqs xs s;
       put_list loc (map fst (sort_by (\<lambda>a b. sort_irqs a b \<le> 0) ys)) s
     }
   }"


section \<open>The order of sort_irqs\<close>

interpretation si: sort_order "\<lambda>a b. sort_irqs a b \<le> 0"
proof
  show "sort_irqs x y \<le> 0 \<or> sort_irqs y x \<le> 0" for x y
    by (cases x; cases y) (auto simp: sort_irqs_def)
  show "sort_irqs x y \<le> 0 \<Longrightarrow> sort_irqs y z \<le> 0 \<Longrightarrow> sort_irqs x z \<le> 0" for x y z
    by (cases x; cases y; cases z) (auto simp: sort_irqs_def split: if_splits)
qed

lemma deref_irqs_Some: "deref_irqs xs s = Some ys \<Longrightarrow> map fst ys = xs \<and> (\<forall>(a, i) \<in> set ys. irqs s a = Some i)"
proof (induction xs arbitrary: ys)
  case (Cons x xs)
  then show ?case by (cases "irqs s x") (auto simp: deref_irqs_def)
qed (simp add: deref_irqs_def)

lemma deref_irqs_total: "\<forall>a \<in> set xs. irqs s a \<noteq> None \<Longrightarrow> \<exists>ys. deref_irqs xs s = Some ys"
  by (induction xs) (auto simp: deref_irqs_def)


section \<open>The invariant\<close>

text \<open>The irq data base: distinct valid descriptors with distinct numbers.\<close>

definition ok_irqs :: "sys \<Rightarrow> bool" where
  "ok_irqs s \<longleftrightarrow> irqs s NULL = None \<and> objs s NULL = None
     \<and> distinct (interrupts_db s) \<and> length (interrupts_db s) < 2 ^ 32
     \<and> (\<forall>a \<in> set (interrupts_db s). \<exists>i. irqs s a = Some i \<and> - (2 ^ 31) \<le> irq i \<and> irq i < 2 ^ 31
          \<and> objs s (numa_node i) \<noteq> None)
     \<and> (\<forall>a \<in> set (interrupts_db s). \<forall>b \<in> set (interrupts_db s). \<forall>i j.
          irqs s a = Some i \<longrightarrow> irqs s b = Some j \<longrightarrow> irq i = irq j \<longrightarrow> a = b)"

text \<open>The topology: all pointers of the tree are valid.\<close>

definition ok_tree :: "sys \<Rightarrow> bool" where
  "ok_tree s \<longleftrightarrow>
     (\<forall>d \<in> set (numa_nodes s) \<union> set (packages s) \<union> set (cache_domains s) \<union> set (cpus s). objs s d \<noteq> None)
     \<and> (\<forall>d t. objs s d = Some t \<longrightarrow> (\<forall>c \<in> set (children t). objs s c \<noteq> None))"

text \<open>Lists and \<open>assigned_obj\<close> agree: an irq is on the list of the object it is assigned to and on no
  other, the rebalance list holds the unassigned irqs, and irqs that are not to be balanced are on no
  list.\<close>

definition ok_lists :: "sys \<Rightarrow> bool" where
  "ok_lists s \<longleftrightarrow>
     (\<forall>l xs. get_list l s = Some xs \<longrightarrow> distinct xs \<and> set xs \<subseteq> set (interrupts_db s))
     \<and> (\<forall>a \<in> set (interrupts_db s). \<forall>i. irqs s a = Some i \<longrightarrow>
          (assigned_obj i \<noteq> NULL \<longrightarrow> objs s (assigned_obj i) \<noteq> None)
          \<and> (\<forall>d xs. get_list (ObjIrqs d) s = Some xs \<longrightarrow> (a \<in> set xs \<longleftrightarrow> assigned_obj i = d))
          \<and> (a \<in> set (rebalance_irq_list s) \<longleftrightarrow> assigned_obj i = NULL \<and> level i \<noteq> BALANCE_NONE)
          \<and> (level i = BALANCE_NONE \<longrightarrow> assigned_obj i = NULL))"

definition wf_sys :: "sys \<Rightarrow> bool" where
  "wf_sys s \<longleftrightarrow> ok_irqs s \<and> ok_tree s \<and> ok_lists s"

text \<open>What moving irqs leaves alone: everything but the lists and loads of objects, the rebalance
  list, and the fields \<open>moved\<close> and \<open>assigned_obj\<close> of irqs.\<close>

definition obj_shape :: "topo_obj \<Rightarrow> topo_obj" where
  "obj_shape d = d\<lparr>interrupts := [], load := 0\<rparr>"

definition irq_shape :: "irq_info \<Rightarrow> irq_info" where
  "irq_shape i = i\<lparr>moved := False, assigned_obj := NULL\<rparr>"

definition sys_shape :: "sys \<Rightarrow> sys" where
  "sys_shape s = s\<lparr>objs := map_option obj_shape \<circ> objs s, irqs := map_option irq_shape \<circ> irqs s,
     rebalance_irq_list := []\<rparr>"

lemma sys_shape_fields:
  "numa_nodes (sys_shape s) = numa_nodes s"
    "packages (sys_shape s) = packages s"
    "cache_domains (sys_shape s) = cache_domains s"
    "cpus (sys_shape s) = cpus s"
    "interrupts_db (sys_shape s) = interrupts_db s"
    "banned_irqs (sys_shape s) = banned_irqs s"
    "banned_cpus (sys_shape s) = banned_cpus s"
    "unbanned_cpus (sys_shape s) = unbanned_cpus s"
    "numa_avail (sys_shape s) = numa_avail s"
    "debug_mode (sys_shape s) = debug_mode s"
    "smp_affinity_log (sys_shape s) = smp_affinity_log s"
    "power_thresh (sys_shape s) = power_thresh s"
    "cycle_count (sys_shape s) = cycle_count s"
  by (simp_all add: sys_shape_def)

lemma sys_shape_eqD:
  assumes "sys_shape s' = sys_shape s"
  shows "map_option obj_shape (objs s' d) = map_option obj_shape (objs s d)"
    "map_option irq_shape (irqs s' a) = map_option irq_shape (irqs s a)"
    "numa_nodes s' = numa_nodes s"
    "packages s' = packages s"
    "cache_domains s' = cache_domains s"
    "cpus s' = cpus s"
    "interrupts_db s' = interrupts_db s"
    "banned_irqs s' = banned_irqs s"
    "banned_cpus s' = banned_cpus s"
    "unbanned_cpus s' = unbanned_cpus s"
    "numa_avail s' = numa_avail s"
    "debug_mode s' = debug_mode s"
    "smp_affinity_log s' = smp_affinity_log s"
    "power_thresh s' = power_thresh s"
    "cycle_count s' = cycle_count s"
proof -
  have "objs (sys_shape s') d = objs (sys_shape s) d" "irqs (sys_shape s') a = irqs (sys_shape s) a"
    using assms by simp_all
  then show "map_option obj_shape (objs s' d) = map_option obj_shape (objs s d)"
    "map_option irq_shape (irqs s' a) = map_option irq_shape (irqs s a)"
    by (simp_all add: sys_shape_def)
qed (metis assms sys_shape_fields)+

lemma shape_obj:
  assumes "sys_shape s' = sys_shape s" "objs s d = Some t"
  obtains t' where "objs s' d = Some t'" "obj_shape t' = obj_shape t"
  using sys_shape_eqD(1) [OF assms(1), of d] assms(2) that by (cases "objs s' d") auto

lemma shape_irq:
  assumes "sys_shape s' = sys_shape s" "irqs s a = Some i"
  obtains i' where "irqs s' a = Some i'" "irq_shape i' = irq_shape i"
  using sys_shape_eqD(2) [OF assms(1), of a] assms(2) that by (cases "irqs s' a") auto

lemma shape_valid:
  assumes "sys_shape s' = sys_shape s"
  shows "objs s' d = None \<longleftrightarrow> objs s d = None" "irqs s' a = None \<longleftrightarrow> irqs s a = None"
  using sys_shape_eqD(1) [OF assms, of d] sys_shape_eqD(2) [OF assms, of a]
  by (metis option.map_disc_iff)+

lemma obj_shapeD:
  assumes "obj_shape t' = obj_shape t"
  shows "children t' = children t" "mask t' = mask t" "obj_type t' = obj_type t" "number t' = number t"
    "powersave_mode t' = powersave_mode t" "parent t' = parent t"
  using assms by (cases t; cases t'; simp add: obj_shape_def)+

lemma irq_shapeD:
  assumes "irq_shape i' = irq_shape i"
  shows "irq i' = irq i" "i_load i' = i_load i" "level i' = level i" "numa_node i' = numa_node i"
    "affinity_hint i' = affinity_hint i" "hint_policy i' = hint_policy i" "i_class i' = i_class i"
  using assms by (cases i; cases i'; simp add: irq_shape_def)+

lemma ok_irqs_valid:
  assumes "ok_irqs s" "a \<in> set (interrupts_db s)"
  obtains i where "irqs s a = Some i" "- (2 ^ 31) \<le> irq i" "irq i < 2 ^ 31" "objs s (numa_node i) \<noteq> None"
  using assms by (auto simp: ok_irqs_def)

lemma ok_irqs_inj:
  assumes "ok_irqs s" "a \<in> set (interrupts_db s)" "b \<in> set (interrupts_db s)"
    "irqs s a = Some i" "irqs s b = Some j" "irq i = irq j"
  shows "a = b"
  using assms(1) [unfolded ok_irqs_def] assms(2-) by metis

lemma ok_irqs_shape:
  assumes "sys_shape s' = sys_shape s" "ok_irqs s"
  shows "ok_irqs s'"
proof -
  note db = sys_shape_eqD(7) [OF assms(1)]
  have orig: "\<exists>i. irqs s a = Some i \<and> irq_shape i' = irq_shape i" if "irqs s' a = Some i'" for a i'
    using shape_irq [OF assms(1) [symmetric] that] by metis
  have "\<exists>i'. irqs s' a = Some i' \<and> - (2 ^ 31) \<le> irq i' \<and> irq i' < 2 ^ 31 \<and> objs s' (numa_node i') \<noteq> None"
    if adb: "a \<in> set (interrupts_db s)" for a
  proof -
    obtain i where i: "irqs s a = Some i" "- (2 ^ 31) \<le> irq i" "irq i < 2 ^ 31" "objs s (numa_node i) \<noteq> None"
      by (rule ok_irqs_valid [OF assms(2) adb])
    obtain i' where i': "irqs s' a = Some i'" "irq_shape i' = irq_shape i" by (rule shape_irq [OF assms(1) i(1)])
    show ?thesis using i i'(1) shape_valid(1) [OF assms(1)] by (simp add: irq_shapeD [OF i'(2)])
  qed
  moreover have "a = b" if "a \<in> set (interrupts_db s)" "b \<in> set (interrupts_db s)"
    "irqs s' a = Some i" "irqs s' b = Some j" "irq i = irq j" for a b i j
    using ok_irqs_inj [OF assms(2) that(1,2)] that(5) orig [OF that(3)] orig [OF that(4)] by (metis irq_shapeD(1))
  ultimately show ?thesis
    using assms(2) unfolding ok_irqs_def db shape_valid [OF assms(1)] by blast
qed

lemma ok_tree_shape:
  assumes "sys_shape s' = sys_shape s" "ok_tree s"
  shows "ok_tree s'"
proof -
  have "objs s c \<noteq> None" if "objs s' d = Some t'" "c \<in> set (children t')" for d t' c
    using shape_obj [OF assms(1) [symmetric] that(1)] assms(2) that(2) obj_shapeD(1)
    unfolding ok_tree_def by metis
  with assms(2) show ?thesis
    unfolding ok_tree_def shape_valid [OF assms(1)] sys_shape_eqD(3-6) [OF assms(1)] by blast
qed


section \<open>Finding and moving irqs\<close>

lemma int32_diff_zero:
  assumes "- (2 ^ 31) \<le> x" "x < 2 ^ 31" "- (2 ^ 31) \<le> y" "y < (2 ^ 31 :: int)"
  shows "sint (of_int x - of_int y :: c_int) = 0 \<longleftrightarrow> x = y"
proof
  assume "sint (of_int x - of_int y :: c_int) = 0"
  then have "(of_int x :: c_int) = of_int y" by (simp add: signed_eq_0_iff)
  then have "sint (of_int x :: c_int) = sint (of_int y :: c_int)" by simp
  then show "x = y" using assms by (simp add: signed_of_int signed_take_bit_int_eq_self)
qed simp

lemma compare_ints_own:
  assumes "ok_irqs s" "a \<in> set (interrupts_db s)" "b \<in> set (interrupts_db s)" "irqs s a = Some i"
  shows "\<exists>c. compare_ints s (irq i) b = Some c \<and> (c = 0 \<longleftrightarrow> b = a)"
proof -
  obtain j where j: "irqs s b = Some j" "- (2 ^ 31) \<le> irq j" "irq j < 2 ^ 31"
    by (rule ok_irqs_valid [OF assms(1,3)])
  have i: "- (2 ^ 31) \<le> irq i" "irq i < 2 ^ 31"
    using ok_irqs_valid [OF assms(1,2)] assms(4) by (metis option.inject)+
  have "irq j = irq i \<longleftrightarrow> b = a" using ok_irqs_inj [OF assms(1,3,2) j(1) assms(4)] assms(4) j(1) by auto
  with j i show ?thesis by (simp add: compare_ints_def int32_diff_zero)
qed

lemma find_own:
  assumes "ok_irqs s" "a \<in> set (interrupts_db s)" "irqs s a = Some i" "set xs \<subseteq> set (interrupts_db s)"
  shows "find_custom (compare_ints s (irq i)) xs = Some (if a \<in> set xs then Some a else None)"
  using assms(4)
proof (induction xs)
  case (Cons b xs)
  obtain c where "compare_ints s (irq i) b = Some c" "c = 0 \<longleftrightarrow> b = a"
    using compare_ints_own [OF assms(1,2) _ assms(3), of b] Cons.prems by auto
  with Cons show ?case by auto
qed simp

lemma upd_obj_Some: "objs s a = Some d \<Longrightarrow> upd_obj a f s = Some (s\<lparr>objs := (objs s)(a \<mapsto> f d)\<rparr>)"
  by (simp add: upd_obj_def)

lemma upd_irq_Some: "irqs s a = Some i \<Longrightarrow> upd_irq a f s = Some (s\<lparr>irqs := (irqs s)(a \<mapsto> f i)\<rparr>)"
  by (simp add: upd_irq_def)

lemma put_list_ok:
  assumes "get_list l s \<noteq> None"
  shows "\<exists>s'. put_list l xs s = Some s' \<and> sys_shape s' = sys_shape s \<and> irqs s' = irqs s
    \<and> (\<forall>l'. get_list l' s' = (if l' = l then Some xs else get_list l' s))
    \<and> (\<forall>d. map_option load (objs s' d) = map_option load (objs s d))"
proof (cases l)
  case Rebalance
  then show ?thesis by (auto simp: put_list_def get_list_def sys_shape_def split: list_loc.split)
next
  case (ObjIrqs a)
  then obtain d where "objs s a = Some d" using assms by (auto simp: get_list_def)
  with ObjIrqs show ?thesis
    by (auto simp: put_list_def upd_obj_Some get_list_def sys_shape_def obj_shape_def fun_eq_iff
        split: list_loc.split)
qed

lemma migrate_irq_ok:
  assumes "ok_irqs s" "a \<in> set (interrupts_db s)" "irqs s a = Some i" "get_list f s = Some xs"
    and "set xs \<subseteq> set (interrupts_db s)" "a \<in> set xs" "get_list t s = Some ys"
  shows "\<exists>s'. migrate_irq f t a s = Some s' \<and> sys_shape s' = sys_shape s
    \<and> irqs s' = (irqs s)(a \<mapsto> i\<lparr>moved := True\<rparr>)
    \<and> (\<forall>l. get_list l s' = (if l = t then Some ((if t = f then remove1 a xs else ys) @ [a])
          else if l = f then Some (remove1 a xs) else get_list l s))
    \<and> (\<forall>d. map_option load (objs s' d) = map_option load (objs s d))"
proof -
  have f: "find_custom (compare_ints s (irq i)) xs = Some (Some a)"
    using find_own [OF assms(1-3,5)] assms(6) by simp
  obtain s1 where s1: "put_list f (remove1 a xs) s = Some s1" "sys_shape s1 = sys_shape s" "irqs s1 = irqs s"
    "\<forall>l. get_list l s1 = (if l = f then Some (remove1 a xs) else get_list l s)"
    "\<forall>d. map_option load (objs s1 d) = map_option load (objs s d)"
    using put_list_ok [of f s "remove1 a xs"] assms(4) by auto
  let ?ys = "if t = f then remove1 a xs else ys"
  have t: "get_list t s1 = Some ?ys" using s1(4) assms(7) by simp
  obtain s2 where s2: "put_list t (?ys @ [a]) s1 = Some s2" "sys_shape s2 = sys_shape s1" "irqs s2 = irqs s1"
    "\<forall>l. get_list l s2 = (if l = t then Some (?ys @ [a]) else get_list l s1)"
    "\<forall>d. map_option load (objs s2 d) = map_option load (objs s1 d)"
    using put_list_ok [of t s1 "?ys @ [a]"] t by auto
  let ?s = "s2\<lparr>irqs := (irqs s2)(a \<mapsto> i\<lparr>moved := True\<rparr>)\<rparr>"
  have "migrate_irq f t a s = Some ?s"
    using assms(3,4) f s1(1,3) t s2(1,3) by (simp add: migrate_irq_def upd_irq_def)
  moreover have "sys_shape ?s = sys_shape s2"
    using assms(3) s1(3) s2(3) by (auto simp: sys_shape_def irq_shape_def fun_eq_iff)
  moreover have "get_list l ?s = get_list l s2" for l by (simp add: get_list_def split: list_loc.split)
  ultimately show ?thesis using s1 s2 by auto
qed

lemma migrate_irq_absent:
  assumes "ok_irqs s" "a \<in> set (interrupts_db s)" "irqs s a = Some i" "get_list f s = Some xs"
    and "set xs \<subseteq> set (interrupts_db s)" "a \<notin> set xs"
  shows "migrate_irq f t a s = Some s"
  using find_own [OF assms(1-3,5)] assms(3,4,6) by (simp add: migrate_irq_def)

text \<open>Moving an irq from the list it is on to the list that goes with its new \<open>assigned_obj\<close>.\<close>

definition home :: "addr \<Rightarrow> list_loc" where
  "home d = (if d = NULL then Rebalance else ObjIrqs d)"

lemma ok_listsD:
  assumes "ok_lists s" "a \<in> set (interrupts_db s)" "irqs s a = Some i"
  shows "assigned_obj i \<noteq> NULL \<Longrightarrow> objs s (assigned_obj i) \<noteq> None"
    "get_list (ObjIrqs d) s = Some xs \<Longrightarrow> a \<in> set xs \<longleftrightarrow> assigned_obj i = d"
    "a \<in> set (rebalance_irq_list s) \<Longrightarrow> assigned_obj i = NULL"
    "level i = BALANCE_NONE \<Longrightarrow> assigned_obj i = NULL \<and> a \<notin> set (rebalance_irq_list s)"
    "assigned_obj i = NULL \<Longrightarrow> level i \<noteq> BALANCE_NONE \<Longrightarrow> a \<in> set (rebalance_irq_list s)"
proof -
  note * = assms(1) [unfolded ok_lists_def, THEN conjunct2, rule_format, OF assms(2,3)]
  show "assigned_obj i \<noteq> NULL \<Longrightarrow> objs s (assigned_obj i) \<noteq> None"
    "get_list (ObjIrqs d) s = Some xs \<Longrightarrow> a \<in> set xs \<longleftrightarrow> assigned_obj i = d"
    "a \<in> set (rebalance_irq_list s) \<Longrightarrow> assigned_obj i = NULL"
    "level i = BALANCE_NONE \<Longrightarrow> assigned_obj i = NULL \<and> a \<notin> set (rebalance_irq_list s)"
    "assigned_obj i = NULL \<Longrightarrow> level i \<noteq> BALANCE_NONE \<Longrightarrow> a \<in> set (rebalance_irq_list s)"
    using * by blast+
qed

lemma ok_lists_list:
  "ok_lists s \<Longrightarrow> get_list l s = Some xs \<Longrightarrow> distinct xs \<and> set xs \<subseteq> set (interrupts_db s)"
  unfolding ok_lists_def by blast



text \<open>The lists after an irq has moved from one list to another.\<close>

definition lists_after :: "addr \<Rightarrow> list_loc \<Rightarrow> list_loc \<Rightarrow> sys \<Rightarrow> sys \<Rightarrow> bool" where
  "lists_after a f t s s' \<longleftrightarrow> (\<forall>l. get_list l s' =
     (if l = t then map_option (\<lambda>ys. (if t = f then remove1 a ys else ys) @ [a]) (get_list t s)
      else if l = f then map_option (remove1 a) (get_list f s) else get_list l s))"

lemma lists_after_mem:
  assumes "lists_after a f t s s'" "get_list l s = Some xs" "get_list l s' = Some ys" "distinct xs"
  shows "b \<in> set ys \<longleftrightarrow> (if b = a then l = t \<or> l \<noteq> f \<and> a \<in> set xs else b \<in> set xs)"
    "l \<noteq> t \<or> t = f \<or> a \<notin> set xs \<Longrightarrow> distinct ys"
  using assms(1) [unfolded lists_after_def, rule_format, of l] assms(2-4)
  by (auto split: if_splits)

lemma lists_after_None:
  "lists_after a f t s s' \<Longrightarrow> get_list l s' = None \<longleftrightarrow> get_list l s = None"
  by (simp add: lists_after_def)

text \<open>An irq is on no list but that of its home.\<close>

lemma home_only:
  assumes ok: "ok_lists s" "a \<in> set (interrupts_db s)" "irqs s a = Some i" and n: "objs s NULL = None"
    and l: "get_list l s = Some xs" "l \<noteq> home (assigned_obj i)"
  shows "a \<notin> set xs"
proof (cases l)
  case Rebalance
  with l ok show ?thesis using ok_listsD(3) [OF ok] by (auto simp: get_list_def home_def)
next
  case (ObjIrqs d)
  then have "d \<noteq> NULL" using n l(1) by (auto simp: get_list_def intro: ccontr)
  with ObjIrqs l show ?thesis using ok_listsD(2) [OF ok, of d xs] by (auto simp: home_def split: if_splits)
qed

lemma ok_lists_move:
  assumes "ok_lists s" "sys_shape s' = sys_shape s" "lists_after a f t s s'"
    and "a \<in> set (interrupts_db s)" "irqs s a = Some i" "irqs s' = (irqs s)(a \<mapsto> i')"
    and "f = home (assigned_obj i)" "t = home (assigned_obj i')" "get_list f s = Some xs" "a \<in> set xs"
    and "assigned_obj i' \<noteq> NULL \<Longrightarrow> objs s (assigned_obj i') \<noteq> None" "objs s NULL = None" "level i' = level i"
  shows "ok_lists s'"
proof -
  note db = sys_shape_eqD(7) [OF assms(2)]
  have away: "a \<notin> set xs'" if "get_list l s = Some xs'" "l \<noteq> f" for l xs'
    by (rule home_only [OF assms(1,4,5,12) that(1)]) (use that(2) assms(7) in simp)
  have mem: "\<exists>xs'. get_list l s = Some xs' \<and> distinct ys \<and> set xs' \<subseteq> set (interrupts_db s)
      \<and> (\<forall>b. b \<in> set ys \<longleftrightarrow> (if b = a then l = t else b \<in> set xs'))" if l: "get_list l s' = Some ys" for l ys
  proof -
    obtain xs' where xs': "get_list l s = Some xs'" using lists_after_None [OF assms(3), of l] l by auto
    have d: "distinct xs'" "set xs' \<subseteq> set (interrupts_db s)" using ok_lists_list [OF assms(1) xs'] by auto
    show ?thesis using xs' d(2) lists_after_mem [OF assms(3) xs' l d(1)] away [OF xs'] by (auto split: if_splits)
  qed
  have li: "level i \<noteq> BALANCE_NONE"
    using ok_listsD(4) [OF assms(1,4,5)] ok_listsD(3) [OF assms(1,4,5)] assms(7,9,10) by (auto simp: home_def get_list_def)
  show ?thesis unfolding ok_lists_def
  proof (intro conjI allI impI ballI)
    fix l ys assume l: "get_list l s' = Some ys"
    show "distinct ys" "set ys \<subseteq> set (interrupts_db s')" using mem [OF l] assms(4) by (auto simp: db split: if_splits)
  next
    fix b j assume b: "b \<in> set (interrupts_db s')" "irqs s' b = Some j"
    have bdb: "b \<in> set (interrupts_db s)" using b(1) by (simp add: db)
    have j: "if b = a then j = i' else irqs s b = Some j" using b(2) assms(6) by (auto split: if_splits)
    show "objs s' (assigned_obj j) \<noteq> None" if "assigned_obj j \<noteq> NULL"
      using that j ok_listsD(1) [OF assms(1) bdb] assms(11) by (auto simp: shape_valid [OF assms(2)] split: if_splits)
    show "b \<in> set ys \<longleftrightarrow> assigned_obj j = d" if g: "get_list (ObjIrqs d) s' = Some ys" for d ys
    proof -
      obtain xs' where xs': "get_list (ObjIrqs d) s = Some xs'" "b \<in> set ys \<longleftrightarrow> (if b = a then ObjIrqs d = t else b \<in> set xs')"
        using mem [OF g] by blast
      have "d \<noteq> NULL" using assms(12) xs'(1) by (auto simp: get_list_def intro: ccontr)
      then show ?thesis using xs'(2) j assms(8) ok_listsD(2) [OF assms(1) bdb _ xs'(1)] by (auto simp: home_def split: if_splits)
    qed
    have m: "b \<in> set (rebalance_irq_list s') \<longleftrightarrow> (if b = a then Rebalance = t else b \<in> set (rebalance_irq_list s))"
      using mem [of Rebalance] by (auto simp: get_list_def)
    show "b \<in> set (rebalance_irq_list s') \<longleftrightarrow> assigned_obj j = NULL \<and> level j \<noteq> BALANCE_NONE"
    proof (cases "b = a")
      case True
      with m j li assms(8,13) show ?thesis by (simp add: home_def)
    next
      case False
      then have "irqs s b = Some j" using j by simp
      from ok_listsD(3-5) [OF assms(1) bdb this] show ?thesis using m False by auto
    qed
    show "assigned_obj j = NULL" if "level j = BALANCE_NONE"
      using that j assms(13) li ok_listsD(4) [OF assms(1) bdb] by (auto split: if_splits)
  qed
qed

lemma relocate_ok:
  assumes "wf_sys s" and a: "a \<in> set (interrupts_db s)" "irqs s a = Some i"
    and f: "get_list (home (assigned_obj i)) s = Some xs" "a \<in> set xs"
    and t: "e \<noteq> NULL \<Longrightarrow> objs s e \<noteq> None"
  shows "\<exists>s1 s'. migrate_irq (home (assigned_obj i)) (home e) a s = Some s1
    \<and> upd_irq a (\<lambda>i. i\<lparr>assigned_obj := e\<rparr>) s1 = Some s'
    \<and> wf_sys s' \<and> sys_shape s' = sys_shape s
    \<and> irqs s' = (irqs s)(a \<mapsto> i\<lparr>moved := True, assigned_obj := e\<rparr>)
    \<and> lists_after a (home (assigned_obj i)) (home e) s s'
    \<and> (\<forall>d. map_option load (objs s' d) = map_option load (objs s d))"
proof -
  have w: "ok_irqs s" "ok_tree s" "ok_lists s" using assms(1) by (simp_all add: wf_sys_def)
  have sub: "set xs \<subseteq> set (interrupts_db s)" using ok_lists_list [OF w(3) f(1)] by simp
  obtain ys where ys: "get_list (home e) s = Some ys"
    using t by (cases "e = NULL") (auto simp: home_def get_list_def)
  let ?f = "home (assigned_obj i)" and ?t = "home e" and ?i = "i\<lparr>moved := True, assigned_obj := e\<rparr>"
  obtain s1 where s1: "migrate_irq ?f ?t a s = Some s1" "sys_shape s1 = sys_shape s"
    "irqs s1 = (irqs s)(a \<mapsto> i\<lparr>moved := True\<rparr>)"
    "\<forall>l. get_list l s1 = (if l = ?t then Some ((if ?t = ?f then remove1 a xs else ys) @ [a])
          else if l = ?f then Some (remove1 a xs) else get_list l s)"
    "\<forall>d. map_option load (objs s1 d) = map_option load (objs s d)"
    using migrate_irq_ok [OF w(1) a f(1) sub f(2) ys] by blast
  let ?s = "s1\<lparr>irqs := (irqs s)(a \<mapsto> ?i)\<rparr>"
  have u: "upd_irq a (\<lambda>i. i\<lparr>assigned_obj := e\<rparr>) s1 = Some ?s"
    using s1(3) by (simp add: upd_irq_Some)
  have "sys_shape ?s = sys_shape s1"
    using s1(3) by (auto simp: sys_shape_def irq_shape_def fun_eq_iff)
  with s1(2) have sh: "sys_shape ?s = sys_shape s" by simp
  have "get_list l ?s = get_list l s1" for l by (simp add: get_list_def split: list_loc.split)
  then have la: "lists_after a ?f ?t s ?s"
    using s1(4) f(1) ys by (auto simp: lists_after_def)
  have n: "objs s NULL = None" using w(1) by (simp add: ok_irqs_def)
  have "ok_lists ?s"
  proof (rule ok_lists_move [OF w(3) sh la a _ refl _ f])
    show "irqs ?s = (irqs s)(a \<mapsto> ?i)" by simp
    show "home e = home (assigned_obj ?i)" by simp
    show "assigned_obj ?i \<noteq> NULL \<Longrightarrow> objs s (assigned_obj ?i) \<noteq> None"
      using t by simp
    show "level ?i = level i" by simp
  qed (rule n)
  then have "wf_sys ?s" using ok_irqs_shape [OF sh w(1)] ok_tree_shape [OF sh w(2)] by (simp add: wf_sys_def)
  with s1(1,5) u sh la show ?thesis by fastforce
qed

lemma ok_lists_cong:
  assumes "\<And>l. get_list l s' = get_list l s" "irqs s' = irqs s" "interrupts_db s' = interrupts_db s"
    and "\<And>d. objs s' d = None \<longleftrightarrow> objs s d = None" "ok_lists s"
  shows "ok_lists s'"
proof -
  have rb: "rebalance_irq_list s' = rebalance_irq_list s" using assms(1) [of Rebalance] by (simp add: get_list_def)
  show ?thesis using assms(5) unfolding ok_lists_def assms(1-4) rb .
qed

lemma add_load_ok:
  assumes "wf_sys s" "objs s e = Some d"
  shows "wf_sys (s\<lparr>objs := (objs s)(e \<mapsto> d\<lparr>load := x\<rparr>)\<rparr>)"
    "sys_shape (s\<lparr>objs := (objs s)(e \<mapsto> d\<lparr>load := x\<rparr>)\<rparr>) = sys_shape s"
proof -
  let ?s = "s\<lparr>objs := (objs s)(e \<mapsto> d\<lparr>load := x\<rparr>)\<rparr>"
  show sh: "sys_shape ?s = sys_shape s"
    using assms(2) by (auto simp: sys_shape_def obj_shape_def fun_eq_iff)
  have w: "ok_irqs s" "ok_tree s" "ok_lists s" using assms(1) by (simp_all add: wf_sys_def)
  have l: "get_list l ?s = get_list l s" for l
    using assms(2) by (auto simp: get_list_def split: list_loc.split)
  have "ok_lists ?s"
    by (rule ok_lists_cong [OF l _ _ shape_valid(1) [OF sh] w(3)]) simp_all
  then show "wf_sys ?s" using ok_irqs_shape [OF sh w(1)] ok_tree_shape [OF sh w(2)] by (simp add: wf_sys_def)
qed


section \<open>The skeleton the invariant depends on\<close>

definition skel_obj :: "topo_obj \<Rightarrow> topo_obj" where
  "skel_obj d = d\<lparr>load := 0, last_load := 0, irq_count := 0\<rparr>"

definition skel_irq :: "irq_info \<Rightarrow> irq_info" where
  "skel_irq i = i\<lparr>i_irq_count := 0, last_irq_count := 0, i_load := 0, moved := False, warned := False\<rparr>"

definition skel :: "sys \<Rightarrow> sys" where
  "skel s = s\<lparr>objs := map_option skel_obj \<circ> objs s, irqs := map_option skel_irq \<circ> irqs s, need_rescan := False,
     cycle_count := 0, proc_int_has_msi := False, msi_found_in_sysfs := False\<rparr>"

text \<open>States that differ at most in counters, loads and flags.\<close>

definition same_skel :: "sys \<Rightarrow> sys \<Rightarrow> bool" where
  "same_skel s s' \<longleftrightarrow> skel s' = skel s"

lemma same_skel_refl [simp]: "same_skel s s"
  by (simp add: same_skel_def)

lemma same_skel_trans: "same_skel s t \<Longrightarrow> same_skel t u \<Longrightarrow> same_skel s u"
  by (simp add: same_skel_def)

lemma skel_fields:
  "numa_nodes (skel s) = numa_nodes s" "packages (skel s) = packages s" "cache_domains (skel s) = cache_domains s"
  "cpus (skel s) = cpus s" "interrupts_db (skel s) = interrupts_db s" "banned_irqs (skel s) = banned_irqs s"
  "rebalance_irq_list (skel s) = rebalance_irq_list s" "banned_cpus (skel s) = banned_cpus s"
  "smp_affinity_log (skel s) = smp_affinity_log s"
  by (simp_all add: skel_def)

lemma skel_flags [simp]:
  "skel (s\<lparr>need_rescan := b\<rparr>) = skel s" "skel (s\<lparr>cycle_count := n\<rparr>) = skel s" "skel (s\<lparr>proc_int_has_msi := b\<rparr>) = skel s"
  "skel (s\<lparr>msi_found_in_sysfs := b\<rparr>) = skel s"
  by (simp_all add: skel_def)

lemma same_skel_store:
  assumes "same_skel s s'"
  shows "map_option skel_obj (objs s' a) = map_option skel_obj (objs s a)"
    "map_option skel_irq (irqs s' a) = map_option skel_irq (irqs s a)"
proof -
  have "objs (skel s') a = objs (skel s) a" "irqs (skel s') a = irqs (skel s) a"
    using assms by (simp_all add: same_skel_def)
  then show "map_option skel_obj (objs s' a) = map_option skel_obj (objs s a)"
    "map_option skel_irq (irqs s' a) = map_option skel_irq (irqs s a)"
    by (simp_all add: skel_def)
qed

lemma skel_objD:
  assumes "skel_obj d' = skel_obj d"
  shows "interrupts d' = interrupts d" "children d' = children d" "obj_type d' = obj_type d" "parent d' = parent d"
    "mask d' = mask d" "powersave_mode d' = powersave_mode d" "number d' = number d"
  using assms by (cases d; cases d'; simp add: skel_obj_def)+

lemma skel_irqD:
  assumes "skel_irq i' = skel_irq i"
  shows "irq i' = irq i" "numa_node i' = numa_node i" "assigned_obj i' = assigned_obj i" "level i' = level i"
    "hint_policy i' = hint_policy i"
  using assms by (cases i; cases i'; simp add: skel_irq_def)+

lemma same_skelD:
  assumes "same_skel s s'"
  shows "numa_nodes s' = numa_nodes s" "packages s' = packages s" "cache_domains s' = cache_domains s"
    "cpus s' = cpus s" "interrupts_db s' = interrupts_db s" "banned_irqs s' = banned_irqs s"
    "rebalance_irq_list s' = rebalance_irq_list s" "banned_cpus s' = banned_cpus s"
    "objs s' a = None \<longleftrightarrow> objs s a = None" "irqs s' b = None \<longleftrightarrow> irqs s b = None" "get_list l s' = get_list l s"
proof -
  note o = same_skel_store [OF assms]
  show "objs s' a = None \<longleftrightarrow> objs s a = None" using o(1) [of a] by (metis option.map_disc_iff)
  show "irqs s' b = None \<longleftrightarrow> irqs s b = None" using o(2) [of b] by (metis option.map_disc_iff)
  have "map_option interrupts (objs s' x) = map_option interrupts (objs s x)" for x
  proof (cases "objs s x")
    case (Some d)
    then obtain d' where d': "objs s' x = Some d'" "skel_obj d' = skel_obj d" using o(1) [of x] by auto
    show ?thesis unfolding Some d'(1) using skel_objD(1) [OF d'(2)] by simp
  qed (use o(1) [of x] in simp)
  moreover show "rebalance_irq_list s' = rebalance_irq_list s" using assms by (metis same_skel_def skel_fields(7))
  ultimately show "get_list l s' = get_list l s" by (simp add: get_list_def split: list_loc.split)
qed (use assms in \<open>metis same_skel_def skel_fields\<close>)+

lemma same_skel_obj:
  assumes "same_skel s s'" "objs s' a = Some d'"
  obtains d where "objs s a = Some d" "interrupts d' = interrupts d" "children d' = children d"
    "obj_type d' = obj_type d" "parent d' = parent d"
proof -
  obtain d where d: "objs s a = Some d" "skel_obj d' = skel_obj d"
    using same_skel_store(1) [OF assms(1), of a] assms(2) by (cases "objs s a") auto
  show thesis using that [OF d(1)] skel_objD [OF d(2)] by blast
qed

lemma same_skel_irq:
  assumes "same_skel s s'" "irqs s' a = Some i'"
  obtains i where "irqs s a = Some i" "irq i' = irq i" "numa_node i' = numa_node i" "assigned_obj i' = assigned_obj i"
    "level i' = level i"
proof -
  obtain i where i: "irqs s a = Some i" "skel_irq i' = skel_irq i"
    using same_skel_store(2) [OF assms(1), of a] assms(2) by (cases "irqs s a") auto
  show thesis using that [OF i(1)] skel_irqD [OF i(2)] by blast
qed

lemma same_skel_sym: "same_skel s s' \<Longrightarrow> same_skel s' s"
  by (simp add: same_skel_def)

lemma wf_sys_skel:
  assumes "same_skel s s'" "wf_sys s"
  shows "wf_sys s'"
proof -
  have w: "ok_irqs s" "ok_tree s" "ok_lists s" using assms(2) by (simp_all add: wf_sys_def)
  note f = same_skelD [OF assms(1)]
  have "ok_irqs s'"
    unfolding ok_irqs_def f
  proof (intro conjI ballI allI impI)
    fix a assume a: "a \<in> set (interrupts_db s)"
    obtain i where i: "irqs s a = Some i" "- (2 ^ 31) \<le> irq i" "irq i < 2 ^ 31" "objs s (numa_node i) \<noteq> None"
      by (rule ok_irqs_valid [OF w(1) a])
    obtain i' where i': "irqs s' a = Some i'" using i(1) f(10) [of a] by (cases "irqs s' a") auto
    from same_skel_irq [OF assms(1) i'] i show
      "\<exists>i. irqs s' a = Some i \<and> - (2 ^ 31) \<le> irq i \<and> irq i < 2 ^ 31 \<and> objs s (numa_node i) \<noteq> None"
      by (metis i' option.inject)
  next
    fix a b i j assume a: "a \<in> set (interrupts_db s)" "b \<in> set (interrupts_db s)" "irqs s' a = Some i" "irqs s' b = Some j"
      "irq i = irq j"
    show "a = b" using same_skel_irq [OF assms(1) a(3)] same_skel_irq [OF assms(1) a(4)] ok_irqs_inj [OF w(1) a(1,2)] a(5)
      by metis
  qed (use w(1) in \<open>simp_all add: ok_irqs_def\<close>)
  moreover have "objs s c \<noteq> None" if "objs s' d = Some t" "c \<in> set (children t)" for d t c
    using same_skel_obj [OF assms(1) that(1)] that(2) w(2) unfolding ok_tree_def by metis
  then have "ok_tree s'" using w(2) unfolding ok_tree_def f by blast
  moreover have "ok_lists s'"
    unfolding ok_lists_def f
  proof (intro conjI ballI allI impI)
    fix l xs assume "get_list l s = Some xs"
    from ok_lists_list [OF w(3) this] show "distinct xs" "set xs \<subseteq> set (interrupts_db s)" by simp_all
  next
    fix a i' assume a: "a \<in> set (interrupts_db s)" "irqs s' a = Some i'"
    obtain i where i: "irqs s a = Some i" "assigned_obj i' = assigned_obj i" "level i' = level i"
      using same_skel_irq [OF assms(1) a(2)] by metis
    note d = ok_listsD [OF w(3) a(1) i(1)]
    show "assigned_obj i' \<noteq> NULL \<Longrightarrow> objs s (assigned_obj i') \<noteq> None" using d(1) i(2) by simp
    show "get_list (ObjIrqs e) s = Some xs \<Longrightarrow> (a \<in> set xs) = (assigned_obj i' = e)" for e xs using d(2) i(2) by simp
    show "a \<in> set (rebalance_irq_list s) \<longleftrightarrow> assigned_obj i' = NULL \<and> level i' \<noteq> BALANCE_NONE" using d(3-5) i(2,3) by auto
    show "level i' = BALANCE_NONE \<Longrightarrow> assigned_obj i' = NULL" using d(4) i(2,3) by simp
  qed
  ultimately show ?thesis by (simp add: wf_sys_def)
qed

lemma same_skel_upd_irq:
  "irqs s a = Some i \<Longrightarrow> skel_irq i' = skel_irq i \<Longrightarrow> same_skel s (s\<lparr>irqs := (irqs s)(a \<mapsto> i')\<rparr>)"
  by (simp add: same_skel_def skel_def fun_eq_iff)

lemma same_skel_upd_obj:
  "objs s a = Some d \<Longrightarrow> skel_obj d' = skel_obj d \<Longrightarrow> same_skel s (s\<lparr>objs := (objs s)(a \<mapsto> d')\<rparr>)"
  by (simp add: same_skel_def skel_def fun_eq_iff)

lemma same_skel_log: "same_skel s s' \<Longrightarrow> smp_affinity_log s' = smp_affinity_log s"
  by (metis same_skel_def skel_fields(9))

lemma wf_sys_log [simp]: "wf_sys (s\<lparr>smp_affinity_log := l\<rparr>) = wf_sys s"
  by (simp add: wf_sys_def ok_irqs_def ok_tree_def ok_lists_def get_list_def cong: list_loc.case_cong)

text \<open>An object keeps its list and its children.\<close>

lemma wf_sys_upd_obj:
  assumes "wf_sys s" "objs s e = Some d" "interrupts d' = interrupts d" "children d' = children d"
  shows "wf_sys (s\<lparr>objs := (objs s)(e \<mapsto> d')\<rparr>)"
proof -
  let ?s = "s\<lparr>objs := (objs s)(e \<mapsto> d')\<rparr>"
  have w: "ok_irqs s" "ok_tree s" "ok_lists s" using assms(1) by (simp_all add: wf_sys_def)
  have n: "objs ?s x = None \<longleftrightarrow> objs s x = None" for x using assms(2) by simp
  have l: "get_list l ?s = get_list l s" for l
    using assms(2,3) by (auto simp: get_list_def split: list_loc.split)
  have "ok_lists ?s" by (rule ok_lists_cong [OF l _ _ n w(3)]) simp_all
  moreover have "ok_irqs ?s" using w(1) unfolding ok_irqs_def n by simp
  moreover have "\<exists>t0. objs s x = Some t0 \<and> children t = children t0" if "objs ?s x = Some t" for x t
    using that assms(2,4) by (auto split: if_splits)
  then have "ok_tree ?s" using w(2) unfolding ok_tree_def n by (simp del: fun_upd_apply) metis
  ultimately show ?thesis by (simp add: wf_sys_def)
qed

end
