(* ===== verification/Placement.thy ===== *)
theory Placement
  imports State
begin

text \<open>
  \<open>placement.c\<close>: every irq on the rebalance list is put on a numa node, then pushed down the tree
  (node, package, cache domain, cpu) to the least loaded child until the level its class asks for.
\<close>

definition ULLONG_MAX :: u64 where
  "ULLONG_MAX = - 1"

record obj_placement =
  best :: addr
  best_cost :: u64
  info :: addr

text \<open>\<open>find_best_object\<close> reads the state and updates the \<open>struct obj_placement\<close> its caller passes.\<close>

definition find_best_object :: "sys \<Rightarrow> addr \<Rightarrow> obj_placement \<Rightarrow> obj_placement option" where
  "find_best_object s da b = do {
     d \<leftarrow> objs s da;
     if numa_avail s \<and> obj_type d = OBJ_TYPE_NODE \<and> number d = -1 then Some b
     else if obj_type d = OBJ_TYPE_NODE \<and> \<not> cpus_intersects (mask d) (unbanned_cpus s) then Some b
     else do {
       i \<leftarrow> irqs s (info b);
       if hint_policy i = HINT_POLICY_SUBSET \<and> \<not> cpus_empty (affinity_hint i)
          \<and> cpus_empty (cpus_and CPU_MASK_NONE (affinity_hint i) (mask d)) then Some b
       else if powersave_mode d then Some b
       else
         let newload = load d in
         if newload < best_cost b then Some (b\<lparr>best := da, best_cost := newload\<rparr>)
         else if newload = best_cost b then do {
           bo \<leftarrow> objs s (best b);
           if glength (interrupts d) < glength (interrupts bo) then Some (b\<lparr>best := da\<rparr>)
           else Some b
         }
         else Some b
     }
   }"

text \<open>The levels at which an irq is not pushed below an object of a given type.\<close>

definition stops_at :: "obj_type_e \<Rightarrow> int \<Rightarrow> bool" where
  "stops_at t lvl = (case t of
     OBJ_TYPE_NODE \<Rightarrow> lvl = BALANCE_NONE
   | OBJ_TYPE_PACKAGE \<Rightarrow> lvl = BALANCE_PACKAGE
   | OBJ_TYPE_CACHE \<Rightarrow> lvl = BALANCE_CACHE
   | OBJ_TYPE_CPU \<Rightarrow> lvl = BALANCE_CORE)"

definition find_best_object_for_irq :: "addr \<Rightarrow> addr \<Rightarrow> sys \<Rightarrow> sys option" where
  "find_best_object_for_irq da ia s = do {
     i \<leftarrow> irqs s ia;
     if \<not> moved i then Some s
     else do {
       d \<leftarrow> objs s da;
       if stops_at (obj_type d) (level i) then Some s
       else do {
         place \<leftarrow> for_each_object (children d) (find_best_object s)
                    \<lparr>best = NULL, best_cost = ULLONG_MAX, info = ia\<rparr>;
         let asign = best place;
         if asign \<noteq> NULL then do {
           s \<leftarrow> migrate_irq (ObjIrqs da) (ObjIrqs asign) ia s;
           s \<leftarrow> upd_irq ia (\<lambda>i. i\<lparr>assigned_obj := asign\<rparr>) s;
           i \<leftarrow> irqs s ia;
           upd_obj asign (\<lambda>d. d\<lparr>load := load d + i_load i\<rparr>) s
         }
         else Some s
       }
     }
   }"

definition place_irq_in_object :: "addr \<Rightarrow> sys \<Rightarrow> sys option" where
  "place_irq_in_object da s = do {
     d \<leftarrow> objs s da;
     if 0 < glength (interrupts d)
     then for_each_irq (interrupts d) (find_best_object_for_irq da) s
     else Some s
   }"

text \<open>The part of \<open>place_irq_in_node\<close> after the label \<open>find_placement\<close>.\<close>

definition find_placement :: "addr \<Rightarrow> sys \<Rightarrow> sys option" where
  "find_placement ia s = do {
     place \<leftarrow> for_each_object (numa_nodes s) (find_best_object s)
                \<lparr>best = NULL, best_cost = ULLONG_MAX, info = ia\<rparr>;
     let asign = best place;
     if asign \<noteq> NULL then do {
       s \<leftarrow> migrate_irq Rebalance (ObjIrqs asign) ia s;
       s \<leftarrow> upd_irq ia (\<lambda>i. i\<lparr>assigned_obj := asign\<rparr>) s;
       i \<leftarrow> irqs s ia;
       upd_obj asign (\<lambda>d. d\<lparr>load := load d + i_load i\<rparr>) s
     }
     else Some s
   }"

definition place_irq_in_node :: "addr \<Rightarrow> sys \<Rightarrow> sys option" where
  "place_irq_in_node ia s = do {
     i \<leftarrow> irqs s ia;
     if level i = BALANCE_NONE \<and> cpus_empty (banned_cpus s) then Some s
     else do {
       node \<leftarrow> objs s (numa_node i);
       if number node \<noteq> -1 then
         (if \<not> cpus_intersects (mask node) (unbanned_cpus s) then find_placement ia s
          else do {
            s \<leftarrow> migrate_irq Rebalance (ObjIrqs (numa_node i)) ia s;
            s \<leftarrow> upd_irq ia (\<lambda>i. i\<lparr>assigned_obj := numa_node i\<rparr>) s;
            i \<leftarrow> irqs s ia;
            upd_obj (numa_node i) (\<lambda>d. d\<lparr>load := load d + (i_load i + 1)\<rparr>) s
          })
       else find_placement ia s
     }
   }"

text \<open>Validation reports: the irq number, what \<open>assigned_obj\<close> points to and what it should be.\<close>

definition validate_irq :: "addr \<Rightarrow> addr \<Rightarrow> sys \<Rightarrow> (int \<times> addr \<times> addr) list option" where
  "validate_irq da ia s = map_option (\<lambda>i.
     if assigned_obj i \<noteq> da then [(irq i, assigned_obj i, da)] else []) (irqs s ia)"

definition validate_object :: "sys \<Rightarrow> addr \<Rightarrow> (int \<times> addr \<times> addr) list \<Rightarrow> (int \<times> addr \<times> addr) list option" where
  "validate_object s da out = do {
     d \<leftarrow> objs s da;
     if 0 < glength (interrupts d)
     then for_each (\<lambda>ia out. map_option ((@) out) (validate_irq da ia s))
            (if interrupts d \<noteq> [] then interrupts d else interrupts_db s) out
     else Some out
   }"

definition validate_object_tree_placement :: "sys \<Rightarrow> (int \<times> addr \<times> addr) list option" where
  "validate_object_tree_placement s = do {
     out \<leftarrow> for_each_object (packages s) (validate_object s) [];
     out \<leftarrow> for_each_object (cache_domains s) (validate_object s) out;
     for_each_object (cpus s) (validate_object s) out
   }"

text \<open>\<open>calculate_placement\<close>; the second result is the output of the validation in debug mode.\<close>

definition calculate_placement :: "sys \<Rightarrow> (sys \<times> (int \<times> addr \<times> addr) list) option" where
  "calculate_placement s = do {
     s \<leftarrow> sort_irq_list Rebalance s;
     s \<leftarrow> (if 0 < glength (rebalance_irq_list s)
          then do {
            s \<leftarrow> for_each_irq (rebalance_irq_list s) place_irq_in_node s;
            s \<leftarrow> for_each_object (numa_nodes s) place_irq_in_object s;
            s \<leftarrow> for_each_object (packages s) place_irq_in_object s;
            for_each_object (cache_domains s) place_irq_in_object s
          }
          else Some s);
     out \<leftarrow> (if debug_mode s then validate_object_tree_placement s else Some []);
     Some (s, out)
   }"


section \<open>The choice of an object\<close>

text \<open>The objects \<open>find_best_object\<close> considers for an irq.\<close>

definition eligible :: "sys \<Rightarrow> irq_info \<Rightarrow> topo_obj \<Rightarrow> bool" where
  "eligible s i d \<longleftrightarrow>
     \<not> (numa_avail s \<and> obj_type d = OBJ_TYPE_NODE \<and> number d = -1)
     \<and> (obj_type d = OBJ_TYPE_NODE \<longrightarrow> cpus_of (mask d) \<inter> cpus_of (unbanned_cpus s) \<noteq> {})
     \<and> (hint_policy i = HINT_POLICY_SUBSET \<and> cpus_of (affinity_hint i) \<noteq> {} \<longrightarrow>
          cpus_of (affinity_hint i) \<inter> cpus_of (mask d) \<noteq> {})
     \<and> \<not> powersave_mode d"

text \<open>An object is better when its load is smaller or, at equal load, it has fewer irqs.\<close>

definition cost_le :: "topo_obj \<Rightarrow> topo_obj \<Rightarrow> bool" where
  "cost_le d e \<longleftrightarrow> load d < load e \<or> load d = load e \<and> glength (interrupts d) \<le> glength (interrupts e)"

lemma cost_le_refl [simp]: "cost_le d d"
  by (simp add: cost_le_def)

lemma cost_le_trans: "cost_le a b \<Longrightarrow> cost_le b c \<Longrightarrow> cost_le a c"
  by (auto simp: cost_le_def)

lemma cost_le_total: "cost_le a b \<or> cost_le b a"
  by (auto simp: cost_le_def)

text \<open>The candidate after a prefix of the objects has been looked at.\<close>

definition best_of :: "sys \<Rightarrow> irq_info \<Rightarrow> addr set \<Rightarrow> obj_placement \<Rightarrow> bool" where
  "best_of s i A b \<longleftrightarrow>
     (if best b = NULL then best_cost b = ULLONG_MAX \<and> (\<forall>a \<in> A. \<forall>d. objs s a = Some d \<longrightarrow> \<not> eligible s i d)
      else best b \<in> A \<and> (\<exists>m. objs s (best b) = Some m \<and> eligible s i m \<and> best_cost b = load m
             \<and> (\<forall>a \<in> A. \<forall>d. objs s a = Some d \<longrightarrow> eligible s i d \<longrightarrow> cost_le m d)))"

lemma find_best_object_eq:
  assumes "objs s a = Some d" "irqs s (info b) = Some i"
  shows "find_best_object s a b =
    (if \<not> eligible s i d then Some b
     else if load d < best_cost b then Some (b\<lparr>best := a, best_cost := load d\<rparr>)
     else if load d = best_cost b then map_option (\<lambda>bo.
        if glength (interrupts d) < glength (interrupts bo) then b\<lparr>best := a\<rparr> else b) (objs s (best b))
     else Some b)"
  using assms
  by (auto simp: find_best_object_def eligible_def Let_def map_option_case split: option.split)

lemma find_best_object_step:
  assumes "best_of s i A b" "irqs s (info b) = Some i" "objs s a = Some d" "a \<noteq> NULL" "load d \<noteq> ULLONG_MAX"
  shows "\<exists>b'. find_best_object s a b = Some b' \<and> best_of s i (insert a A) b' \<and> info b' = info b"
proof (cases "eligible s i d")
  case False
  with assms show ?thesis
    by (auto simp: find_best_object_eq best_of_def split: if_splits)
next
  case True
  show ?thesis
  proof (cases "best b = NULL")
    case True
    have "load d < ULLONG_MAX" using assms(5) by (simp add: ULLONG_MAX_def less_le)
    with True assms \<open>eligible s i d\<close> show ?thesis
      by (auto simp: find_best_object_eq best_of_def)
  next
    case False
    then obtain m where m: "objs s (best b) = Some m" "eligible s i m" "best_cost b = load m" "best b \<in> A"
      "\<forall>a \<in> A. \<forall>d. objs s a = Some d \<longrightarrow> eligible s i d \<longrightarrow> cost_le m d"
      using assms(1) by (auto simp: best_of_def)
    let ?r = "if load d < load m \<or> load d = load m \<and> glength (interrupts d) < glength (interrupts m)
      then b\<lparr>best := a, best_cost := load d\<rparr> else b"
    have r: "find_best_object s a b = Some ?r"
      using True m(1,3) assms(2,3) by (auto simp: find_best_object_eq)
    show ?thesis
    proof (cases "load d < load m \<or> load d = load m \<and> glength (interrupts d) < glength (interrupts m)")
      case better: True
      then have "cost_le d m" by (auto simp: cost_le_def)
      then have "\<forall>a' \<in> insert a A. \<forall>d'. objs s a' = Some d' \<longrightarrow> eligible s i d' \<longrightarrow> cost_le d d'"
        using m(5) assms(3) cost_le_trans by auto
      with r better assms(3,4) True show ?thesis by (auto simp: best_of_def)
    next
      case worse: False
      then have "cost_le m d" using cost_le_total by (auto simp: cost_le_def)
      then have "\<forall>a' \<in> insert a A. \<forall>d'. objs s a' = Some d' \<longrightarrow> eligible s i d' \<longrightarrow> cost_le m d'"
        using m(5) assms(3) by auto
      with r worse m False show ?thesis by (auto simp: best_of_def)
    qed
  qed
qed

lemma find_best_ok:
  assumes "irqs s ia = Some i" "\<forall>a \<in> set ds. a \<noteq> NULL \<and> (\<exists>d. objs s a = Some d \<and> load d \<noteq> ULLONG_MAX)"
  shows "\<exists>b. for_each_object ds (find_best_object s) \<lparr>best = NULL, best_cost = ULLONG_MAX, info = ia\<rparr> = Some b
    \<and> best_of s i (set ds) b"
proof -
  have "\<exists>b'. for_each (find_best_object s) ds b = Some b' \<and> best_of s i (set ds \<union> A) b'"
    if "best_of s i A b" "info b = ia" for A b
    using assms(2) that
  proof (induction ds arbitrary: A b)
    case (Cons a ds)
    then obtain d where d: "objs s a = Some d" "load d \<noteq> ULLONG_MAX" "a \<noteq> NULL" by auto
    obtain b1 where b1: "find_best_object s a b = Some b1" "best_of s i (insert a A) b1" "info b1 = ia"
      using find_best_object_step [OF Cons.prems(2) _ d(1,3,2)] assms(1) Cons.prems(3) by auto
    with Cons.IH [OF _ b1(2,3)] Cons.prems(1) show ?case by auto
  qed simp
  from this [of "{}" "\<lparr>best = NULL, best_cost = ULLONG_MAX, info = ia\<rparr>"]
  show ?thesis by (auto simp: best_of_def for_each_object_def)
qed


section \<open>Placing one irq\<close>

lemma settle_ok:
  assumes "wf_sys s" "a \<in> set (interrupts_db s)" "irqs s a = Some i"
    and "get_list (home (assigned_obj i)) s = Some xs" "a \<in> set xs"
    and "e \<noteq> NULL" "objs s e = Some oe"
  shows "\<exists>s1 s2 s3. migrate_irq (home (assigned_obj i)) (ObjIrqs e) a s = Some s1
    \<and> upd_irq a (\<lambda>i. i\<lparr>assigned_obj := e\<rparr>) s1 = Some s2
    \<and> irqs s2 a = Some (i\<lparr>moved := True, assigned_obj := e\<rparr>)
    \<and> upd_obj e (\<lambda>d. d\<lparr>load := load d + x\<rparr>) s2 = Some s3
    \<and> wf_sys s3 \<and> sys_shape s3 = sys_shape s \<and> irqs s3 = (irqs s)(a \<mapsto> i\<lparr>moved := True, assigned_obj := e\<rparr>)
    \<and> lists_after a (home (assigned_obj i)) (ObjIrqs e) s s3
    \<and> (\<forall>d. map_option load (objs s3 d) = (if d = e then Some (load oe + x) else map_option load (objs s d)))"
proof -
  have h: "home e = ObjIrqs e" using assms(6) by (simp add: home_def)
  obtain s1 s2 where s: "migrate_irq (home (assigned_obj i)) (ObjIrqs e) a s = Some s1"
    "upd_irq a (\<lambda>i. i\<lparr>assigned_obj := e\<rparr>) s1 = Some s2" "wf_sys s2" "sys_shape s2 = sys_shape s"
    "irqs s2 = (irqs s)(a \<mapsto> i\<lparr>moved := True, assigned_obj := e\<rparr>)"
    "lists_after a (home (assigned_obj i)) (ObjIrqs e) s s2"
    "\<forall>d. map_option load (objs s2 d) = map_option load (objs s d)"
    using relocate_ok [OF assms(1-5), of e] assms(7) unfolding h by auto
  obtain o2 where o2: "objs s2 e = Some o2" "load o2 = load oe"
    using s(7) [rule_format, of e] assms(7) by auto
  let ?s = "s2\<lparr>objs := (objs s2)(e \<mapsto> o2\<lparr>load := load o2 + x\<rparr>)\<rparr>"
  have "upd_obj e (\<lambda>d. d\<lparr>load := load d + x\<rparr>) s2 = Some ?s" using o2 by (simp add: upd_obj_Some)
  moreover have "get_list l ?s = get_list l s2" for l
    using o2 by (auto simp: get_list_def split: list_loc.split)
  then have "lists_after a (home (assigned_obj i)) (ObjIrqs e) s ?s"
    using s(6) unfolding lists_after_def by simp
  moreover have "\<forall>d. map_option load (objs ?s d) = (if d = e then Some (load oe + x) else map_option load (objs s d))"
    using s(7) o2 by auto
  moreover have "irqs s2 a = Some (i\<lparr>moved := True, assigned_obj := e\<rparr>)" using s(5) by simp
  moreover have "irqs ?s = (irqs s)(a \<mapsto> i\<lparr>moved := True, assigned_obj := e\<rparr>)" using s(5) by simp
  moreover have "wf_sys ?s" by (rule add_load_ok(1) [OF s(3) o2(1)])
  moreover have "sys_shape ?s = sys_shape s" using add_load_ok(2) [OF s(3) o2(1)] s(4) by simp
  ultimately show ?thesis using s(1,2) by (intro exI conjI)
qed

text \<open>All loads are bounded, and so never reach \<open>ULLONG_MAX\<close> during a placement round.\<close>

definition loads_le :: "sys \<Rightarrow> nat \<Rightarrow> bool" where
  "loads_le s B \<longleftrightarrow> (\<forall>a d. objs s a = Some d \<longrightarrow> unat (load d) \<le> B)"

definition irq_loads_lt :: "sys \<Rightarrow> nat \<Rightarrow> bool" where
  "irq_loads_lt s M \<longleftrightarrow> (\<forall>a \<in> set (interrupts_db s). \<forall>i. irqs s a = Some i \<longrightarrow> unat (i_load i) < M)"

text \<open>The invariant of a placement round that began in \<open>s0\<close>, after at most \<open>k\<close> placements.\<close>

definition pinv :: "sys \<Rightarrow> nat \<Rightarrow> nat \<Rightarrow> nat \<Rightarrow> sys \<Rightarrow> bool" where
  "pinv s0 L M k s \<longleftrightarrow> wf_sys s \<and> sys_shape s = sys_shape s0 \<and> irq_loads_lt s0 M \<and> loads_le s (L + k * M)"

lemma pinv_mono: "pinv s0 L M k s \<Longrightarrow> k \<le> k' \<Longrightarrow> pinv s0 L M k' s"
proof -
  assume *: "pinv s0 L M k s" "k \<le> k'"
  then have "L + k * M \<le> L + k' * M" by simp
  with *(1) show ?thesis unfolding pinv_def loads_le_def by (meson le_trans)
qed

lemma pinv_load:
  assumes "pinv s0 L M k s" "L + k * M < 2 ^ 64 - 1" "objs s a = Some d"
  shows "load d \<noteq> ULLONG_MAX"
proof
  assume "load d = ULLONG_MAX"
  then have "unat (load d) = 2 ^ 64 - 1" by (simp add: ULLONG_MAX_def unsigned_minus_1_eq_mask mask_eq_exp_minus_1)
  with assms show False by (force simp: pinv_def loads_le_def)
qed

lemma pinv_irq:
  assumes "pinv s0 L M k s" "a \<in> set (interrupts_db s)" "irqs s a = Some i"
  shows "unat (i_load i) < M"
proof -
  have sh: "sys_shape s0 = sys_shape s" using assms(1) by (simp add: pinv_def)
  obtain i' where i': "irqs s0 a = Some i'" "irq_shape i' = irq_shape i"
    by (rule shape_irq [OF sh assms(3)])
  then show ?thesis
    using assms(1,2) sys_shape_eqD(7) [OF sh] irq_shapeD(2) [OF i'(2)]
    by (auto simp: pinv_def irq_loads_lt_def)
qed

lemma unat_plus_le: "unat (a + b :: u64) \<le> unat a + unat b"
  by (simp add: unat_word_ariths)

lemma pinv_settle:
  assumes "pinv s0 L M k s" "wf_sys s'" "sys_shape s' = sys_shape s" "unat x \<le> M" "objs s e = Some oe"
    and "\<forall>d. map_option load (objs s' d) = (if d = e then Some (load oe + x) else map_option load (objs s d))"
  shows "pinv s0 L M (Suc k) s'"
proof -
  have l: "\<And>a d. objs s a = Some d \<Longrightarrow> unat (load d) \<le> L + k * M"
    using assms(1) by (auto simp: pinv_def loads_le_def)
  have "unat (load d) \<le> L + Suc k * M" if d: "objs s' a = Some d" for a d
  proof (cases "a = e")
    case True
    then have "load d = load oe + x" using assms(6) [rule_format, of e] d by simp
    then show ?thesis using unat_plus_le [of "load oe" x] l [OF assms(5)] assms(4) by simp
  next
    case False
    then obtain d0 where "objs s a = Some d0" "load d = load d0"
      using assms(6) [rule_format, of a] d by (cases "objs s a") auto
    with l [OF this(1)] show ?thesis by simp
  qed
  with assms(1-3) show ?thesis by (auto simp: pinv_def loads_le_def)
qed


text \<open>Irqs other than the one that moved stay where they are.\<close>

lemma lists_after_others:
  assumes "lists_after a f t s s'" "ok_lists s" "get_list l s = Some xs"
  shows "\<exists>ys. get_list l s' = Some ys \<and> (\<forall>b. b \<noteq> a \<longrightarrow> (b \<in> set ys \<longleftrightarrow> b \<in> set xs))"
proof -
  obtain ys where ys: "get_list l s' = Some ys" using lists_after_None [OF assms(1), of l] assms(3) by auto
  have "distinct xs" using ok_lists_list [OF assms(2,3)] by simp
  from lists_after_mem(1) [OF assms(1,3) ys this] show ?thesis using ys by auto
qed

definition on_list :: "list_loc \<Rightarrow> addr list \<Rightarrow> sys \<Rightarrow> bool" where
  "on_list l as s \<longleftrightarrow> distinct as \<and> (\<exists>xs. get_list l s = Some xs \<and> set as \<subseteq> set xs)"

lemma on_list_after:
  assumes "lists_after a f t s s'" "ok_lists s" "on_list l (a # as) s"
  shows "on_list l as s'"
proof -
  obtain xs where xs: "get_list l s = Some xs" "set (a # as) \<subseteq> set xs" "distinct (a # as)"
    using assms(3) by (auto simp: on_list_def)
  show ?thesis using lists_after_others [OF assms(1,2) xs(1)] xs(2,3) by (fastforce simp: on_list_def)
qed

lemma on_list_irq:
  assumes "wf_sys s" "on_list (home d) (a # as) s"
  obtains i xs where "a \<in> set (interrupts_db s)" "irqs s a = Some i" "assigned_obj i = d"
    "get_list (home d) s = Some xs" "a \<in> set xs"
proof -
  have w: "ok_irqs s" "ok_lists s" using assms(1) by (simp_all add: wf_sys_def)
  obtain xs where xs: "get_list (home d) s = Some xs" "a \<in> set xs" using assms(2) by (auto simp: on_list_def)
  have db: "a \<in> set (interrupts_db s)" using ok_lists_list [OF w(2) xs(1)] xs(2) by auto
  obtain i where i: "irqs s a = Some i" by (rule ok_irqs_valid [OF w(1) db])
  have "assigned_obj i = d"
    using ok_listsD(2,3) [OF w(2) db i] xs by (cases "d = NULL") (auto simp: home_def get_list_def)
  with that db i xs show thesis by blast
qed

lemma pinv_null: "pinv s0 L M k s \<Longrightarrow> objs s NULL = None"
  by (simp add: pinv_def wf_sys_def ok_irqs_def)

lemma candidates_ok:
  assumes "pinv s0 L M k s" "L + k * M < 2 ^ 64 - 1" "\<forall>a \<in> set ds. objs s a \<noteq> None"
  shows "\<forall>a \<in> set ds. a \<noteq> NULL \<and> (\<exists>d. objs s a = Some d \<and> load d \<noteq> ULLONG_MAX)"
proof
  fix a assume "a \<in> set ds"
  then obtain d where d: "objs s a = Some d" using assms(3) by auto
  with pinv_null [OF assms(1)] have "a \<noteq> NULL" by (cases "a = NULL") auto
  with d pinv_load [OF assms(1,2) d] show "a \<noteq> NULL \<and> (\<exists>d. objs s a = Some d \<and> load d \<noteq> ULLONG_MAX)" by blast
qed

text \<open>An irq on an object either stays, and then for one of three reasons, or goes to a child.\<close>

definition pushes :: "addr \<Rightarrow> addr \<Rightarrow> sys \<Rightarrow> sys \<Rightarrow> bool" where
  "pushes d a s s' \<longleftrightarrow> (\<exists>i od. irqs s a = Some i \<and> objs s d = Some od \<and> assigned_obj i = d
     \<and> (irqs s' = irqs s \<and> (\<not> moved i \<or> stops_at (obj_type od) (level i)
          \<or> (\<forall>c \<in> set (children od). \<forall>e. objs s c = Some e \<longrightarrow> \<not> eligible s i e))
        \<or> moved i \<and> \<not> stops_at (obj_type od) (level i)
          \<and> (\<exists>c \<in> set (children od). irqs s' = (irqs s)(a \<mapsto> i\<lparr>moved := True, assigned_obj := c\<rparr>))))"

text \<open>An irq of the rebalance list goes to a numa node, unless none is eligible.\<close>

definition enters :: "addr \<Rightarrow> sys \<Rightarrow> sys \<Rightarrow> bool" where
  "enters a s s' \<longleftrightarrow> (\<exists>i. irqs s a = Some i
     \<and> (irqs s' = irqs s \<and> (level i = BALANCE_NONE \<or> (\<forall>n \<in> set (numa_nodes s). \<forall>d. objs s n = Some d \<longrightarrow> \<not> eligible s i d))
        \<or> (\<exists>c \<in> insert (numa_node i) (set (numa_nodes s)). irqs s' = (irqs s)(a \<mapsto> i\<lparr>moved := True, assigned_obj := c\<rparr>))))"

lemma find_best_object_for_irq_ok:
  assumes p: "pinv s0 L M k s" and b: "L + k * M < 2 ^ 64 - 1"
    and d: "d \<noteq> NULL" and l: "on_list (ObjIrqs d) (a # as) s"
  shows "\<exists>s'. find_best_object_for_irq d a s = Some s' \<and> pinv s0 L M (Suc k) s' \<and> on_list (ObjIrqs d) as s'
    \<and> pushes d a s s'"
proof -
  have w: "wf_sys s" "ok_lists s" "ok_tree s" using p by (simp_all add: pinv_def wf_sys_def)
  have h: "home d = ObjIrqs d" using d by (simp add: home_def)
  obtain i xs where i: "a \<in> set (interrupts_db s)" "irqs s a = Some i" "assigned_obj i = d"
    "get_list (home d) s = Some xs" "a \<in> set xs"
    by (rule on_list_irq [OF w(1), of d a as]) (use l h in auto)
  obtain od where od: "objs s d = Some od" using i(4) h by (auto simp: get_list_def)
  have stay: "pinv s0 L M (Suc k) s" "on_list (ObjIrqs d) as s"
    using pinv_mono [OF p] l by (auto simp: on_list_def)
  have ch: "\<forall>c \<in> set (children od). objs s c \<noteq> None" using w(3) od unfolding ok_tree_def by blast
  obtain pl where pl: "for_each_object (children od) (find_best_object s)
      \<lparr>best = NULL, best_cost = ULLONG_MAX, info = a\<rparr> = Some pl" "best_of s i (set (children od)) pl"
    using find_best_ok [OF i(2) candidates_ok [OF p b ch]] by blast
  consider "\<not> moved i \<or> stops_at (obj_type od) (level i) \<or> best pl = NULL"
    | "moved i" "\<not> stops_at (obj_type od) (level i)" "best pl \<noteq> NULL" by blast
  then show ?thesis
  proof cases
    case 1
    then have "find_best_object_for_irq d a s = Some s"
      using i(2) od pl(1) by (auto simp: find_best_object_for_irq_def Let_def)
    moreover have "pushes d a s s"
      using i(2,3) od 1 pl(2) by (auto simp: pushes_def best_of_def split: if_splits)
    ultimately show ?thesis using stay by blast
  next
    case 2
    obtain oe where oe: "objs s (best pl) = Some oe" using pl(2) 2(3) by (auto simp: best_of_def)
    obtain s1 s2 s3 where s: "migrate_irq (home d) (ObjIrqs (best pl)) a s = Some s1"
      "upd_irq a (\<lambda>i. i\<lparr>assigned_obj := best pl\<rparr>) s1 = Some s2"
      "irqs s2 a = Some (i\<lparr>moved := True, assigned_obj := best pl\<rparr>)"
      "upd_obj (best pl) (\<lambda>d. d\<lparr>load := load d + i_load i\<rparr>) s2 = Some s3" "wf_sys s3" "sys_shape s3 = sys_shape s"
      "lists_after a (home d) (ObjIrqs (best pl)) s s3"
      "\<forall>d. map_option load (objs s3 d) = (if d = best pl then Some (load oe + i_load i) else map_option load (objs s d))"
      "irqs s3 = (irqs s)(a \<mapsto> i\<lparr>moved := True, assigned_obj := best pl\<rparr>)"
      using settle_ok [OF w(1) i(1,2) _ i(5) 2(3) oe, of "i_load i"] i(3,4) by auto
    have "find_best_object_for_irq d a s = Some s3"
      using i(2) od pl(1) 2 s(1-4) h by (simp add: find_best_object_for_irq_def Let_def)
    moreover have "unat (i_load i) \<le> M" using pinv_irq [OF p i(1,2)] by simp
    then have "pinv s0 L M (Suc k) s3" using pinv_settle [OF p s(5,6) _ oe s(8)] by blast
    moreover have "on_list (ObjIrqs d) as s3" using on_list_after [OF s(7) w(2) l] .
    moreover have "best pl \<in> set (children od)" using pl(2) 2(3) by (simp add: best_of_def)
    then have "pushes d a s s3" using i(2,3) od 2(1,2) s(9) unfolding pushes_def by blast
    ultimately show ?thesis by blast
  qed
qed


section \<open>A placement round\<close>

lemma find_placement_ok:
  assumes p: "pinv s0 L M k s" and b: "L + k * M < 2 ^ 64 - 1" and l: "on_list Rebalance (a # as) s"
  shows "\<exists>s'. find_placement a s = Some s' \<and> pinv s0 L M (Suc k) s' \<and> on_list Rebalance as s' \<and> enters a s s'"
proof -
  have w: "wf_sys s" "ok_lists s" "ok_tree s" using p by (simp_all add: pinv_def wf_sys_def)
  have h: "home NULL = Rebalance" by (simp add: home_def)
  obtain i xs where i: "a \<in> set (interrupts_db s)" "irqs s a = Some i" "assigned_obj i = NULL"
    "get_list (home NULL) s = Some xs" "a \<in> set xs"
    by (rule on_list_irq [OF w(1), of NULL a as]) (use l h in auto)
  have nn: "\<forall>d \<in> set (numa_nodes s). objs s d \<noteq> None" using w(3) unfolding ok_tree_def by blast
  obtain pl where pl: "for_each_object (numa_nodes s) (find_best_object s)
      \<lparr>best = NULL, best_cost = ULLONG_MAX, info = a\<rparr> = Some pl" "best_of s i (set (numa_nodes s)) pl"
    using find_best_ok [OF i(2) candidates_ok [OF p b nn]] by blast
  show ?thesis
  proof (cases "best pl = NULL")
    case True
    then have "find_placement a s = Some s" using pl(1) by (simp add: find_placement_def Let_def)
    moreover have "enters a s s" using i(2) pl(2) True by (simp add: enters_def best_of_def)
    ultimately show ?thesis using pinv_mono [OF p, of "Suc k"] l by (auto simp: on_list_def)
  next
    case False
    obtain oe where oe: "objs s (best pl) = Some oe" using pl(2) False by (auto simp: best_of_def)
    obtain s1 s2 s3 where s: "migrate_irq (home NULL) (ObjIrqs (best pl)) a s = Some s1"
      "upd_irq a (\<lambda>i. i\<lparr>assigned_obj := best pl\<rparr>) s1 = Some s2"
      "irqs s2 a = Some (i\<lparr>moved := True, assigned_obj := best pl\<rparr>)"
      "upd_obj (best pl) (\<lambda>d. d\<lparr>load := load d + i_load i\<rparr>) s2 = Some s3" "wf_sys s3" "sys_shape s3 = sys_shape s"
      "lists_after a (home NULL) (ObjIrqs (best pl)) s s3"
      "\<forall>d. map_option load (objs s3 d) = (if d = best pl then Some (load oe + i_load i) else map_option load (objs s d))"
      "irqs s3 = (irqs s)(a \<mapsto> i\<lparr>moved := True, assigned_obj := best pl\<rparr>)"
      using settle_ok [OF w(1) i(1,2) _ i(5) False oe, of "i_load i"] i(3,4) by auto
    have "find_placement a s = Some s3"
      using pl(1) False s(1-4) h by (simp add: find_placement_def Let_def)
    moreover have "unat (i_load i) \<le> M" using pinv_irq [OF p i(1,2)] by simp
    then have "pinv s0 L M (Suc k) s3" using pinv_settle [OF p s(5,6) _ oe s(8)] by blast
    moreover have "on_list Rebalance as s3" using on_list_after [OF s(7) w(2) l] .
    moreover have "best pl \<in> set (numa_nodes s)" using pl(2) False by (simp add: best_of_def)
    then have "enters a s s3" using i(2) s(9) unfolding enters_def by blast
    ultimately show ?thesis by blast
  qed
qed

text \<open>The last case of \<open>place_irq_in_node\<close>: the irq goes to its own node.\<close>

lemma enter_own_node:
  assumes p: "pinv s0 L M k s" and l: "on_list Rebalance (a # as) s"
    and i: "a \<in> set (interrupts_db s)" "irqs s a = Some i" "assigned_obj i = NULL"
      "get_list (home NULL) s = Some xs" "a \<in> set xs"
    and nd: "objs s (numa_node i) = Some nd" "number nd \<noteq> -1" "cpus_intersects (mask nd) (unbanned_cpus s)"
    and lv: "\<not> (level i = BALANCE_NONE \<and> cpus_empty (banned_cpus s))"
  shows "\<exists>s'. place_irq_in_node a s = Some s' \<and> pinv s0 L M (Suc k) s' \<and> on_list Rebalance as s' \<and> enters a s s'"
proof -
  have w: "wf_sys s" "ok_lists s" using p by (simp_all add: pinv_def wf_sys_def)
  have h: "home NULL = Rebalance" by (simp add: home_def)
  have e: "numa_node i \<noteq> NULL" using pinv_null [OF p] nd(1) by (cases "numa_node i = NULL") auto
  obtain s1 s2 s3 where s: "migrate_irq (home NULL) (ObjIrqs (numa_node i)) a s = Some s1"
    "upd_irq a (\<lambda>j. j\<lparr>assigned_obj := numa_node i\<rparr>) s1 = Some s2"
    "irqs s2 a = Some (i\<lparr>moved := True, assigned_obj := numa_node i\<rparr>)"
    "upd_obj (numa_node i) (\<lambda>d. d\<lparr>load := load d + (i_load i + 1)\<rparr>) s2 = Some s3" "wf_sys s3"
    "sys_shape s3 = sys_shape s" "lists_after a (home NULL) (ObjIrqs (numa_node i)) s s3"
    "\<forall>d. map_option load (objs s3 d)
      = (if d = numa_node i then Some (load nd + (i_load i + 1)) else map_option load (objs s d))"
    "irqs s3 = (irqs s)(a \<mapsto> i\<lparr>moved := True, assigned_obj := numa_node i\<rparr>)"
    using settle_ok [OF w(1) i(1,2) _ i(5) e nd(1), of "i_load i + 1"] i(3,4) by auto
  obtain j where j: "irqs s1 a = Some j" using s(2) by (auto simp: upd_irq_def split: option.splits)
  moreover have "s2 = s1\<lparr>irqs := (irqs s1)(a \<mapsto> j\<lparr>assigned_obj := numa_node i\<rparr>)\<rparr>"
    using s(2) j by (simp add: upd_irq_def)
  ultimately have nj: "numa_node j = numa_node i" using s(3) by (cases j; cases i) simp
  then have "upd_irq a (\<lambda>j. j\<lparr>assigned_obj := numa_node j\<rparr>) s1 = Some s2"
    using s(2) j by (simp add: upd_irq_def)
  then have "place_irq_in_node a s = Some s3"
    using i(2) nd lv s(1,3,4) h by (auto simp: place_irq_in_node_def)
  moreover have "unat (i_load i + 1) \<le> M"
    using pinv_irq [OF p i(1,2)] unat_plus_le [of "i_load i" 1] by simp
  then have "pinv s0 L M (Suc k) s3" using pinv_settle [OF p s(5,6) _ nd(1) s(8)] by blast
  moreover have "on_list Rebalance as s3" using on_list_after [OF s(7) w(2) l] .
  moreover have "enters a s s3" using i(2) s(9) unfolding enters_def by blast
  ultimately show ?thesis by blast
qed

lemma place_irq_in_node_ok:
  assumes p: "pinv s0 L M k s" and b: "L + k * M < 2 ^ 64 - 1" and l: "on_list Rebalance (a # as) s"
  shows "\<exists>s'. place_irq_in_node a s = Some s' \<and> pinv s0 L M (Suc k) s' \<and> on_list Rebalance as s' \<and> enters a s s'"
proof -
  have w: "wf_sys s" "ok_irqs s" using p by (simp_all add: pinv_def wf_sys_def)
  have h: "home NULL = Rebalance" by (simp add: home_def)
  obtain i xs where i: "a \<in> set (interrupts_db s)" "irqs s a = Some i" "assigned_obj i = NULL"
    "get_list (home NULL) s = Some xs" "a \<in> set xs"
    by (rule on_list_irq [OF w(1), of NULL a as]) (use l h in auto)
  obtain nd where nd: "objs s (numa_node i) = Some nd"
    using ok_irqs_valid [OF w(2) i(1)] i(2) by (metis not_None_eq option.inject)
  consider "level i = BALANCE_NONE \<and> cpus_empty (banned_cpus s)"
    | "\<not> (level i = BALANCE_NONE \<and> cpus_empty (banned_cpus s))"
      "number nd = -1 \<or> \<not> cpus_intersects (mask nd) (unbanned_cpus s)"
    | "\<not> (level i = BALANCE_NONE \<and> cpus_empty (banned_cpus s))"
      "number nd \<noteq> -1" "cpus_intersects (mask nd) (unbanned_cpus s)" by blast
  then show ?thesis
  proof cases
    case 1
    then have "place_irq_in_node a s = Some s" using i(2) by (simp add: place_irq_in_node_def)
    moreover have "enters a s s" using i(2) 1 by (simp add: enters_def)
    ultimately show ?thesis using pinv_mono [OF p, of "Suc k"] l by (auto simp: on_list_def)
  next
    case 2
    then have "place_irq_in_node a s = find_placement a s"
      using i(2) nd by (auto simp: place_irq_in_node_def)
    with find_placement_ok [OF p b l] show ?thesis by simp
  next
    case 3
    then show ?thesis using enter_own_node [OF p l i nd] by blast
  qed
qed

lemma for_each_place:
  assumes step: "\<And>k a as s. pinv s0 L M k s \<Longrightarrow> L + k * M < 2 ^ 64 - 1 \<Longrightarrow> on_list loc (a # as) s \<Longrightarrow> Q (a # as) s \<Longrightarrow>
      \<exists>s'. cb a s = Some s' \<and> pinv s0 L M (Suc k) s' \<and> on_list loc as s' \<and> Q as s'"
    and "pinv s0 L M k s" "on_list loc as s" "Q as s" "L + (k + length as) * M < 2 ^ 64 - 1"
  shows "\<exists>s'. for_each cb as s = Some s' \<and> pinv s0 L M (k + length as) s' \<and> Q [] s'"
  using assms(2-5)
proof (induction as arbitrary: k s)
  case (Cons a as)
  have "L + k * M \<le> L + (k + length (a # as)) * M" by (simp only: add_le_cancel_left mult_le_mono1 le_add1)
  then have "L + k * M < 2 ^ 64 - 1" using Cons.prems(4) by (rule le_less_trans)
  then obtain t where t: "cb a s = Some t" "pinv s0 L M (Suc k) t" "on_list loc as t" "Q as t"
    using step [OF Cons.prems(1) _ Cons.prems(2,3)] by blast
  with Cons.IH [OF t(2-4)] Cons.prems(4) show ?case by auto
qed simp

lemma glength_0: "length xs < 2 ^ 32 \<Longrightarrow> 0 < glength xs \<longleftrightarrow> xs \<noteq> []"
proof -
  assume "length xs < 2 ^ 32"
  then have "unat (glength xs) = length xs" by (simp add: glength_def unat_of_nat)
  then show ?thesis by (metis length_greater_0_conv unat_0 unat_gt_0 word_gt_0)
qed

lemma list_length_db:
  assumes "wf_sys s" "get_list l s = Some xs"
  shows "length xs \<le> length (interrupts_db s)" "length xs < 2 ^ 32"
proof -
  have "distinct xs" "set xs \<subseteq> set (interrupts_db s)" "distinct (interrupts_db s)" "length (interrupts_db s) < 2 ^ 32"
    using assms ok_lists_list by (auto simp: wf_sys_def ok_irqs_def)
  then show "length xs \<le> length (interrupts_db s)" by (metis card_mono distinct_card finite_set)
  then show "length xs < 2 ^ 32" using \<open>length (interrupts_db s) < 2 ^ 32\<close> by simp
qed

text \<open>
  How far irqs have been pushed down. An object at depth \<open>k\<close> is where irqs of level \<open>k\<close> belong. A tree
  is \<open>ready\<close> down to depth \<open>K\<close> when the children of an object are one level below it, every object is on
  the list of its type, the irqs have a level and a node, and every irq finds an eligible node and, on
  every object down to depth \<open>K\<close>, an eligible child.
\<close>

definition depth :: "obj_type_e \<Rightarrow> int" where
  "depth t = (case t of OBJ_TYPE_NODE \<Rightarrow> 0 | OBJ_TYPE_PACKAGE \<Rightarrow> 1 | OBJ_TYPE_CACHE \<Rightarrow> 2 | OBJ_TYPE_CPU \<Rightarrow> 3)"

lemma stops_at_depth: "stops_at t l \<longleftrightarrow> l = depth t"
  by (cases t) (simp_all add: stops_at_def depth_def)

definition ready :: "int \<Rightarrow> sys \<Rightarrow> bool" where
  "ready K s \<longleftrightarrow> (\<forall>a d. objs s a = Some d \<longrightarrow>
       (\<forall>c \<in> set (children d). \<forall>e. objs s c = Some e \<longrightarrow> depth (obj_type e) = depth (obj_type d) + 1)
       \<and> (a \<in> set (numa_nodes s) \<longleftrightarrow> obj_type d = OBJ_TYPE_NODE) \<and> (a \<in> set (packages s) \<longleftrightarrow> obj_type d = OBJ_TYPE_PACKAGE)
       \<and> (a \<in> set (cache_domains s) \<longleftrightarrow> obj_type d = OBJ_TYPE_CACHE))
     \<and> (\<forall>a \<in> set (interrupts_db s). \<forall>i. irqs s a = Some i \<longrightarrow> 0 \<le> level i \<and> level i \<le> 3 \<and> numa_node i \<in> set (numa_nodes s)
       \<and> (\<exists>n \<in> set (numa_nodes s). \<exists>d. objs s n = Some d \<and> eligible s i d)
       \<and> (\<forall>x d. objs s x = Some d \<longrightarrow> depth (obj_type d) \<le> K \<longrightarrow>
            (\<exists>c \<in> set (children d). \<exists>e. objs s c = Some e \<and> eligible s i e)))"

text \<open>
  Every moved irq is at its level or deeper than \<open>K\<close>, but for those in \<open>T\<close> and those on the objects \<open>D\<close>;
  no other irq is on a numa node. With \<open>\<beta>\<close>, moreover, no moved irq is below its level, the other irqs
  are at their level, and all irqs that are to be balanced are assigned, but for those in \<open>T\<close>.
\<close>

definition irq_settled :: "bool \<Rightarrow> int \<Rightarrow> addr set \<Rightarrow> addr set \<Rightarrow> sys \<Rightarrow> addr \<Rightarrow> irq_info \<Rightarrow> bool" where
  "irq_settled \<beta> K D T s a i \<longleftrightarrow>
     (\<beta> \<longrightarrow> level i \<noteq> BALANCE_NONE \<longrightarrow> assigned_obj i = NULL \<longrightarrow> a \<in> T)
     \<and> (\<forall>d. objs s (assigned_obj i) = Some d \<longrightarrow>
          (if moved i then (\<beta> \<longrightarrow> depth (obj_type d) \<le> level i)
             \<and> (depth (obj_type d) = level i \<or> K < depth (obj_type d) \<or> a \<in> T \<or> assigned_obj i \<in> D)
           else 0 < depth (obj_type d) \<and> (\<beta> \<longrightarrow> depth (obj_type d) = level i)))"

definition settled :: "bool \<Rightarrow> int \<Rightarrow> addr set \<Rightarrow> addr set \<Rightarrow> sys \<Rightarrow> bool" where
  "settled \<beta> K D T s \<longleftrightarrow> (\<forall>a \<in> set (interrupts_db s). \<forall>i. irqs s a = Some i \<longrightarrow> irq_settled \<beta> K D T s a i)"

lemma shape_orig:
  assumes "sys_shape s' = sys_shape s"
  shows "objs s' x = Some d' \<Longrightarrow> \<exists>d. objs s x = Some d \<and> obj_shape d' = obj_shape d"
    "irqs s' a = Some i' \<Longrightarrow> \<exists>i. irqs s a = Some i \<and> irq_shape i' = irq_shape i"
  by (metis shape_obj [OF assms [symmetric]], metis shape_irq [OF assms [symmetric]])

lemma eligible_shape:
  assumes "sys_shape s' = sys_shape s" "obj_shape d' = obj_shape d" "irq_shape i' = irq_shape i"
  shows "eligible s' i' d' = eligible s i d"
proof -
  have "numa_avail s' = numa_avail s" "unbanned_cpus s' = unbanned_cpus s" using assms(1) by (metis sys_shape_fields)+
  then show ?thesis using obj_shapeD [OF assms(2)] irq_shapeD [OF assms(3)] by (simp add: eligible_def)
qed

lemma ready_shape:
  assumes sh: "sys_shape s' = sys_shape s" and r: "ready K s"
  shows "ready K s'"
  unfolding ready_def sys_shape_eqD(3-7) [OF sh]
proof (intro conjI allI ballI impI)
  fix a d' assume "objs s' a = Some d'"
  then obtain d where d: "objs s a = Some d" "obj_shape d' = obj_shape d" using shape_orig(1) [OF sh] by blast
  note r1 = r [unfolded ready_def, THEN conjunct1, rule_format, OF d(1)]
  show "a \<in> set (numa_nodes s) \<longleftrightarrow> obj_type d' = OBJ_TYPE_NODE" "a \<in> set (packages s) \<longleftrightarrow> obj_type d' = OBJ_TYPE_PACKAGE"
    "a \<in> set (cache_domains s) \<longleftrightarrow> obj_type d' = OBJ_TYPE_CACHE"
    using r1 obj_shapeD(3) [OF d(2)] by simp_all
  fix c e' assume c: "c \<in> set (children d')" "objs s' c = Some e'"
  then obtain e where e: "objs s c = Some e" "obj_shape e' = obj_shape e" using shape_orig(1) [OF sh] by blast
  have "c \<in> set (children d)" using c(1) obj_shapeD(1) [OF d(2)] by simp
  then have "depth (obj_type e) = depth (obj_type d) + 1" using r1 e(1) by blast
  then show "depth (obj_type e') = depth (obj_type d') + 1"
    unfolding obj_shapeD(3) [OF d(2)] obj_shapeD(3) [OF e(2)] .
next
  fix a i' assume a: "a \<in> set (interrupts_db s)" "irqs s' a = Some i'"
  then obtain i where i: "irqs s a = Some i" "irq_shape i' = irq_shape i" using shape_orig(2) [OF sh] by blast
  note r2 = r [unfolded ready_def, THEN conjunct2, rule_format, OF a(1) i(1)]
  show "0 \<le> level i'" "level i' \<le> 3" "numa_node i' \<in> set (numa_nodes s)" using r2 irq_shapeD(3,4) [OF i(2)] by simp_all
  obtain n d where n: "n \<in> set (numa_nodes s)" "objs s n = Some d" "eligible s i d" using r2 by blast
  obtain d' where d': "objs s' n = Some d'" "obj_shape d' = obj_shape d" by (rule shape_obj [OF sh n(2)])
  show "\<exists>n \<in> set (numa_nodes s). \<exists>d. objs s' n = Some d \<and> eligible s' i' d"
    using n(1,3) d' eligible_shape [OF sh d'(2) i(2)] by auto
  fix x d' assume x: "objs s' x = Some d'" "depth (obj_type d') \<le> K"
  then obtain d where d: "objs s x = Some d" "obj_shape d' = obj_shape d" using shape_orig(1) [OF sh] by blast
  have "depth (obj_type d) \<le> K" using x(2) obj_shapeD(3) [OF d(2)] by simp
  with r2 d(1) obtain c e where c: "c \<in> set (children d)" "objs s c = Some e" "eligible s i e" by blast
  obtain e' where e': "objs s' c = Some e'" "obj_shape e' = obj_shape e" by (rule shape_obj [OF sh c(2)])
  show "\<exists>c \<in> set (children d'). \<exists>e. objs s' c = Some e \<and> eligible s' i' e"
    using c(1,3) e' obj_shapeD(1) [OF d(2)] eligible_shape [OF sh e'(2) i(2)] by auto
qed

lemma settled_irq: "settled \<beta> K D T s \<Longrightarrow> a \<in> set (interrupts_db s) \<Longrightarrow> irqs s a = Some i \<Longrightarrow> irq_settled \<beta> K D T s a i"
  by (simp add: settled_def)

lemma irq_settled_shape:
  assumes sh: "sys_shape s' = sys_shape s" and i: "irq_settled \<beta> K D T s a i"
  shows "irq_settled \<beta> K D T s' a i"
  unfolding irq_settled_def
proof (intro conjI allI impI)
  show "a \<in> T" if "\<beta>" "level i \<noteq> BALANCE_NONE" "assigned_obj i = NULL" using i that by (simp add: irq_settled_def)
  fix d' assume "objs s' (assigned_obj i) = Some d'"
  then obtain d where d: "objs s (assigned_obj i) = Some d" "obj_shape d' = obj_shape d" using shape_orig(1) [OF sh] by blast
  from i d(1) show "if moved i then (\<beta> \<longrightarrow> depth (obj_type d') \<le> level i)
      \<and> (depth (obj_type d') = level i \<or> K < depth (obj_type d') \<or> a \<in> T \<or> assigned_obj i \<in> D)
    else 0 < depth (obj_type d') \<and> (\<beta> \<longrightarrow> depth (obj_type d') = level i)"
    unfolding irq_settled_def obj_shapeD(3) [OF d(2)] by blast
qed

lemma irq_settled_mono:
  assumes "irq_settled \<beta> K D T s a i" "J \<le> K" "D \<subseteq> D'" "a \<in> T \<Longrightarrow> a \<in> T'"
  shows "irq_settled \<beta> J D' T' s a i"
  using assms unfolding irq_settled_def by (smt (verit) subsetD)

lemma settled_mono: "settled \<beta> K D T s \<Longrightarrow> J \<le> K \<Longrightarrow> D \<subseteq> D' \<Longrightarrow> T \<subseteq> T' \<Longrightarrow> settled \<beta> J D' T' s"
  unfolding settled_def using irq_settled_mono by (meson subsetD)

text \<open>One irq changes, and is settled afterwards.\<close>

lemma settled_step:
  assumes st: "settled \<beta> K D T s" and sh: "sys_shape s' = sys_shape s" and T: "T \<subseteq> insert a T'"
    and b: "\<And>b. b \<noteq> a \<Longrightarrow> irqs s' b = irqs s b" and i: "\<And>i. irqs s' a = Some i \<Longrightarrow> irq_settled \<beta> K D T' s a i"
  shows "settled \<beta> K D T' s'"
  unfolding settled_def sys_shape_eqD(7) [OF sh]
proof (intro ballI allI impI)
  fix x j assume x: "x \<in> set (interrupts_db s)" "irqs s' x = Some j"
  have "irq_settled \<beta> K D T' s x j"
  proof (cases "x = a")
    case True
    with i x(2) show ?thesis by simp
  next
    case False
    with b x(2) have "irqs s x = Some j" by simp
    from settled_irq [OF st x(1) this] show ?thesis by (rule irq_settled_mono) (use T False in auto)
  qed
  then show "irq_settled \<beta> K D T' s' x j" by (rule irq_settled_shape [OF sh])
qed

lemma settled_push:
  assumes st: "settled \<beta> K D (insert a T) s" and sh: "sys_shape s' = sys_shape s" and w: "wf_sys s" and r: "ready K s"
    and p: "pushes d a s s'" and a: "a \<in> set (interrupts_db s)" and d: "objs s d = Some od" "K \<le> depth (obj_type od)"
  shows "settled \<beta> K D T s'"
proof -
  have n: "objs s NULL = None" using w by (simp add: wf_sys_def ok_irqs_def)
  obtain i where i: "irqs s a = Some i" "assigned_obj i = d"
    and c: "irqs s' = irqs s \<and> (\<not> moved i \<or> stops_at (obj_type od) (level i)
          \<or> (\<forall>c \<in> set (children od). \<forall>e. objs s c = Some e \<longrightarrow> \<not> eligible s i e))
        \<or> moved i \<and> \<not> stops_at (obj_type od) (level i)
          \<and> (\<exists>c \<in> set (children od). irqs s' = (irqs s)(a \<mapsto> i\<lparr>moved := True, assigned_obj := c\<rparr>))"
    using p d(1) unfolding pushes_def by auto
  have d0: "d \<noteq> NULL" using n d(1) by (cases "d = NULL") auto
  have si: "irq_settled \<beta> K D (insert a T) s a i" by (rule settled_irq [OF st a i(1)])
  have stay: "irq_settled \<beta> K D T s a i" if "\<not> moved i \<or> depth (obj_type od) = level i \<or> K < depth (obj_type od)"
    using si that d d0 i(2) by (auto simp: irq_settled_def)
  from c show ?thesis
  proof (elim disjE conjE bexE)
    assume "irqs s' = irqs s" "\<not> moved i"
    then show ?thesis using i stay by (intro settled_step [OF st sh]) auto
  next
    assume "irqs s' = irqs s" "stops_at (obj_type od) (level i)"
    then show ?thesis using i stay by (intro settled_step [OF st sh]) (auto simp: stops_at_depth)
  next
    assume eq: "irqs s' = irqs s" and no: "\<forall>c \<in> set (children od). \<forall>e. objs s c = Some e \<longrightarrow> \<not> eligible s i e"
    have "\<not> depth (obj_type od) \<le> K"
      using r [unfolded ready_def, THEN conjunct2, rule_format, OF a i(1)] d(1) no by blast
    then show ?thesis using eq i stay by (intro settled_step [OF st sh]) auto
  next
    fix c assume m: "moved i" "\<not> stops_at (obj_type od) (level i)" "c \<in> set (children od)"
      and eq: "irqs s' = (irqs s)(a \<mapsto> i\<lparr>moved := True, assigned_obj := c\<rparr>)"
    have dc: "depth (obj_type e) = depth (obj_type od) + 1" if "objs s c = Some e" for e
      using r [unfolded ready_def, THEN conjunct1, rule_format, OF d(1)] m(3) that by blast
    have "objs s c \<noteq> None" using w d(1) m(3) unfolding wf_sys_def ok_tree_def by blast
    with n have "c \<noteq> NULL" by (cases "c = NULL") auto
    moreover have "\<beta> \<longrightarrow> depth (obj_type od) < level i"
      using si m(1,2) d(1) i(2) by (auto simp: irq_settled_def stops_at_depth)
    ultimately have "irq_settled \<beta> K D T s a (i\<lparr>moved := True, assigned_obj := c\<rparr>)"
      using d(2) dc by (auto simp: irq_settled_def)
    then show ?thesis using eq by (intro settled_step [OF st sh]) auto
  qed
qed

lemma settled_enter:
  assumes st: "settled \<beta> (-1) {} (insert a T) s" and sh: "sys_shape s' = sys_shape s" and w: "wf_sys s" and r: "ready K s"
    and p: "enters a s s'" and a: "a \<in> set (interrupts_db s)"
  shows "settled \<beta> (-1) {} T s'"
proof -
  obtain i where i: "irqs s a = Some i" and c: "irqs s' = irqs s \<and> (level i = BALANCE_NONE
        \<or> (\<forall>n \<in> set (numa_nodes s). \<forall>d. objs s n = Some d \<longrightarrow> \<not> eligible s i d))
      \<or> (\<exists>c \<in> insert (numa_node i) (set (numa_nodes s)). irqs s' = (irqs s)(a \<mapsto> i\<lparr>moved := True, assigned_obj := c\<rparr>))"
    using p by (auto simp: enters_def)
  have si: "irq_settled \<beta> (-1) {} (insert a T) s a i" by (rule settled_irq [OF st a i])
  have dp: "-1 < depth t" for t by (simp add: depth_def split: obj_type_e.split)
  note r2 = r [unfolded ready_def, THEN conjunct2, rule_format, OF a i]
  from c show ?thesis
  proof (elim disjE conjE bexE)
    assume eq: "irqs s' = irqs s" and "level i = BALANCE_NONE"
    then have "irq_settled \<beta> (-1) {} T s a i" using si dp unfolding irq_settled_def by auto
    then show ?thesis using eq i by (intro settled_step [OF st sh]) auto
  next
    assume "\<forall>n \<in> set (numa_nodes s). \<forall>d. objs s n = Some d \<longrightarrow> \<not> eligible s i d"
    then show ?thesis using r2 by blast
  next
    fix c assume cn: "c \<in> insert (numa_node i) (set (numa_nodes s))"
      and eq: "irqs s' = (irqs s)(a \<mapsto> i\<lparr>moved := True, assigned_obj := c\<rparr>)"
    have c: "c \<in> set (numa_nodes s)" using cn r2 by auto
    then have "objs s c \<noteq> None" using w unfolding wf_sys_def ok_tree_def by blast
    then have "c \<noteq> NULL" using w by (cases "c = NULL") (auto simp: wf_sys_def ok_irqs_def)
    moreover have "obj_type d = OBJ_TYPE_NODE" if "objs s c = Some d" for d
      using r [unfolded ready_def, THEN conjunct1, rule_format, OF that] c by simp
    ultimately have "irq_settled \<beta> (-1) {} T s a (i\<lparr>moved := True, assigned_obj := c\<rparr>)"
      using r2 by (auto simp: irq_settled_def depth_def)
    then show ?thesis using eq by (intro settled_step [OF st sh]) auto
  qed
qed

lemma place_irq_in_object_ok:
  assumes p: "pinv s0 L M k s" and n: "length (interrupts_db s0) = n"
    and b: "L + (k + n) * M < 2 ^ 64 - 1" and d: "objs s d = Some od"
  shows "\<exists>s'. place_irq_in_object d s = Some s' \<and> pinv s0 L M (k + n) s'
    \<and> (ready K s0 \<and> K \<le> depth (obj_type od) \<and> settled \<beta> K (insert d D) {} s \<longrightarrow> settled \<beta> K D {} s')"
proof -
  have w: "wf_sys s" "ok_lists s" using p by (simp_all add: pinv_def wf_sys_def)
  have sh: "sys_shape s = sys_shape s0" using p by (simp add: pinv_def)
  have l: "get_list (ObjIrqs d) s = Some (interrupts od)" using d by (simp add: get_list_def)
  have d0: "d \<noteq> NULL" using pinv_null [OF p] d by (cases "d = NULL") auto
  have len: "length (interrupts od) \<le> n" "length (interrupts od) < 2 ^ 32"
    using list_length_db [OF w(1) l] n sys_shape_eqD(7) [OF sh] by simp_all
  have b': "L + (k + length (interrupts od)) * M < 2 ^ 64 - 1"
    using b len(1) by (meson add_le_mono le_less_trans le_refl mult_le_mono1)
  have on: "on_list (ObjIrqs d) (interrupts od) s"
    using l ok_lists_list [OF _ l] w by (auto simp: on_list_def wf_sys_def)
  let ?P = "ready K s0 \<and> K \<le> depth (obj_type od) \<and> settled \<beta> K (insert d D) {} s"
  let ?Q = "\<lambda>as t. ?P \<longrightarrow> settled \<beta> K D (set as) t"
  have start: "?Q (interrupts od) s"
    unfolding settled_def irq_settled_def using ok_listsD(2) [OF w(2) _ _ l] by (auto split: if_splits)
  have step: "\<exists>t'. find_best_object_for_irq d a t = Some t' \<and> pinv s0 L M (Suc j) t' \<and> on_list (ObjIrqs d) as t' \<and> ?Q as t'"
    if t: "pinv s0 L M j t" "L + j * M < 2 ^ 64 - 1" "on_list (ObjIrqs d) (a # as) t" "?Q (a # as) t" for j a as t
  proof -
    obtain t' where t': "find_best_object_for_irq d a t = Some t'" "pinv s0 L M (Suc j) t'" "on_list (ObjIrqs d) as t'"
      "pushes d a t t'" using find_best_object_for_irq_ok [OF t(1,2) d0 t(3)] by blast
    have sh: "sys_shape t' = sys_shape t" "sys_shape t = sys_shape s0" "sys_shape t = sys_shape s" and wt: "wf_sys t"
      using t(1) t'(2) p by (simp_all add: pinv_def)
    obtain ot where ot: "objs t d = Some ot" "obj_shape ot = obj_shape od" by (rule shape_obj [OF sh(3) d])
    have h: "home d = ObjIrqs d" using d0 by (simp add: home_def)
    have adb: "a \<in> set (interrupts_db t)" using on_list_irq [OF wt, of d a as] t(3) unfolding h by blast
    have "?Q as t'"
    proof
      assume P: ?P
      then have "settled \<beta> K D (insert a (set as)) t" using t(4) by simp
      then show "settled \<beta> K D (set as) t'"
        by (rule settled_push [OF _ sh(1) wt ready_shape [OF sh(2)] t'(4) adb ot(1)])
          (use P obj_shapeD(3) [OF ot(2)] in simp_all)
    qed
    with t' show ?thesis by blast
  qed
  obtain s' where s': "for_each (find_best_object_for_irq d) (interrupts od) s = Some s'"
    "pinv s0 L M (k + length (interrupts od)) s'" "?Q [] s'"
    using for_each_place [where cb = "find_best_object_for_irq d" and Q = ?Q, OF step p on start b'] by blast
  have "place_irq_in_object d s = Some s'"
    using d s'(1) glength_0 [OF len(2)] by (auto simp: place_irq_in_object_def for_each_irq_def)
  with pinv_mono [OF s'(2)] len(1) s'(3) show ?thesis by auto
qed

lemma place_in_objects_ok:
  assumes "pinv s0 L M k s" "length (interrupts_db s0) = n"
    and "L + (k + length ds * n) * M < 2 ^ 64 - 1" "\<forall>d \<in> set ds. objs s0 d \<noteq> None"
  shows "\<exists>s'. for_each_object ds place_irq_in_object s = Some s' \<and> pinv s0 L M (k + length ds * n) s'
    \<and> (ready K s0 \<and> (\<forall>d \<in> set ds. \<forall>od. objs s0 d = Some od \<longrightarrow> K \<le> depth (obj_type od)) \<and> settled \<beta> K (set ds) {} s
       \<longrightarrow> settled \<beta> K {} {} s')"
  using assms(1,3,4)
proof (induction ds arbitrary: k s)
  case (Cons d ds)
  have le: "L + (k + n) * M \<le> L + (k + length (d # ds) * n) * M"
    by (intro add_left_mono mult_le_mono1) simp
  have sh: "sys_shape s = sys_shape s0" using Cons.prems(1) by (simp add: pinv_def)
  obtain o0 where o0: "objs s0 d = Some o0" using Cons.prems(3) by auto
  obtain od where od: "objs s d = Some od" "obj_shape od = obj_shape o0" by (rule shape_obj [OF sh o0])
  obtain t where t: "place_irq_in_object d s = Some t" "pinv s0 L M (k + n) t"
    "ready K s0 \<and> K \<le> depth (obj_type od) \<and> settled \<beta> K (insert d (set ds)) {} s \<longrightarrow> settled \<beta> K (set ds) {} t"
    using place_irq_in_object_ok [OF Cons.prems(1) assms(2) le_less_trans [OF le Cons.prems(2)] od(1)] by blast
  have "\<exists>s'. for_each_object ds place_irq_in_object t = Some s' \<and> pinv s0 L M (k + n + length ds * n) s'
    \<and> (ready K s0 \<and> (\<forall>d \<in> set ds. \<forall>od. objs s0 d = Some od \<longrightarrow> K \<le> depth (obj_type od)) \<and> settled \<beta> K (set ds) {} t
       \<longrightarrow> settled \<beta> K {} {} s')"
    using Cons.IH [OF t(2)] Cons.prems(2,3) by (simp add: add.assoc)
  then obtain s' where s': "for_each_object ds place_irq_in_object t = Some s'" "pinv s0 L M (k + n + length ds * n) s'"
    "ready K s0 \<and> (\<forall>d \<in> set ds. \<forall>od. objs s0 d = Some od \<longrightarrow> K \<le> depth (obj_type od)) \<and> settled \<beta> K (set ds) {} t
       \<longrightarrow> settled \<beta> K {} {} s'" by blast
  have "settled \<beta> K {} {} s'" if P: "ready K s0" "\<forall>d \<in> set (d # ds). \<forall>od. objs s0 d = Some od \<longrightarrow> K \<le> depth (obj_type od)"
    "settled \<beta> K (set (d # ds)) {} s"
  proof -
    have "K \<le> depth (obj_type od)" using P(2) o0 obj_shapeD(3) [OF od(2)] by simp
    with t(3) P(1,3) have "settled \<beta> K (set ds) {} t" by simp
    with s'(3) P(1,2) show ?thesis by simp
  qed
  moreover have "for_each_object (d # ds) place_irq_in_object s = Some s'"
    using t(1) s'(1) by (simp add: for_each_object_def)
  moreover have "pinv s0 L M (k + length (d # ds) * n) s'" using s'(2) by (simp add: add.assoc)
  ultimately show ?case by blast
qed (simp add: for_each_object_def)

text \<open>All objects at depth \<open>j\<close>.\<close>

lemma stage_ok:
  assumes p: "pinv s0 L M k s" "length (interrupts_db s0) = n" "L + (k + length ds * n) * M < 2 ^ 64 - 1"
    and ds: "\<forall>d \<in> set ds. objs s0 d \<noteq> None"
  shows "\<exists>s'. for_each_object ds place_irq_in_object s = Some s' \<and> pinv s0 L M (k + length ds * n) s'
    \<and> (ready K s0 \<and> (\<forall>d od. objs s0 d = Some od \<longrightarrow> (d \<in> set ds \<longleftrightarrow> depth (obj_type od) = j)) \<and> settled \<beta> (min K (j - 1)) {} {} s
       \<longrightarrow> settled \<beta> (min K j) {} {} s')"
proof -
  obtain s' where s': "for_each_object ds place_irq_in_object s = Some s'" "pinv s0 L M (k + length ds * n) s'"
    "ready (min K j) s0 \<and> (\<forall>d \<in> set ds. \<forall>od. objs s0 d = Some od \<longrightarrow> min K j \<le> depth (obj_type od))
       \<and> settled \<beta> (min K j) (set ds) {} s \<longrightarrow> settled \<beta> (min K j) {} {} s'"
    using place_in_objects_ok [OF p ds] by blast
  have sh: "sys_shape s = sys_shape s0" using p(1) by (simp add: pinv_def)
  have "settled \<beta> (min K j) {} {} s'" if P: "ready K s0" "settled \<beta> (min K (j - 1)) {} {} s"
    "\<And>d od. objs s0 d = Some od \<Longrightarrow> d \<in> set ds \<longleftrightarrow> depth (obj_type od) = j"
  proof -
    have "ready (min K j) s0" using P(1) unfolding ready_def by (simp add: order_trans)
    moreover have "\<forall>d \<in> set ds. \<forall>od. objs s0 d = Some od \<longrightarrow> min K j \<le> depth (obj_type od)" using P(3) by auto
    moreover have "settled \<beta> (min K j) (set ds) {} s"
      unfolding settled_def
    proof (intro ballI allI impI)
      fix a i assume a: "a \<in> set (interrupts_db s)" "irqs s a = Some i"
      have "assigned_obj i \<in> set ds \<longleftrightarrow> depth (obj_type d) = j" if od: "objs s (assigned_obj i) = Some d" for d
      proof -
        obtain d0 where "objs s0 (assigned_obj i) = Some d0" "obj_shape d = obj_shape d0" using shape_orig(1) [OF sh od] by blast
        then show ?thesis using P(3) obj_shapeD(3) [of d d0] by simp
      qed
      with settled_irq [OF P(2) a] show "irq_settled \<beta> (min K j) (set ds) {} s a i"
        unfolding irq_settled_def by (auto split: if_splits)
    qed
    ultimately show ?thesis using s'(3) by blast
  qed
  with s'(1,2) show ?thesis by blast
qed

text \<open>The invariant depends on the lists only as sets.\<close>

lemma ok_lists_perm:
  assumes "sys_shape s' = sys_shape s" "irqs s' = irqs s" "ok_lists s"
    and "\<And>l ys. get_list l s' = Some ys \<Longrightarrow> \<exists>xs. get_list l s = Some xs \<and> mset ys = mset xs"
  shows "ok_lists s'"
  unfolding ok_lists_def
proof (intro conjI allI impI ballI)
  note db = sys_shape_eqD(7) [OF assms(1)]
  fix l ys assume l: "get_list l s' = Some ys"
  obtain xs where xs: "get_list l s = Some xs" "mset ys = mset xs" using assms(4) [OF l] by blast
  with ok_lists_list [OF assms(3) xs(1)] show "distinct ys" "set ys \<subseteq> set (interrupts_db s')"
    by (metis mset_eq_imp_distinct_iff, metis db mset_eq_setD)
next
  note db = sys_shape_eqD(7) [OF assms(1)]
  fix a i assume a: "a \<in> set (interrupts_db s')" "irqs s' a = Some i"
  note d = ok_listsD [OF assms(3) a(1) [unfolded db] a(2) [unfolded assms(2)]]
  show "assigned_obj i \<noteq> NULL \<Longrightarrow> objs s' (assigned_obj i) \<noteq> None"
    using d(1) shape_valid(1) [OF assms(1)] by simp
  show "a \<in> set ys \<longleftrightarrow> assigned_obj i = e" if "get_list (ObjIrqs e) s' = Some ys" for e ys
    using assms(4) [OF that] d(2) by (metis mset_eq_setD)
  have "set (rebalance_irq_list s') = set (rebalance_irq_list s)"
    using assms(4) [of Rebalance "rebalance_irq_list s'"] by (auto simp: get_list_def dest: mset_eq_setD)
  then show "a \<in> set (rebalance_irq_list s') \<longleftrightarrow> assigned_obj i = NULL \<and> level i \<noteq> BALANCE_NONE" using d(3-5) by auto
  show "level i = BALANCE_NONE \<Longrightarrow> assigned_obj i = NULL" using d(4) by simp
qed

lemma sort_irq_list_ok:
  assumes "wf_sys s" "get_list loc s = Some xs"
  shows "\<exists>s' ys. sort_irq_list loc s = Some s' \<and> wf_sys s' \<and> sys_shape s' = sys_shape s \<and> irqs s' = irqs s
    \<and> (\<forall>l. get_list l s' = (if l = loc then Some ys else get_list l s)) \<and> mset ys = mset xs
    \<and> (\<forall>d. map_option load (objs s' d) = map_option load (objs s d))"
proof (cases "length xs \<le> 1")
  case True
  then have "sort_irq_list loc s = Some s" using assms(2) by (simp add: sort_irq_list_def)
  with assms show ?thesis by (intro exI [of _ s] exI [of _ xs]) simp
next
  case False
  have w: "ok_irqs s" "ok_tree s" "ok_lists s" using assms(1) by (simp_all add: wf_sys_def)
  have xs: "distinct xs" "set xs \<subseteq> set (interrupts_db s)" using ok_lists_list [OF w(3) assms(2)] by auto
  then have "\<forall>a \<in> set xs. irqs s a \<noteq> None" using ok_irqs_valid [OF w(1)] by (metis option.distinct(1) subsetD)
  then obtain zs where zs: "deref_irqs xs s = Some zs" using deref_irqs_total by blast
  let ?ys = "map fst (sort_by (\<lambda>a b. sort_irqs a b \<le> 0) zs)"
  obtain s' where s': "put_list loc ?ys s = Some s'" "sys_shape s' = sys_shape s" "irqs s' = irqs s"
    "\<forall>l. get_list l s' = (if l = loc then Some ?ys else get_list l s)"
    "\<forall>d. map_option load (objs s' d) = map_option load (objs s d)"
    using put_list_ok [of loc s ?ys] assms(2) by auto
  have ms: "mset ?ys = mset xs"
    using deref_irqs_Some [OF zs] by (metis mset_map mset_sort_by)
  have "ok_lists s'"
    by (rule ok_lists_perm [OF s'(2,3) w(3)]) (use s'(4) assms(2) ms in \<open>auto split: if_splits\<close>)
  then have "wf_sys s'" using ok_irqs_shape [OF s'(2) w(1)] ok_tree_shape [OF s'(2) w(2)] by (simp add: wf_sys_def)
  then show ?thesis using s' ms assms(2) False zs by (fastforce simp: sort_irq_list_def)
qed

lemma validate_object_ok:
  assumes "wf_sys s" "objs s d \<noteq> None"
  shows "validate_object s d out = Some out"
proof -
  have w: "ok_irqs s" "ok_lists s" using assms(1) by (simp_all add: wf_sys_def)
  obtain od where od: "objs s d = Some od" using assms(2) by blast
  have l: "get_list (ObjIrqs d) s = Some (interrupts od)" using od by (simp add: get_list_def)
  have v: "validate_irq d a s = Some []" if "a \<in> set (interrupts od)" for a
  proof -
    have db: "a \<in> set (interrupts_db s)" using ok_lists_list [OF w(2) l] that by auto
    obtain i where i: "irqs s a = Some i" by (rule ok_irqs_valid [OF w(1) db])
    then show ?thesis using ok_listsD(2) [OF w(2) db i l] that by (simp add: validate_irq_def)
  qed
  have "for_each (\<lambda>ia out. map_option ((@) out) (validate_irq d ia s)) xs out = Some out"
    if "\<And>a. a \<in> set xs \<Longrightarrow> validate_irq d a s = Some []" for xs
    using that by (induction xs) simp_all
  from this [OF v] show ?thesis using od glength_0 [OF list_length_db(2) [OF assms(1) l]]
    by (simp add: validate_object_def)
qed

lemma validate_ok:
  assumes "wf_sys s"
  shows "validate_object_tree_placement s = Some []"
proof -
  have "for_each_object ds (validate_object s) out = Some out" if "\<forall>d \<in> set ds. objs s d \<noteq> None" for ds out
    using that by (induction ds) (simp_all add: for_each_object_def validate_object_ok [OF assms])
  moreover have "\<forall>d \<in> set (packages s) \<union> set (cache_domains s) \<union> set (cpus s). objs s d \<noteq> None"
    using assms unfolding wf_sys_def ok_tree_def by blast
  ultimately show ?thesis by (simp add: validate_object_tree_placement_def)
qed

text \<open>The number of placements a round can make.\<close>

definition round_steps :: "sys \<Rightarrow> nat" where
  "round_steps s = length (interrupts_db s)
     * (1 + length (numa_nodes s) + length (packages s) + length (cache_domains s))"

text \<open>The four passes of a round: all irqs to their nodes, then down the three levels of the tree.\<close>

lemma place_in_nodes_ok:
  assumes p: "pinv s0 L M 0 s" and b: "L + length (rebalance_irq_list s) * M < 2 ^ 64 - 1"
  shows "\<exists>s1. for_each place_irq_in_node (rebalance_irq_list s) s = Some s1 \<and> pinv s0 L M (length (rebalance_irq_list s)) s1
    \<and> (ready K s0 \<and> settled \<beta> (-1) {} (set (rebalance_irq_list s)) s \<longrightarrow> settled \<beta> (-1) {} {} s1)"
proof -
  have w: "wf_sys s" using p by (simp add: pinv_def)
  have "get_list Rebalance s = Some (rebalance_irq_list s)" by (simp add: get_list_def)
  then have on: "on_list Rebalance (rebalance_irq_list s) s"
    using ok_lists_list [of s Rebalance "rebalance_irq_list s"] w by (auto simp: on_list_def wf_sys_def get_list_def)
  let ?P = "ready K s0 \<and> settled \<beta> (-1) {} (set (rebalance_irq_list s)) s"
  let ?Q = "\<lambda>as t. ?P \<longrightarrow> settled \<beta> (-1) {} (set as) t"
  have step: "\<exists>t'. place_irq_in_node a t = Some t' \<and> pinv s0 L M (Suc j) t' \<and> on_list Rebalance as t' \<and> ?Q as t'"
    if t: "pinv s0 L M j t" "L + j * M < 2 ^ 64 - 1" "on_list Rebalance (a # as) t" "?Q (a # as) t" for j a as t
  proof -
    obtain t' where t': "place_irq_in_node a t = Some t'" "pinv s0 L M (Suc j) t'" "on_list Rebalance as t'" "enters a t t'"
      using place_irq_in_node_ok [OF t(1-3)] by blast
    have sh: "sys_shape t' = sys_shape t" "sys_shape t = sys_shape s0" and wt: "wf_sys t"
      using t(1) t'(2) by (simp_all add: pinv_def)
    have h: "home NULL = Rebalance" by (simp add: home_def)
    have adb: "a \<in> set (interrupts_db t)" using on_list_irq [OF wt, of NULL a as] t(3) unfolding h by blast
    have "?Q as t'" using settled_enter [OF _ sh(1) wt ready_shape [OF sh(2)] t'(4) adb] t(4) by auto
    with t' show ?thesis by blast
  qed
  have "L + (0 + length (rebalance_irq_list s)) * M < 2 ^ 64 - 1" using b by simp
  then show ?thesis using for_each_place [where cb = place_irq_in_node and Q = ?Q, OF step p on] by auto
qed

lemma place_down_ok:
  assumes p: "pinv s0 L M (length (interrupts_db s0)) s1" and b: "L + round_steps s0 * M < 2 ^ 64 - 1"
    and tree: "\<forall>d \<in> set (numa_nodes s0) \<union> set (packages s0) \<union> set (cache_domains s0). objs s0 d \<noteq> None"
  shows "\<exists>s2 s3 s4. for_each_object (numa_nodes s1) place_irq_in_object s1 = Some s2
    \<and> for_each_object (packages s2) place_irq_in_object s2 = Some s3
    \<and> for_each_object (cache_domains s3) place_irq_in_object s3 = Some s4 \<and> pinv s0 L M (round_steps s0) s4
    \<and> (ready K s0 \<and> 0 \<le> K \<and> K \<le> 2 \<and> settled \<beta> (-1) {} {} s1 \<longrightarrow> settled \<beta> K {} {} s4)"
proof -
  let ?n = "length (interrupts_db s0)"
  have bd: "L + k * M < 2 ^ 64 - 1" if "k \<le> round_steps s0" for k
    using that b by (meson add_le_mono le_less_trans le_refl mult_le_mono1)
  have k1: "?n + length (numa_nodes s0) * ?n \<le> round_steps s0"
    and k2: "?n + length (numa_nodes s0) * ?n + length (packages s0) * ?n \<le> round_steps s0"
    and k3: "?n + length (numa_nodes s0) * ?n + length (packages s0) * ?n + length (cache_domains s0) * ?n = round_steps s0"
    by (simp_all add: round_steps_def algebra_simps)
  let ?at = "\<lambda>ds j. \<forall>d od. objs s0 d = Some od \<longrightarrow> (d \<in> set ds \<longleftrightarrow> depth (obj_type od) = j)"
  obtain s2 where s2: "for_each_object (numa_nodes s0) place_irq_in_object s1 = Some s2"
    "pinv s0 L M (?n + length (numa_nodes s0) * ?n) s2"
    "ready K s0 \<and> ?at (numa_nodes s0) 0 \<and> settled \<beta> (min K (0 - 1)) {} {} s1 \<longrightarrow> settled \<beta> (min K 0) {} {} s2"
    using stage_ok [OF p refl bd [OF k1], of K 0 \<beta>] tree by auto
  obtain s3 where s3: "for_each_object (packages s0) place_irq_in_object s2 = Some s3"
    "pinv s0 L M (?n + length (numa_nodes s0) * ?n + length (packages s0) * ?n) s3"
    "ready K s0 \<and> ?at (packages s0) 1 \<and> settled \<beta> (min K (1 - 1)) {} {} s2 \<longrightarrow> settled \<beta> (min K 1) {} {} s3"
    using stage_ok [OF s2(2) refl bd [OF k2], of K 1 \<beta>] tree by auto
  obtain s4 where s4: "for_each_object (cache_domains s0) place_irq_in_object s3 = Some s4"
    "pinv s0 L M (round_steps s0) s4"
    "ready K s0 \<and> ?at (cache_domains s0) 2 \<and> settled \<beta> (min K (2 - 1)) {} {} s3 \<longrightarrow> settled \<beta> (min K 2) {} {} s4"
    using stage_ok [OF s3(2) refl bd [of "_ + length (cache_domains s0) * ?n"], of K 2 \<beta>] tree k3 by auto
  have f: "numa_nodes s1 = numa_nodes s0" "packages s2 = packages s0" "cache_domains s3 = cache_domains s0"
    using p s2(2) s3(2) unfolding pinv_def by (metis sys_shape_eqD(3), metis sys_shape_eqD(4), metis sys_shape_eqD(5))
  have "settled \<beta> K {} {} s4" if P: "ready K s0" "0 \<le> K" "K \<le> 2" "settled \<beta> (-1) {} {} s1"
  proof -
    have at: "?at (numa_nodes s0) 0" "?at (packages s0) 1" "?at (cache_domains s0) 2"
      using P(1) unfolding ready_def depth_def by (auto split: obj_type_e.splits)
    from P(2,4) have "settled \<beta> (min K (0 - 1)) {} {} s1" by simp
    with s2(3) P(1) at(1) have "settled \<beta> (min K (1 - 1)) {} {} s2" by simp
    with s3(3) P(1) at(2) have "settled \<beta> (min K (2 - 1)) {} {} s3" by simp
    with s4(3) P(1) at(3) have "settled \<beta> (min K 2) {} {} s4" by simp
    then show ?thesis using P(3) by simp
  qed
  with s2(1) s3(1) s4(1,2) f show ?thesis by auto
qed

lemma place_all_ok:
  assumes p: "pinv s0 L M 0 s" and b: "L + round_steps s0 * M < 2 ^ 64 - 1"
  shows "\<exists>s'. (if 0 < glength (rebalance_irq_list s)
          then do {
            s \<leftarrow> for_each_irq (rebalance_irq_list s) place_irq_in_node s;
            s \<leftarrow> for_each_object (numa_nodes s) place_irq_in_object s;
            s \<leftarrow> for_each_object (packages s) place_irq_in_object s;
            for_each_object (cache_domains s) place_irq_in_object s
          }
          else Some s) = Some s' \<and> pinv s0 L M (round_steps s0) s'
    \<and> (ready K s0 \<and> 0 \<le> K \<and> K \<le> 2 \<and> settled \<beta> K {} (set (rebalance_irq_list s)) s \<longrightarrow> settled \<beta> K {} {} s')"
proof (cases "rebalance_irq_list s = []")
  case True
  then show ?thesis using pinv_mono [OF p] by (auto simp: glength_def)
next
  case False
  let ?r = "rebalance_irq_list s"
  have w: "wf_sys s" and sh: "sys_shape s = sys_shape s0" using p by (simp_all add: pinv_def)
  have l: "get_list Rebalance s = Some ?r" by (simp add: get_list_def)
  have len: "length ?r \<le> length (interrupts_db s0)" "length ?r < 2 ^ 32"
    using list_length_db [OF w l] sys_shape_eqD(7) [OF sh] by simp_all
  then have "length ?r \<le> round_steps s0" by (simp add: round_steps_def)
  then have "L + length ?r * M < 2 ^ 64 - 1" using b by (meson add_le_mono le_less_trans le_refl mult_le_mono1)
  from place_in_nodes_ok [OF p this, of K \<beta>] obtain s1 where s1: "for_each place_irq_in_node ?r s = Some s1"
    "pinv s0 L M (length ?r) s1" "ready K s0 \<and> settled \<beta> (-1) {} (set ?r) s \<longrightarrow> settled \<beta> (-1) {} {} s1" by blast
  have "\<forall>d \<in> set (numa_nodes s0) \<union> set (packages s0) \<union> set (cache_domains s0). objs s0 d \<noteq> None"
    using w ok_tree_shape [OF sh [symmetric]] unfolding wf_sys_def ok_tree_def by blast
  from place_down_ok [OF pinv_mono [OF s1(2) len(1)] b this, of K \<beta>] obtain s2 s3 s4 where
    s4: "for_each_object (numa_nodes s1) place_irq_in_object s1 = Some s2"
    "for_each_object (packages s2) place_irq_in_object s2 = Some s3"
    "for_each_object (cache_domains s3) place_irq_in_object s3 = Some s4" "pinv s0 L M (round_steps s0) s4"
    "ready K s0 \<and> 0 \<le> K \<and> K \<le> 2 \<and> settled \<beta> (-1) {} {} s1 \<longrightarrow> settled \<beta> K {} {} s4" by blast
  have "settled \<beta> (-1) {} (set ?r) s" if "settled \<beta> K {} (set ?r) s" "0 \<le> K"
    by (rule settled_mono [OF that(1)]) (use that(2) in simp_all)
  then show ?thesis using False s1(1,3) s4 glength_0 [OF len(2)] by (auto simp: for_each_irq_def)
qed

lemma calculate_placement_ok:
  assumes "wf_sys s" "irq_loads_lt s M" "loads_le s L" "L + round_steps s * M < 2 ^ 64 - 1"
  shows "\<exists>s'. calculate_placement s = Some (s', []) \<and> wf_sys s' \<and> sys_shape s' = sys_shape s
    \<and> (ready K s \<and> 0 \<le> K \<and> K \<le> 2 \<and> settled \<beta> K {} (set (rebalance_irq_list s)) s \<longrightarrow> settled \<beta> K {} {} s')"
proof -
  have l: "get_list Rebalance s = Some (rebalance_irq_list s)" by (simp add: get_list_def)
  obtain s1 where s1: "sort_irq_list Rebalance s = Some s1" "wf_sys s1" "sys_shape s1 = sys_shape s" "irqs s1 = irqs s"
    "\<forall>d. map_option load (objs s1 d) = map_option load (objs s d)" "set (rebalance_irq_list s1) = set (rebalance_irq_list s)"
  proof -
    obtain u ys where u: "sort_irq_list Rebalance s = Some u" "wf_sys u" "sys_shape u = sys_shape s" "irqs u = irqs s"
      "\<forall>l. get_list l u = (if l = Rebalance then Some ys else get_list l s)" "mset ys = mset (rebalance_irq_list s)"
      "\<forall>d. map_option load (objs u d) = map_option load (objs s d)"
      using sort_irq_list_ok [OF assms(1) l] by blast
    have "rebalance_irq_list u = ys" using u(5) [rule_format, of Rebalance] by (simp add: get_list_def)
    then show thesis using that [OF u(1-4,7)] mset_eq_setD [OF u(6)] by simp
  qed
  have "loads_le s1 L"
    unfolding loads_le_def
  proof (intro allI impI)
    fix a d assume "objs s1 a = Some d"
    then obtain d0 where "objs s a = Some d0" "load d = load d0"
      using s1(5) [rule_format, of a] by (cases "objs s a") auto
    then show "unat (load d) \<le> L" using assms(3) by (auto simp: loads_le_def)
  qed
  then have "pinv s L M 0 s1" using s1(2,3) assms(2) by (simp add: pinv_def)
  from place_all_ok [OF this assms(4), of K \<beta>] obtain s2 where s2: "(if 0 < glength (rebalance_irq_list s1)
          then do {
            s \<leftarrow> for_each_irq (rebalance_irq_list s1) place_irq_in_node s1;
            s \<leftarrow> for_each_object (numa_nodes s) place_irq_in_object s;
            s \<leftarrow> for_each_object (packages s) place_irq_in_object s;
            for_each_object (cache_domains s) place_irq_in_object s
          }
          else Some s1) = Some s2" "pinv s L M (round_steps s) s2"
          "ready K s \<and> 0 \<le> K \<and> K \<le> 2 \<and> settled \<beta> K {} (set (rebalance_irq_list s1)) s1 \<longrightarrow> settled \<beta> K {} {} s2" by blast
  have "settled \<beta> K {} (set (rebalance_irq_list s1)) s1" if "settled \<beta> K {} (set (rebalance_irq_list s)) s"
    unfolding s1(6) by (rule settled_step [OF that s1(3), where a = NULL])
      (use s1(4) assms(1) in \<open>auto simp: wf_sys_def ok_irqs_def\<close>)
  moreover have "calculate_placement s = Some (s2, [])"
    unfolding calculate_placement_def s1(1) Option.bind.bind_lunit s2(1) using s2(2) validate_ok [of s2]
    by (simp add: pinv_def)
  ultimately show ?thesis using s2(2,3) by (auto simp: pinv_def)
qed

end
