(* ===== verification/Irqlist.thy ===== *)
theory Irqlist
  imports Placement
begin

text \<open>
  \<open>irqlist.c\<close>: before each placement round, irqs are taken off the objects that carry more load than
  the least loaded object and put on the rebalance list; lightly loaded cpus enter powersave mode.

  \<open>std_deviation\<close> is a \<open>long double\<close> that holds the result of the \<open>double\<close> function \<open>sqrt\<close> on an
  integer, so it is a multiple of \<open>2 ^ -52\<close>: the model keeps \<open>std_deviation * 2 ^ 52\<close> as a natural
  number and writes the IEEE roundings out (53 bits for \<open>double\<close>, 113 for the AArch64 \<open>long double\<close>).
\<close>

section \<open>Floating point\<close>

fun bit_length :: "nat \<Rightarrow> nat" where
  "bit_length n = (if n = 0 then 0 else Suc (bit_length (n div 2)))"

declare bit_length.simps [simp del]

text \<open>Round to \<open>p\<close> significant bits, to nearest, ties to even.\<close>

definition round_sig :: "nat \<Rightarrow> nat \<Rightarrow> nat" where
  "round_sig p n =
     (let k = bit_length n in
      if k \<le> p then n
      else let sh = k - p; lo = n mod 2 ^ sh; hi = n div 2 ^ sh; half = 2 ^ (sh - 1)
           in (if half < lo \<or> half = lo \<and> odd hi then hi + 1 else hi) * 2 ^ sh)"

fun isqrt :: "nat \<Rightarrow> nat" where
  "isqrt n = (if n = 0 then 0
     else let r = 2 * isqrt (n div 4) in if (r + 1) * (r + 1) \<le> n then r + 1 else r)"

declare isqrt.simps [simp del]

text \<open>The correctly rounded \<open>double\<close> square root of an integer below \<open>2 ^ 64\<close>, times \<open>2 ^ 52\<close>.\<close>

definition sqrt_scaled :: "nat \<Rightarrow> nat" where
  "sqrt_scaled n =
     (let q = round_sig 53 n in
      if q = 0 then 0
      else let e = bit_length (isqrt q) - 1;
               x = q * 4 ^ (52 - e);
               f = isqrt x
           in (if f * f + f < x then f + 1 else f) * 2 ^ e)"

text \<open>\<open>load + std_deviation <= avg\<close> and \<open>load - std_deviation >= avg\<close> in \<open>long double\<close> arithmetic.\<close>

definition ld_add_le :: "u64 \<Rightarrow> nat \<Rightarrow> u64 \<Rightarrow> bool" where
  "ld_add_le ld sd avg \<longleftrightarrow> round_sig 113 (unat ld * 2 ^ 52 + sd) \<le> unat avg * 2 ^ 52"

definition ld_sub_ge :: "u64 \<Rightarrow> nat \<Rightarrow> u64 \<Rightarrow> bool" where
  "ld_sub_ge ld sd avg \<longleftrightarrow> sd \<le> unat ld * 2 ^ 52
     \<and> unat avg * 2 ^ 52 \<le> round_sig 113 (unat ld * 2 ^ 52 - sd)"


section \<open>Statistics\<close>

record load_balance_info =
  total_load :: u64
  avg_load :: u64
  min_load :: u64
  adjustment_load :: u64
  load_sources :: c_int
  deviations :: u64
  std_deviation :: nat
  num_over :: u32
  num_under :: u32
  num_powersave :: u32
  powersave :: addr

text \<open>\<open>memset(info, 0, ...)\<close>.\<close>

definition zero_info :: load_balance_info where
  "zero_info = \<lparr>total_load = 0, avg_load = 0, min_load = 0, adjustment_load = 0, load_sources = 0,
     deviations = 0, std_deviation = 0, num_over = 0, num_under = 0, num_powersave = 0, powersave = NULL\<rparr>"

definition gather_load_stats :: "sys \<Rightarrow> addr \<Rightarrow> load_balance_info \<Rightarrow> load_balance_info option" where
  "gather_load_stats s a lb = do {
     d \<leftarrow> objs s a;
     let lb = (if min_load lb = 0 \<or> load d < min_load lb then lb\<lparr>min_load := load d\<rparr> else lb);
     Some (lb\<lparr>total_load := total_load lb + load d, load_sources := load_sources lb + 1\<rparr>)
   }"

definition compute_deviations :: "sys \<Rightarrow> addr \<Rightarrow> load_balance_info \<Rightarrow> load_balance_info option" where
  "compute_deviations s a lb = do {
     d \<leftarrow> objs s a;
     let deviation = (if avg_load lb < load d then load d - avg_load lb else avg_load lb - load d);
     Some (lb\<lparr>deviations := deviations lb + deviation * deviation\<rparr>)
   }"


section \<open>Taking irqs off objects\<close>

definition move_candidate_irqs ::
  "addr \<Rightarrow> load_balance_info \<times> sys \<Rightarrow> (load_balance_info \<times> sys) option" where
  "move_candidate_irqs a = (\<lambda>(lb, s). do {
     i \<leftarrow> irqs s a;
     if hint_policy i = HINT_POLICY_EXACT \<and> \<not> cpus_empty (affinity_hint i) then Some (lb, s)
     else if level i = BALANCE_NONE then Some (lb, s)
     else do {
       d \<leftarrow> objs s (assigned_obj i);
       if glength (interrupts d) \<le> 1 then Some (lb, s)
       else if i_load i \<le> 1 then Some (lb, s)
       else if min_load lb + i_load i < adjustment_load lb - i_load i then do {
         let lb = lb\<lparr>adjustment_load := adjustment_load lb - i_load i, min_load := min_load lb + i_load i\<rparr>;
         s \<leftarrow> migrate_irq (ObjIrqs (assigned_obj i)) Rebalance a s;
         s \<leftarrow> upd_irq a (\<lambda>i. i\<lparr>assigned_obj := NULL\<rparr>) s;
         Some (lb, s)
       }
       else Some (lb, s)
     }
   })"

text \<open>The counting part of \<open>migrate_overloaded_irqs\<close>.\<close>

definition note_load :: "u64 \<Rightarrow> addr \<Rightarrow> topo_obj \<Rightarrow> load_balance_info \<Rightarrow> load_balance_info" where
  "note_load thresh a d lb =
     (let lb = (if powersave_mode d then lb\<lparr>num_powersave := num_powersave lb + 1\<rparr> else lb)
      in if ld_add_le (load d) (std_deviation lb) (avg_load lb) then
           (let lb = lb\<lparr>num_under := num_under lb + 1\<rparr> in
            if thresh \<noteq> ULLONG_MAX \<and> powersave lb = NULL \<and> \<not> powersave_mode d
            then lb\<lparr>powersave := a\<rparr> else lb)
         else if ld_sub_ge (load d) (std_deviation lb) (avg_load lb) then lb\<lparr>num_over := num_over lb + 1\<rparr>
         else lb)"

definition migrate_overloaded_irqs ::
  "addr \<Rightarrow> load_balance_info \<times> sys \<Rightarrow> (load_balance_info \<times> sys) option" where
  "migrate_overloaded_irqs a = (\<lambda>(lb, s). do {
     d \<leftarrow> objs s a;
     let lb = note_load (power_thresh s) a d lb;
     if min_load lb < load d \<and> 1 < glength (interrupts d) then do {
       s \<leftarrow> sort_irq_list (ObjIrqs a) s;
       let lb = lb\<lparr>adjustment_load := load d\<rparr>;
       d \<leftarrow> objs s a;
       for_each_irq_with (interrupts d) move_candidate_irqs (lb, s)
     }
     else Some (lb, s)
   })"

definition force_irq_migration :: "addr \<Rightarrow> sys \<Rightarrow> sys option" where
  "force_irq_migration a s = do {
     i \<leftarrow> irqs s a;
     s \<leftarrow> migrate_irq (ObjIrqs (assigned_obj i)) Rebalance a s;
     upd_irq a (\<lambda>i. i\<lparr>assigned_obj := NULL\<rparr>) s
   }"

definition clear_powersave_mode :: "addr \<Rightarrow> sys \<Rightarrow> sys option" where
  "clear_powersave_mode a s = upd_obj a (\<lambda>d. d\<lparr>powersave_mode := False\<rparr>) s"

text \<open>\<open>load_sources\<close> is an \<open>int\<close>; the divisions convert it to \<open>unsigned long long\<close>.\<close>

definition load_stats :: "sys \<Rightarrow> addr list \<Rightarrow> load_balance_info option" where
  "load_stats s name = do {
     lb \<leftarrow> for_each_object name (gather_load_stats s) zero_info;
     let lb = (if load_sources lb = 0 then lb\<lparr>load_sources := 1\<rparr> else lb);
     let lb = lb\<lparr>avg_load := total_load lb div scast (load_sources lb)\<rparr>;
     lb \<leftarrow> for_each_object name (compute_deviations s) lb;
     Some (if load_sources lb = 1 then lb\<lparr>std_deviation := 0\<rparr>
           else lb\<lparr>std_deviation := sqrt_scaled (unat (deviations lb div scast (load_sources lb - 1)))\<rparr>)
   }"

definition find_overloaded_objs :: "addr list \<Rightarrow> sys \<Rightarrow> (load_balance_info \<times> sys) option" where
  "find_overloaded_objs name s = do {
     lb \<leftarrow> load_stats s name;
     for_each_object name migrate_overloaded_irqs (lb, s)
   }"

text \<open>The powersave decision of \<open>update_migration_status\<close>.\<close>

definition powersave_step :: "load_balance_info \<Rightarrow> sys \<Rightarrow> sys option" where
  "powersave_step lb s =
     (if power_thresh s \<noteq> ULLONG_MAX \<and> 5 < cycle_count s then
        (if num_over lb = 0 \<and> power_thresh s \<le> ucast (num_under lb) \<and> powersave lb \<noteq> NULL then do {
           s \<leftarrow> upd_obj (powersave lb) (\<lambda>d. d\<lparr>powersave_mode := True\<rparr>) s;
           d \<leftarrow> objs s (powersave lb);
           if 0 < glength (interrupts d) then for_each_irq (interrupts d) force_irq_migration s
           else Some s
         }
         else if num_over lb \<noteq> 0 \<and> num_powersave lb \<noteq> 0
         then for_each_object (cpus s) clear_powersave_mode s
         else Some s)
      else Some s)"

definition update_migration_status :: "sys \<Rightarrow> sys option" where
  "update_migration_status s = do {
     (lb, s) \<leftarrow> find_overloaded_objs (cpus s) s;
     s \<leftarrow> powersave_step lb s;
     (_, s) \<leftarrow> find_overloaded_objs (cache_domains s) s;
     (_, s) \<leftarrow> find_overloaded_objs (packages s) s;
     (_, s) \<leftarrow> find_overloaded_objs (numa_nodes s) s;
     Some s
   }"


section \<open>Taking irqs off keeps the invariant\<close>

text \<open>Irqs only lose their object, no load changes, and only cpus change their powersave mode.\<close>

definition eases :: "sys \<Rightarrow> sys \<Rightarrow> bool" where
  "eases s s' \<longleftrightarrow> cpus s' = cpus s \<and> (\<forall>a i. irqs s' a = Some i \<longrightarrow> assigned_obj i \<noteq> NULL \<longrightarrow> irqs s a = Some i)
     \<and> (\<forall>d. map_option load (objs s' d) = map_option load (objs s d))
     \<and> (\<forall>d. d \<notin> set (cpus s) \<longrightarrow> map_option powersave_mode (objs s' d) = map_option powersave_mode (objs s d))"

lemma eases_refl [simp]: "eases s s"
  by (simp add: eases_def)

lemma eases_trans: "eases s t \<Longrightarrow> eases t u \<Longrightarrow> eases s u"
  by (auto simp: eases_def)

lemma eases_shape:
  assumes sh: "sys_shape s' = sys_shape s" and "\<And>a i. irqs s' a = Some i \<Longrightarrow> assigned_obj i \<noteq> NULL \<Longrightarrow> irqs s a = Some i"
    and "\<forall>d. map_option load (objs s' d) = map_option load (objs s d)"
  shows "eases s s'"
proof -
  have "map_option powersave_mode (objs s' d) = map_option powersave_mode (objs s d)" for d
  proof (cases "objs s d")
    case None
    then show ?thesis using shape_valid(1) [OF sh, of d] by simp
  next
    case (Some t)
    obtain t' where t': "objs s' d = Some t'" "obj_shape t' = obj_shape t" by (rule shape_obj [OF sh Some])
    show ?thesis unfolding Some t'(1) using obj_shapeD(5) [OF t'(2)] by simp
  qed
  then show ?thesis using assms sys_shape_eqD(6) [OF sh] by (simp add: eases_def)
qed

text \<open>Moving an irq to the rebalance list.\<close>

lemma unassign_ok:
  assumes "wf_sys s" "d \<noteq> NULL" "on_list (ObjIrqs d) (a # as) s" "irqs s a = Some i"
  shows "\<exists>s1 s'. migrate_irq (ObjIrqs (assigned_obj i)) Rebalance a s = Some s1
    \<and> upd_irq a (\<lambda>i. i\<lparr>assigned_obj := NULL\<rparr>) s1 = Some s'
    \<and> wf_sys s' \<and> sys_shape s' = sys_shape s \<and> on_list (ObjIrqs d) as s'
    \<and> assigned_obj i = d \<and> lists_after a (ObjIrqs d) Rebalance s s' \<and> eases s s'"
proof -
  have h: "home d = ObjIrqs d" "home NULL = Rebalance" using assms(2) by (simp_all add: home_def)
  obtain j xs where j: "a \<in> set (interrupts_db s)" "irqs s a = Some j" "assigned_obj j = d"
    "get_list (home d) s = Some xs" "a \<in> set xs"
    by (rule on_list_irq [OF assms(1), of d a as]) (use assms(3) h in auto)
  have i: "assigned_obj i = d" using j(2,3) assms(4) by simp
  obtain s1 s' where s: "migrate_irq (ObjIrqs d) Rebalance a s = Some s1"
    "upd_irq a (\<lambda>i. i\<lparr>assigned_obj := NULL\<rparr>) s1 = Some s'" "wf_sys s'" "sys_shape s' = sys_shape s"
    "lists_after a (ObjIrqs d) Rebalance s s'" "irqs s' = (irqs s)(a \<mapsto> i\<lparr>moved := True, assigned_obj := NULL\<rparr>)"
    "\<forall>d. map_option load (objs s' d) = map_option load (objs s d)"
    using relocate_ok [OF assms(1) j(1) assms(4) _ j(5), of NULL] j(4) unfolding i h by auto
  have "ok_lists s" using assms(1) by (simp add: wf_sys_def)
  then have on: "on_list (ObjIrqs d) as s'" by (rule on_list_after [OF s(5) _ assms(3)])
  have e: "eases s s'" by (rule eases_shape [OF s(4) _ s(7)]) (use s(6) in \<open>auto split: if_splits\<close>)
  show ?thesis unfolding i using s(1-5) on e by blast
qed

text \<open>The invariant of the walk over the irqs of one object; \<open>s0\<close> is the state before it.\<close>

definition mcinv :: "addr \<Rightarrow> sys \<Rightarrow> addr \<Rightarrow> addr list \<Rightarrow> load_balance_info \<times> sys \<Rightarrow> bool" where
  "mcinv p s0 d as = (\<lambda>(lb, s). powersave lb = p \<and> wf_sys s \<and> sys_shape s = sys_shape s0 \<and> eases s0 s \<and> on_list (ObjIrqs d) as s
     \<and> (get_list (ObjIrqs d) s0 \<noteq> Some [] \<longrightarrow> get_list (ObjIrqs d) s \<noteq> Some []))"

lemma glength_le_1: "length xs < 2 ^ 32 \<Longrightarrow> glength xs \<le> 1 \<longleftrightarrow> length xs \<le> 1"
proof -
  assume "length xs < 2 ^ 32"
  then have "unat (glength xs) = length xs" by (simp add: glength_def unat_of_nat)
  then show ?thesis by (metis unat_1 word_le_nat_alt)
qed

lemma move_candidate_ok:
  assumes "d \<noteq> NULL" "mcinv p s0 d (a # as) st"
  shows "\<exists>st'. move_candidate_irqs a st = Some st' \<and> mcinv p s0 d as st'"
proof -
  obtain lb s where st: "st = (lb, s)" by (cases st)
  have w: "wf_sys s" and l: "on_list (ObjIrqs d) (a # as) s" and sh: "sys_shape s = sys_shape s0"
    and pw: "powersave lb = p" and ea: "eases s0 s"
    and ne: "get_list (ObjIrqs d) s0 \<noteq> Some [] \<Longrightarrow> get_list (ObjIrqs d) s \<noteq> Some []"
    using assms(2) by (simp_all add: mcinv_def st)
  have h: "home d = ObjIrqs d" using assms(1) by (simp add: home_def)
  obtain i xs where i: "a \<in> set (interrupts_db s)" "irqs s a = Some i" "assigned_obj i = d"
    "get_list (home d) s = Some xs" "a \<in> set xs"
    by (rule on_list_irq [OF w, of d a as]) (use l h in auto)
  obtain od where od: "objs s d = Some od" "interrupts od = xs" using i(4) h by (auto simp: get_list_def)
  obtain s1 s' where s: "migrate_irq (ObjIrqs d) Rebalance a s = Some s1"
    "upd_irq a (\<lambda>i. i\<lparr>assigned_obj := NULL\<rparr>) s1 = Some s'" "wf_sys s'" "sys_shape s' = sys_shape s"
    "on_list (ObjIrqs d) as s'" "lists_after a (ObjIrqs d) Rebalance s s'" "eases s s'"
    using unassign_ok [OF w assms(1) l i(2)] i(3) by auto
  have stay: "mcinv p s0 d as (lb, s)" using w sh l ne pw ea by (auto simp: mcinv_def on_list_def)
  have len: "length xs < 2 ^ 32" using list_length_db(2) [OF w] i(4) by blast
  have left: "get_list (ObjIrqs d) s' \<noteq> Some []" if "\<not> glength xs \<le> 1"
  proof -
    have "get_list (ObjIrqs d) s' = Some (remove1 a xs)" using s(6) i(4) h by (simp add: lists_after_def)
    moreover have "1 < length xs" using that glength_le_1 [OF len] by simp
    then have "remove1 a xs \<noteq> []" using i(5) length_remove1 [of a xs] by (cases "remove1 a xs") auto
    ultimately show ?thesis by simp
  qed
  show ?thesis
  proof (cases "move_candidate_irqs a st = Some (lb, s)")
    case True
    with stay show ?thesis by blast
  next
    case False
    then have "\<exists>lb'. move_candidate_irqs a st = Some (lb', s') \<and> powersave lb' = powersave lb" "\<not> glength xs \<le> 1"
      using i(2,3) od s(1,2) by (auto simp: move_candidate_irqs_def st Let_def split: if_splits)
    with s(3,4,5) sh left pw eases_trans [OF ea s(7)] show ?thesis by (auto simp: mcinv_def)
  qed
qed

lemma walk_candidates_ok:
  assumes "wf_sys s" "objs s d = Some od"
  shows "\<exists>lb' s'. for_each move_candidate_irqs (interrupts od) (lb, s) = Some (lb', s')
    \<and> powersave lb' = powersave lb \<and> wf_sys s' \<and> sys_shape s' = sys_shape s \<and> eases s s' \<and> (interrupts od \<noteq> [] \<longrightarrow> get_list (ObjIrqs d) s' \<noteq> Some [])"
proof -
  have d: "d \<noteq> NULL" using assms by (cases "d = NULL") (auto simp: wf_sys_def ok_irqs_def)
  have l: "get_list (ObjIrqs d) s = Some (interrupts od)" using assms(2) by (simp add: get_list_def)
  have "mcinv (powersave lb) s d (interrupts od) (lb, s)"
    using assms(1) l ok_lists_list [OF _ l] by (auto simp: mcinv_def on_list_def wf_sys_def)
  then have "\<exists>st'. for_each move_candidate_irqs (interrupts od) (lb, s) = Some st' \<and> mcinv (powersave lb) s d [] st'"
    by (rule for_each_rest) (rule move_candidate_ok [OF d])
  then show ?thesis using l by (auto simp: mcinv_def)
qed


lemma note_load_powersave: "powersave (note_load t d od lb) = powersave lb \<or> powersave (note_load t d od lb) = d"
  by (simp add: note_load_def Let_def)

lemma migrate_overloaded_ok:
  assumes "wf_sys s" "objs s d \<noteq> None"
  shows "\<exists>lb' s'. migrate_overloaded_irqs d (lb, s) = Some (lb', s') \<and> wf_sys s' \<and> sys_shape s' = sys_shape s \<and> eases s s'
    \<and> (powersave lb' = powersave lb \<or> powersave lb' = d)"
proof -
  obtain od where od: "objs s d = Some od" using assms(2) by blast
  have l: "get_list (ObjIrqs d) s = Some (interrupts od)" using od by (simp add: get_list_def)
  let ?lb = "note_load (power_thresh s) d od lb"
  note pw = note_load_powersave [of "power_thresh s" d od lb]
  show ?thesis
  proof (cases "min_load ?lb < load od \<and> 1 < glength (interrupts od)")
    case True
    obtain s1 ys where s1: "sort_irq_list (ObjIrqs d) s = Some s1" "wf_sys s1" "sys_shape s1 = sys_shape s"
      "get_list (ObjIrqs d) s1 = Some ys" "mset ys = mset (interrupts od)" "irqs s1 = irqs s"
      "\<forall>d. map_option load (objs s1 d) = map_option load (objs s d)"
      using sort_irq_list_ok [OF assms(1) l] by force
    have e1: "eases s s1" by (rule eases_shape [OF s1(3) _ s1(7)]) (simp add: s1(6))
    obtain od1 where od1: "objs s1 d = Some od1" "interrupts od1 = ys" using s1(4) by (auto simp: get_list_def)
    have "interrupts od \<noteq> []" using True by (auto simp: glength_def)
    then have ne: "interrupts od1 \<noteq> []" using od1(2) s1(5) by auto
    obtain lb' s' where w: "for_each move_candidate_irqs (interrupts od1) (?lb\<lparr>adjustment_load := load od\<rparr>, s1) = Some (lb', s')"
      "powersave lb' = powersave (?lb\<lparr>adjustment_load := load od\<rparr>)" "wf_sys s'" "sys_shape s' = sys_shape s1"
      "eases s1 s'" using walk_candidates_ok [OF s1(2) od1(1), of "?lb\<lparr>adjustment_load := load od\<rparr>"] by blast
    then have "migrate_overloaded_irqs d (lb, s) = Some (lb', s')"
      using od True s1(1) od1 ne by (simp add: migrate_overloaded_irqs_def for_each_irq_with_def Let_def)
    with w(2-4) s1(3) pw eases_trans [OF e1 w(5)] show ?thesis by auto
  next
    case False
    then have "migrate_overloaded_irqs d (lb, s) = Some (?lb, s)"
      using od by (auto simp: migrate_overloaded_irqs_def Let_def)
    with assms(1) pw eases_refl [of s] show ?thesis by blast
  qed
qed

lemma load_stats_ok:
  assumes "\<forall>d \<in> set ds. objs s d \<noteq> None"
  shows "\<exists>lb. load_stats s ds = Some lb \<and> powersave lb = NULL"
proof -
  have g: "\<exists>lb'. for_each_object ds (gather_load_stats s) lb = Some lb' \<and> powersave lb' = powersave lb" for lb
    using assms by (induction ds arbitrary: lb) (fastforce simp: for_each_object_def gather_load_stats_def Let_def)+
  have c: "\<exists>lb'. for_each_object ds (compute_deviations s) lb = Some lb' \<and> powersave lb' = powersave lb" for lb
    using assms by (induction ds arbitrary: lb) (fastforce simp: for_each_object_def compute_deviations_def Let_def)+
  obtain lb1 where lb1: "for_each_object ds (gather_load_stats s) zero_info = Some lb1" "powersave lb1 = NULL"
    using g [of zero_info] by (auto simp: zero_info_def)
  let ?lb = "(if load_sources lb1 = 0 then lb1\<lparr>load_sources := 1\<rparr> else lb1)"
  let ?lb2 = "?lb\<lparr>avg_load := total_load ?lb div scast (load_sources ?lb)\<rparr>"
  obtain lb3 where lb3: "for_each_object ds (compute_deviations s) ?lb2 = Some lb3" "powersave lb3 = NULL"
    using c [of ?lb2] lb1(2) by auto
  have "load_stats s ds = Some (if load_sources lb3 = 1 then lb3\<lparr>std_deviation := 0\<rparr>
     else lb3\<lparr>std_deviation := sqrt_scaled (unat (deviations lb3 div scast (load_sources lb3 - 1)))\<rparr>)"
    unfolding load_stats_def lb1(1) Option.bind.bind_lunit Let_def lb3(1) ..
  with lb3(2) show ?thesis by simp
qed

lemma find_overloaded_ok:
  assumes "wf_sys s" "\<forall>d \<in> set ds. objs s d \<noteq> None"
  shows "\<exists>lb s'. find_overloaded_objs ds s = Some (lb, s') \<and> wf_sys s' \<and> sys_shape s' = sys_shape s \<and> eases s s'
    \<and> powersave lb \<in> insert NULL (set ds)"
proof -
  obtain lb where lb: "load_stats s ds = Some lb" "powersave lb = NULL" using load_stats_ok [OF assms(2)] by blast
  let ?I = "\<lambda>(lb :: load_balance_info, s'). wf_sys s' \<and> sys_shape s' = sys_shape s \<and> eases s s' \<and> powersave lb \<in> insert NULL (set ds)"
  have "\<exists>st'. for_each migrate_overloaded_irqs ds (lb, s) = Some st' \<and> ?I st'"
  proof (rule for_each_total_inv)
    show "?I (lb, s)" using assms(1) lb(2) by simp
  next
    fix d st assume d: "d \<in> set ds" "?I st"
    obtain lb1 s1 where st: "st = (lb1, s1)" by (cases st)
    have "objs s1 d \<noteq> None" using d assms(2) shape_valid(1) [of s1 s d] by (auto simp: st)
    then obtain lb2 s2 where s2: "migrate_overloaded_irqs d (lb1, s1) = Some (lb2, s2)" "wf_sys s2"
      "sys_shape s2 = sys_shape s1" "eases s1 s2" "powersave lb2 = powersave lb1 \<or> powersave lb2 = d"
      using migrate_overloaded_ok [of s1 d lb1] d(2) by (auto simp: st)
    then show "\<exists>t'. migrate_overloaded_irqs d st = Some t' \<and> ?I t'"
      using d eases_trans [OF _ s2(4)] by (auto simp: st)
  qed
  with lb(1) show ?thesis by (auto simp: find_overloaded_objs_def for_each_object_def)
qed


section \<open>The migration step\<close>

text \<open>What \<open>update_migration_status\<close> leaves alone: the shape of the state but for powersave modes.\<close>

definition core_shape :: "sys \<Rightarrow> sys" where
  "core_shape s = sys_shape (s\<lparr>objs := map_option (\<lambda>d. d\<lparr>powersave_mode := False\<rparr>) \<circ> objs s\<rparr>)"

lemma core_shape_sys: "sys_shape s' = sys_shape s \<Longrightarrow> core_shape s' = core_shape s"
proof -
  have e: "core_shape s = (sys_shape s)\<lparr>objs := map_option (\<lambda>d. d\<lparr>powersave_mode := False\<rparr>) \<circ> objs (sys_shape s)\<rparr>" for s
  proof (rule sys.equality)
    have "obj_shape (d\<lparr>powersave_mode := False\<rparr>) = (obj_shape d)\<lparr>powersave_mode := False\<rparr>" for d
      by (cases d) (simp add: obj_shape_def)
    then show "objs (core_shape s)
        = objs ((sys_shape s)\<lparr>objs := map_option (\<lambda>d. d\<lparr>powersave_mode := False\<rparr>) \<circ> objs (sys_shape s)\<rparr>)"
      by (simp add: core_shape_def sys_shape_def fun_eq_iff option.map_comp comp_def)
  qed (simp_all add: core_shape_def sys_shape_def)
  assume "sys_shape s' = sys_shape s"
  then show ?thesis unfolding e by simp
qed

lemma core_shapeD:
  assumes "core_shape s' = core_shape s"
  shows "cpus s' = cpus s" "cache_domains s' = cache_domains s" "packages s' = packages s" "numa_nodes s' = numa_nodes s"
    "interrupts_db s' = interrupts_db s" "objs s' d = None \<longleftrightarrow> objs s d = None"
proof -
  note e = sys_shape_eqD [OF assms [unfolded core_shape_def]]
  show "cpus s' = cpus s" "cache_domains s' = cache_domains s" "packages s' = packages s" "numa_nodes s' = numa_nodes s"
    "interrupts_db s' = interrupts_db s"
    using e(3-7) by simp_all
  show "objs s' d = None \<longleftrightarrow> objs s d = None" using shape_valid(1) [OF assms [unfolded core_shape_def], of d] by simp
qed

lemma set_powersave_ok:
  assumes "wf_sys s" "objs s a \<noteq> None" "a \<in> set (cpus s)"
  shows "\<exists>s'. upd_obj a (\<lambda>d. d\<lparr>powersave_mode := v\<rparr>) s = Some s' \<and> wf_sys s' \<and> core_shape s' = core_shape s \<and> eases s s'"
proof -
  obtain d where d: "objs s a = Some d" using assms(2) by blast
  let ?s = "s\<lparr>objs := (objs s)(a \<mapsto> d\<lparr>powersave_mode := v\<rparr>)\<rparr>"
  have "wf_sys ?s" by (rule wf_sys_upd_obj [OF assms(1) d]) simp_all
  moreover have "eases s ?s" using d assms(3) by (simp add: eases_def)
  moreover have "core_shape ?s = core_shape s"
    using d by (auto simp: core_shape_def sys_shape_def obj_shape_def fun_eq_iff)
  ultimately show ?thesis using d by (simp add: upd_obj_Some)
qed

lemma force_walk_ok:
  assumes "wf_sys s" "objs s d = Some od"
  shows "\<exists>s'. for_each force_irq_migration (interrupts od) s = Some s' \<and> wf_sys s' \<and> sys_shape s' = sys_shape s \<and> eases s s'"
proof -
  have d: "d \<noteq> NULL" using assms by (cases "d = NULL") (auto simp: wf_sys_def ok_irqs_def)
  have l: "get_list (ObjIrqs d) s = Some (interrupts od)" using assms(2) by (simp add: get_list_def)
  let ?I = "\<lambda>as s'. wf_sys s' \<and> sys_shape s' = sys_shape s \<and> eases s s' \<and> on_list (ObjIrqs d) as s'"
  have "?I (interrupts od) s" using assms(1) l ok_lists_list [OF _ l] by (auto simp: on_list_def wf_sys_def)
  then have "\<exists>s'. for_each force_irq_migration (interrupts od) s = Some s' \<and> ?I [] s'"
  proof (rule for_each_rest)
    fix a as t assume I: "?I (a # as) t"
    have "home d = ObjIrqs d" using d by (simp add: home_def)
    with I obtain i where i: "irqs t a = Some i" using on_list_irq [of t d a as] by metis
    obtain t1 t' where t': "migrate_irq (ObjIrqs (assigned_obj i)) Rebalance a t = Some t1"
      "upd_irq a (\<lambda>i. i\<lparr>assigned_obj := NULL\<rparr>) t1 = Some t'" "wf_sys t'" "sys_shape t' = sys_shape t"
      "on_list (ObjIrqs d) as t'" "eases t t'"
      using unassign_ok [of t d a as i] I d i by blast
    then show "\<exists>t'. force_irq_migration a t = Some t' \<and> ?I as t'"
      using I i eases_trans [OF _ t'(6)] by (auto simp: force_irq_migration_def)
  qed
  then show ?thesis by blast
qed

lemma powersave_step_ok:
  assumes "wf_sys s" "powersave lb \<in> insert NULL (set (cpus s))" "objs s NULL = None"
  shows "\<exists>s'. powersave_step lb s = Some s' \<and> wf_sys s' \<and> core_shape s' = core_shape s \<and> eases s s'"
proof -
  have valid: "\<forall>d \<in> set (cpus s). objs s d \<noteq> None" using assms(1) unfolding wf_sys_def ok_tree_def by blast
  let ?I = "\<lambda>t. wf_sys t \<and> core_shape t = core_shape s \<and> eases s t"
  have "\<exists>s'. for_each clear_powersave_mode (cpus s) s = Some s' \<and> ?I s'"
  proof (rule for_each_total_inv)
    fix d t assume d: "d \<in> set (cpus s)" and t: "?I t"
    then have "objs t d \<noteq> None" "d \<in> set (cpus t)" using valid core_shapeD(1,6) [of t s] by auto
    then obtain t' where t': "upd_obj d (\<lambda>d. d\<lparr>powersave_mode := False\<rparr>) t = Some t'" "wf_sys t'"
      "core_shape t' = core_shape t" "eases t t'" using set_powersave_ok [of t d False] t by blast
    then show "\<exists>t'. clear_powersave_mode d t = Some t' \<and> ?I t'"
      using t eases_trans [OF _ t'(4)] by (auto simp: clear_powersave_mode_def)
  qed (use assms(1) in simp)
  then obtain s' where clear: "for_each clear_powersave_mode (cpus s) s = Some s'" "wf_sys s'" "core_shape s' = core_shape s"
    "eases s s'" by blast
  have enter: "\<exists>s1 d s'. upd_obj (powersave lb) (\<lambda>d. d\<lparr>powersave_mode := True\<rparr>) s = Some s1
      \<and> objs s1 (powersave lb) = Some d
      \<and> (if 0 < glength (interrupts d) then for_each_irq (interrupts d) force_irq_migration s1 else Some s1) = Some s'
      \<and> wf_sys s' \<and> core_shape s' = core_shape s \<and> eases s s'" if "powersave lb \<noteq> NULL"
  proof -
    have "objs s (powersave lb) \<noteq> None" "powersave lb \<in> set (cpus s)" using that assms(2) valid by auto
    then obtain s1 where s1: "upd_obj (powersave lb) (\<lambda>d. d\<lparr>powersave_mode := True\<rparr>) s = Some s1" "wf_sys s1"
      "core_shape s1 = core_shape s" "eases s s1" using set_powersave_ok [OF assms(1)] by blast
    obtain d where d: "objs s1 (powersave lb) = Some d"
      using core_shapeD(6) [OF s1(3), of "powersave lb"] \<open>objs s (powersave lb) \<noteq> None\<close> by auto
    obtain s' where s': "for_each force_irq_migration (interrupts d) s1 = Some s'" "wf_sys s'" "sys_shape s' = sys_shape s1"
      "eases s1 s'" using force_walk_ok [OF s1(2) d] by blast
    then have "core_shape s' = core_shape s" using core_shape_sys [OF s'(3)] s1(3) by simp
    moreover have "interrupts d \<noteq> []" if "0 < glength (interrupts d)" using that by (auto simp: glength_def)
    moreover have "eases s s'" using s1(4) s'(4) by (rule eases_trans)
    ultimately show ?thesis using s1(1) d s'(1,2)
      by (cases "0 < glength (interrupts d)") (auto simp: for_each_irq_def s1 intro: s1)
  qed
  show ?thesis
  proof (cases "num_over lb = 0 \<and> power_thresh s \<le> ucast (num_under lb) \<and> powersave lb \<noteq> NULL")
    case True
    then obtain s1 d s' where "upd_obj (powersave lb) (\<lambda>d. d\<lparr>powersave_mode := True\<rparr>) s = Some s1"
      "objs s1 (powersave lb) = Some d"
      "(if 0 < glength (interrupts d) then for_each_irq (interrupts d) force_irq_migration s1 else Some s1) = Some s'"
      "wf_sys s'" "core_shape s' = core_shape s" "eases s s'" using enter by blast
    with True assms(1) show ?thesis by (auto simp: powersave_step_def)
  next
    case False
    with clear assms(1) show ?thesis by (auto simp: powersave_step_def for_each_object_def)
  qed
qed

lemma update_migration_status_ok:
  assumes "wf_sys s"
  shows "\<exists>s'. update_migration_status s = Some s' \<and> wf_sys s' \<and> core_shape s' = core_shape s \<and> eases s s'
    \<and> (power_thresh s = ULLONG_MAX \<longrightarrow> sys_shape s' = sys_shape s)"
proof -
  have valid: "\<forall>d \<in> set (numa_nodes s) \<union> set (packages s) \<union> set (cache_domains s) \<union> set (cpus s). objs s d \<noteq> None"
    using assms unfolding wf_sys_def ok_tree_def by blast
  let ?same = "\<lambda>u. power_thresh s = ULLONG_MAX \<longrightarrow> sys_shape u = sys_shape s"
  have over: "\<exists>lb u. find_overloaded_objs ds t = Some (lb, u) \<and> wf_sys u \<and> core_shape u = core_shape s \<and> eases s u \<and> ?same u
      \<and> powersave lb \<in> insert NULL (set ds)"
    if t: "wf_sys t" "core_shape t = core_shape s" "eases s t" "?same t"
      and ds: "set ds \<subseteq> set (numa_nodes s) \<union> set (packages s) \<union> set (cache_domains s) \<union> set (cpus s)" for ds t
  proof -
    have "\<forall>d \<in> set ds. objs t d \<noteq> None" using valid ds core_shapeD(6) [OF t(2)] by blast
    then obtain lb u where u: "find_overloaded_objs ds t = Some (lb, u)" "wf_sys u" "sys_shape u = sys_shape t" "eases t u"
      "powersave lb \<in> insert NULL (set ds)" using find_overloaded_ok [OF t(1)] by blast
    have "core_shape u = core_shape s" using core_shape_sys [OF u(3)] t(2) by simp
    with u eases_trans [OF t(3) u(4)] t(4) show ?thesis by auto
  qed
  obtain lb s1 where s1: "find_overloaded_objs (cpus s) s = Some (lb, s1)" "wf_sys s1" "core_shape s1 = core_shape s" "eases s s1" "?same s1"
    "powersave lb \<in> insert NULL (set (cpus s))"
    using over [OF assms, of "cpus s"] by auto
  have n: "objs s1 NULL = None" using s1(2) by (simp add: wf_sys_def ok_irqs_def)
  have "powersave lb \<in> insert NULL (set (cpus s1))" using s1(6) core_shapeD(1) [OF s1(3)] by simp
  then obtain s2 where s2: "powersave_step lb s1 = Some s2" "wf_sys s2" "core_shape s2 = core_shape s1" "eases s1 s2"
    using powersave_step_ok [OF s1(2) _ n] by blast
  have c2: "core_shape s2 = core_shape s" using s2(3) s1(3) by simp
  have "power_thresh s1 = power_thresh s" if "sys_shape s1 = sys_shape s" using that by (metis sys_shape_fields)
  then have m2: "?same s2" using s1(5) s2(1) by (auto simp: powersave_step_def)
  obtain lb3 s3 where s3: "find_overloaded_objs (cache_domains s2) s2 = Some (lb3, s3)" "wf_sys s3" "core_shape s3 = core_shape s" "eases s s3" "?same s3"
    using over [OF s2(2) c2 eases_trans [OF s1(4) s2(4)] m2, of "cache_domains s2"] core_shapeD(2) [OF c2] by auto
  obtain lb4 s4 where s4: "find_overloaded_objs (packages s3) s3 = Some (lb4, s4)" "wf_sys s4" "core_shape s4 = core_shape s" "eases s s4" "?same s4"
    using over [OF s3(2-5), of "packages s3"] core_shapeD(3) [OF s3(3)] by auto
  obtain lb5 s5 where s5: "find_overloaded_objs (numa_nodes s4) s4 = Some (lb5, s5)" "wf_sys s5" "core_shape s5 = core_shape s" "eases s s5" "?same s5"
    using over [OF s4(2-5), of "numa_nodes s4"] core_shapeD(4) [OF s4(3)] by auto
  show ?thesis using s1(1) s2(1) s3(1) s4(1) s5 by (simp add: update_migration_status_def)
qed

end
