(* ===== verification/Activate.thy ===== *)
theory Activate
  imports Irqlist
begin

text \<open>
  \<open>activate.c\<close>: for every irq that has moved, the mask of the object it was assigned to (or its
  affinity hint) is written to \<open>/proc/irq/N/smp_affinity\<close>. The two files are parameters: what a read
  of the file of irq \<open>n\<close> gives, and whether it can be opened for writing.
\<close>

text \<open>Opening a file and reading its first line: it cannot be opened, \<open>getline\<close> returns \<open>-1\<close>, or the
  line. \<open>getline\<close> never returns 0, so after \<open>-1\<close> the code goes on with a buffer of unspecified
  contents: \<open>None\<close> in the model.\<close>

datatype first_line = NoFile | NoLine | Line string

text \<open>The part of a buffer that \<open>strlen\<close> covers.\<close>

definition c_string :: "string \<Rightarrow> string" where
  "c_string s = takeWhile (\<lambda>c. c \<noteq> NUL) s"

definition PATH_MAX :: nat where
  "PATH_MAX = 4096"

definition check_affinity :: "(int \<Rightarrow> first_line) \<Rightarrow> irq_info \<Rightarrow> cpumask_t \<Rightarrow> bool option" where
  "check_affinity rd i applied_mask =
     (case rd (irq i) of
        NoFile \<Rightarrow> Some True
      | NoLine \<Rightarrow> None
      | Line l \<Rightarrow>
          let current_mask = snd (cpumask_parse_user (c_string l) CPU_MASK_NONE)
          in Some (cpus_equal applied_mask current_mask))"

text \<open>The choice of the mask: the valid mask, if any, and the new value of \<open>warned\<close>.\<close>

definition applied_mask :: "irq_info \<Rightarrow> sys \<Rightarrow> (cpumask_t option \<times> bool) option" where
  "applied_mask i s =
     (if hint_policy i = HINT_POLICY_EXACT \<and> \<not> cpus_empty (affinity_hint i) then
        Some (if cpus_intersects (affinity_hint i) (banned_cpus s) then None else Some (affinity_hint i), warned i)
      else if assigned_obj i \<noteq> NULL then do {
        d \<leftarrow> objs s (assigned_obj i);
        if hint_policy i = HINT_POLICY_SUBSET \<and> \<not> cpus_empty (affinity_hint i) then
          (let m = cpus_and (mask d) (mask d) (affinity_hint i)
           in if \<not> cpus_intersects m (unbanned_cpus s) then Some (None, True) else Some (Some m, warned i))
        else Some (Some (mask d), warned i)
      }
      else Some (None, warned i))"

definition activate_mapping :: "(int \<Rightarrow> first_line) \<Rightarrow> (int \<Rightarrow> bool) \<Rightarrow> addr \<Rightarrow> sys \<Rightarrow> sys option" where
  "activate_mapping rd wr a s = do {
     i \<leftarrow> irqs s a;
     if \<not> moved i then Some s
     else do {
       (valid, w) \<leftarrow> applied_mask i s;
       s \<leftarrow> upd_irq a (\<lambda>i. i\<lparr>warned := w\<rparr>) s;
       case valid of
         None \<Rightarrow> Some s
       | Some m \<Rightarrow> do {
           same \<leftarrow> check_affinity rd i m;
           if same then Some s
           else if assigned_obj i = NULL then Some s
           else if \<not> wr (irq i) then Some s
           else do {
             (buf, _) \<leftarrow> cpumask_scnprintf PATH_MAX m;
             upd_irq a (\<lambda>i. i\<lparr>moved := False\<rparr>)
               (s\<lparr>smp_affinity_log := smp_affinity_log s @ [(irq i, buf)]\<rparr>)
           }
         }
     }
   }"

definition activate_mappings :: "(int \<Rightarrow> first_line) \<Rightarrow> (int \<Rightarrow> bool) \<Rightarrow> sys \<Rightarrow> sys option" where
  "activate_mappings rd wr s = for_each_irq [] (activate_mapping rd wr) s"


section \<open>What is written\<close>

text \<open>Printing a mask never overruns the buffer, and the text reads back as the same mask.\<close>

lemma cpumask_print_parse:
  assumes "1152 < len" "line_end suf"
  shows "\<exists>tx. cpumask_scnprintf len m = Some (tx, length tx) \<and> length tx < len
    \<and> cpumask_parse_user (tx @ suf) d = (RC_OK, m)"
proof -
  have n: "0 < NR_CPUS" "NR_CPUS < 2 ^ 63" "BITS_TO_LONGS NR_CPUS \<le> length (bits d)"
    "9 * ((NR_CPUS + 31) div 32) < len"
    using assms(1) by (simp, simp add: NR_CPUS_def, simp, simp add: NR_CPUS_def)
  obtain tx r where t: "bitmap_scnprintf len (bits m) NR_CPUS = Some (tx, length tx)" "length tx < len"
    "bitmap_parse (tx @ suf) (bits d) NR_CPUS = (RC_OK, r)" "bm_set NR_CPUS r = bm_set NR_CPUS (bits m)"
    using parse_printed [OF n assms(2), of "bits m"] by blast
  obtain rc m' where p: "cpumask_parse_user (tx @ suf) d = (rc, m')" by (cases "cpumask_parse_user (tx @ suf) d")
  then have "map_prod id bits (cpumask_parse_user (tx @ suf) d) = (rc, bits m')" by simp
  then have "rc = RC_OK" "bits m' = r" using t(3) by (simp_all add: cpumask_parse_user.rep_eq)
  with t(4) have "cpus_of m' = cpus_of m" by (simp add: cpus_of_def)
  with p t(1,2) \<open>rc = RC_OK\<close> show ?thesis by (auto simp: cpus_of_inject cpumask_scnprintf.rep_eq)
qed


lemma wf_sys_upd_irq:
  assumes "wf_sys s" "irqs s a = Some i" "skel_irq i' = skel_irq i"
  shows "wf_sys (s\<lparr>irqs := (irqs s)(a \<mapsto> i'), smp_affinity_log := l\<rparr>)"
  using wf_sys_skel [OF same_skel_upd_irq [OF assms(2,3)] assms(1)] by simp

text \<open>Every irq that is assigned is on an object without banned cpus.\<close>

definition placed_unbanned :: "sys \<Rightarrow> bool" where
  "placed_unbanned s \<longleftrightarrow> (\<forall>a \<in> set (interrupts_db s). \<forall>i d. irqs s a = Some i \<longrightarrow>
     objs s (assigned_obj i) = Some d \<longrightarrow> cpus_of (mask d) \<inter> cpus_of (banned_cpus s) = {})"

text \<open>A line of the log is harmless: it reads back as a mask without banned cpus.\<close>

definition safe_write :: "sys \<Rightarrow> int \<times> string \<Rightarrow> bool" where
  "safe_write s = (\<lambda>(n, tx). \<exists>m. cpumask_parse_user tx CPU_MASK_NONE = (RC_OK, m)
     \<and> cpus_of m \<inter> cpus_of (banned_cpus s) = {})"

text \<open>Activation changes nothing but the flags \<open>moved\<close> and \<open>warned\<close> and the log.\<close>

definition irq_flags :: "irq_info \<Rightarrow> irq_info" where
  "irq_flags i = i\<lparr>moved := False, warned := False\<rparr>"

definition act_shape :: "sys \<Rightarrow> sys" where
  "act_shape s = s\<lparr>irqs := map_option irq_flags \<circ> irqs s, smp_affinity_log := []\<rparr>"

definition activated :: "sys \<Rightarrow> sys \<Rightarrow> bool" where
  "activated s s' \<longleftrightarrow> act_shape s' = act_shape s"

lemma activated_refl [simp]: "activated s s"
  by (simp add: activated_def)

lemma activated_trans: "activated s t \<Longrightarrow> activated t u \<Longrightarrow> activated s u"
  by (simp add: activated_def)

lemma activated_skel: "activated s s' \<Longrightarrow> same_skel (s\<lparr>smp_affinity_log := []\<rparr>) (s'\<lparr>smp_affinity_log := []\<rparr>)"
proof -
  have "skel_irq (irq_flags i) = skel_irq i" for i by (simp add: skel_irq_def irq_flags_def)
  then have "skel (s\<lparr>smp_affinity_log := []\<rparr>) = skel (act_shape s)" for s
    by (simp add: skel_def act_shape_def fun_eq_iff option.map_comp comp_def)
  then show "activated s s' \<Longrightarrow> same_skel (s\<lparr>smp_affinity_log := []\<rparr>) (s'\<lparr>smp_affinity_log := []\<rparr>)"
    unfolding activated_def same_skel_def by metis
qed

lemma applied_mask_unbanned:
  assumes "placed_unbanned s" "a \<in> set (interrupts_db s)" "irqs s a = Some i" "applied_mask i s = Some (Some m, w)"
  shows "cpus_of m \<inter> cpus_of (banned_cpus s) = {}"
proof -
  have "cpus_of (mask d) \<inter> cpus_of (banned_cpus s) = {}" if "objs s (assigned_obj i) = Some d" for d
    using assms(1-3) that unfolding placed_unbanned_def by blast
  with assms(4) show ?thesis
    by (fastforce simp: applied_mask_def Let_def split: if_splits bind_splits)
qed

lemma applied_mask_total:
  assumes "wf_sys s" "a \<in> set (interrupts_db s)" "irqs s a = Some i"
  shows "\<exists>v w. applied_mask i s = Some (v, w)"
proof -
  have "ok_lists s" using assms(1) by (simp add: wf_sys_def)
  from ok_listsD(1) [OF this assms(2,3)] show ?thesis
    by (cases "objs s (assigned_obj i)") (auto simp: applied_mask_def Let_def)
qed

text \<open>The outcomes for one irq: nothing, a new warning, or a mask written.\<close>

lemma activate_mapping_cases:
  fixes s a i w' defines "S \<equiv> \<lambda>mv l. s\<lparr>irqs := (irqs s)(a \<mapsto> i\<lparr>warned := w', moved := mv\<rparr>), smp_affinity_log := l\<rparr>"
  assumes i: "irqs s a = Some i" and v: "applied_mask i s = Some (v, w')" and rd: "rd (irq i) \<noteq> NoLine"
  obtains "activate_mapping rd wr a s = Some s"
    | "activate_mapping rd wr a s = Some (S (moved i) (smp_affinity_log s))"
    | m tx where "v = Some m" "cpumask_parse_user tx CPU_MASK_NONE = (RC_OK, m)"
        "activate_mapping rd wr a s = Some (S False (smp_affinity_log s @ [(irq i, tx)]))"
proof (cases "moved i")
  case True
  have u: "upd_irq a (\<lambda>i. i\<lparr>warned := w'\<rparr>) s = Some (S (moved i) (smp_affinity_log s))"
    using i by (simp add: upd_irq_Some S_def)
  show thesis
  proof (cases v)
    case None
    then show thesis using that(2) i v u True by (simp add: activate_mapping_def)
  next
    case (Some m)
    obtain tx where tx: "cpumask_scnprintf PATH_MAX m = Some (tx, length tx)" "cpumask_parse_user tx CPU_MASK_NONE = (RC_OK, m)"
      using cpumask_print_parse [of PATH_MAX "[]" m CPU_MASK_NONE] by (auto simp: PATH_MAX_def line_end_def)
    obtain c where c: "check_affinity rd i m = Some c"
      using rd by (cases "rd (irq i)") (auto simp: check_affinity_def Let_def)
    show thesis
    proof (cases "c \<or> assigned_obj i = NULL \<or> \<not> wr (irq i)")
      case True
      then show thesis using that(2) i v u Some c \<open>moved i\<close> by (auto simp: activate_mapping_def)
    next
      case False
      then show thesis using that(3) [OF Some tx(2)] i v u Some c tx(1) \<open>moved i\<close>
        by (simp add: activate_mapping_def upd_irq_def S_def)
    qed
  qed
qed (use that(1) i in \<open>simp add: activate_mapping_def\<close>)

lemma activate_mapping_ok:
  assumes w: "wf_sys s" and a: "a \<in> set (interrupts_db s)" and pu: "placed_unbanned s"
    and rd: "\<And>n. rd n \<noteq> NoLine"
  shows "\<exists>s' out. activate_mapping rd wr a s = Some s' \<and> wf_sys s' \<and> placed_unbanned s' \<and> activated s s'
    \<and> interrupts_db s' = interrupts_db s \<and> banned_cpus s' = banned_cpus s \<and> objs s' = objs s
    \<and> smp_affinity_log s' = smp_affinity_log s @ out \<and> (\<forall>x \<in> set out. safe_write s x)"
proof -
  have ok: "ok_irqs s" using w by (simp add: wf_sys_def)
  obtain i where i: "irqs s a = Some i" by (rule ok_irqs_valid [OF ok a])
  obtain v w' where v: "applied_mask i s = Some (v, w')" using applied_mask_total [OF w a i] by blast
  let ?s = "\<lambda>mv l. s\<lparr>irqs := (irqs s)(a \<mapsto> i\<lparr>warned := w', moved := mv\<rparr>), smp_affinity_log := l\<rparr>"
  have good: "wf_sys (?s mv l)" "placed_unbanned (?s mv l)" for mv l
    using wf_sys_upd_irq [OF w i, of "i\<lparr>warned := w', moved := mv\<rparr>" l] pu i
    by (auto simp: placed_unbanned_def skel_irq_def)
  have act: "activated s (?s mv l)" for mv l using i by (simp add: activated_def act_shape_def irq_flags_def fun_eq_iff)
  show ?thesis
  proof (cases rule: activate_mapping_cases [OF i v, of rd wr, OF rd])
    case 1
    with w pu show ?thesis by auto
  next
    case 2
    with good [where mv = "moved i" and l = "smp_affinity_log s"] act [where mv = "moved i" and l = "smp_affinity_log s"] show ?thesis by auto
  next
    case (3 m tx)
    have "safe_write s (irq i, tx)"
      using applied_mask_unbanned [OF pu a i, of m w'] v 3(1,2) by (simp add: safe_write_def)
    with 3(3) good [where mv = False and l = "smp_affinity_log s @ [(irq i, tx)]"]
      act [where mv = False and l = "smp_affinity_log s @ [(irq i, tx)]"] show ?thesis by auto
  qed
qed

lemma activate_mappings_ok:
  assumes "wf_sys s" "placed_unbanned s" "\<And>n. rd n \<noteq> NoLine"
  shows "\<exists>s' out. activate_mappings rd wr s = Some s' \<and> wf_sys s' \<and> activated s s' \<and> objs s' = objs s
    \<and> smp_affinity_log s' = smp_affinity_log s @ out \<and> (\<forall>x \<in> set out. safe_write s x)"
proof -
  let ?I = "\<lambda>t. wf_sys t \<and> placed_unbanned t \<and> activated s t \<and> interrupts_db t = interrupts_db s \<and> banned_cpus t = banned_cpus s
    \<and> objs t = objs s \<and> (\<exists>out. smp_affinity_log t = smp_affinity_log s @ out \<and> (\<forall>x \<in> set out. safe_write s x))"
  have "\<exists>s'. for_each (activate_mapping rd wr) (interrupts_db s) s = Some s' \<and> ?I s'"
  proof (rule for_each_total_inv)
    show "?I s" using assms(1,2) by simp
  next
    fix a t assume a: "a \<in> set (interrupts_db s)" and t: "?I t"
    have sw: "safe_write t = safe_write s" using t by (simp add: safe_write_def)
    obtain t' out where t': "activate_mapping rd wr a t = Some t'" "wf_sys t'" "placed_unbanned t'" "activated t t'"
      "interrupts_db t' = interrupts_db t" "banned_cpus t' = banned_cpus t" "objs t' = objs t"
      "smp_affinity_log t' = smp_affinity_log t @ out" "\<forall>x \<in> set out. safe_write t x"
      using activate_mapping_ok [of t a rd wr] t a assms(3) by auto
    have "activated s t'" using t t'(4) activated_trans by blast
    with t t' show "\<exists>t'. activate_mapping rd wr a t = Some t' \<and> ?I t'" unfolding sw by fastforce
  qed
  then show ?thesis by (auto simp: activate_mappings_def for_each_irq_def)
qed

section \<open>The exact effect of a pass\<close>

text \<open>The specification on sets of cpus: the cpus an irq is to be bound to, if any; the write that is due
  for it, given what its file holds and whether it can be written; and all writes of a pass.\<close>

definition wanted_cpus :: "sys \<Rightarrow> irq_info \<Rightarrow> nat set option" where
  "wanted_cpus s i =
     (let hint = cpus_of (affinity_hint i)
      in if hint_policy i = HINT_POLICY_EXACT \<and> hint \<noteq> {} then
           (if hint \<inter> cpus_of (banned_cpus s) = {} then Some hint else None)
         else case objs s (assigned_obj i) of
           None \<Rightarrow> None
         | Some d \<Rightarrow>
             if hint_policy i = HINT_POLICY_SUBSET \<and> hint \<noteq> {} then
               (if cpus_of (mask d) \<inter> hint \<inter> cpus_of (unbanned_cpus s) = {} then None else Some (cpus_of (mask d) \<inter> hint))
             else Some (cpus_of (mask d)))"

definition due_write :: "(int \<Rightarrow> first_line) \<Rightarrow> (int \<Rightarrow> bool) \<Rightarrow> sys \<Rightarrow> irq_info \<Rightarrow> nat set option" where
  "due_write rd wr s i =
     (case (wanted_cpus s i, rd (irq i)) of
        (Some S, Line l) \<Rightarrow>
          if moved i \<and> assigned_obj i \<noteq> NULL \<and> wr (irq i) \<and> cpus_of (snd (cpumask_parse_user (c_string l) CPU_MASK_NONE)) \<noteq> S
          then Some S else None
      | _ \<Rightarrow> None)"

definition due_writes :: "(int \<Rightarrow> first_line) \<Rightarrow> (int \<Rightarrow> bool) \<Rightarrow> sys \<Rightarrow> (int \<times> nat set) list" where
  "due_writes rd wr s = concat (map (\<lambda>a. case irqs s a of
     Some i \<Rightarrow> (case due_write rd wr s i of Some S \<Rightarrow> [(irq i, S)] | None \<Rightarrow> []) | None \<Rightarrow> []) (interrupts_db s))"

text \<open>A line of the log and the cpus it stands for.\<close>

definition binds :: "int \<times> string \<Rightarrow> int \<times> nat set \<Rightarrow> bool" where
  "binds = (\<lambda>(n, tx) (n', S). n = n' \<and> (\<exists>m. cpumask_parse_user tx CPU_MASK_NONE = (RC_OK, m) \<and> cpus_of m = S))"

text \<open>The irq after the pass: it no longer counts as moved when its mask was written, and it is marked as
  warned when its hint left no cpu.\<close>

definition after_activation :: "(int \<Rightarrow> first_line) \<Rightarrow> (int \<Rightarrow> bool) \<Rightarrow> sys \<Rightarrow> irq_info \<Rightarrow> irq_info" where
  "after_activation rd wr s i = i\<lparr>moved := moved i \<and> due_write rd wr s i = None,
     warned := warned i \<or> moved i \<and> hint_policy i = HINT_POLICY_SUBSET \<and> assigned_obj i \<noteq> NULL \<and> wanted_cpus s i = None\<rparr>"

lemma applied_mask_wanted:
  assumes "assigned_obj i = NULL \<longleftrightarrow> objs s (assigned_obj i) = None"
  shows "\<exists>v. applied_mask i s = Some (v, warned i \<or> hint_policy i = HINT_POLICY_SUBSET \<and> assigned_obj i \<noteq> NULL \<and> wanted_cpus s i = None)
    \<and> map_option cpus_of v = wanted_cpus s i"
  using assms by (auto simp: applied_mask_def wanted_cpus_def Let_def Int_assoc)

lemma activate_mapping_exact:
  assumes i: "irqs s a = Some i" and o: "assigned_obj i = NULL \<longleftrightarrow> objs s (assigned_obj i) = None" and rd: "rd (irq i) \<noteq> NoLine"
  shows "\<exists>out. activate_mapping rd wr a s
      = Some (s\<lparr>irqs := (irqs s)(a \<mapsto> after_activation rd wr s i), smp_affinity_log := smp_affinity_log s @ out\<rparr>)
    \<and> list_all2 binds out (case due_write rd wr s i of Some S \<Rightarrow> [(irq i, S)] | None \<Rightarrow> [])"
proof (cases "moved i")
  case False
  then have "due_write rd wr s i = None" "after_activation rd wr s i = i"
    by (simp_all add: due_write_def after_activation_def split: option.split first_line.split)
  moreover have "s\<lparr>irqs := (irqs s)(a \<mapsto> i)\<rparr> = s" using i by (simp add: fun_upd_idem)
  ultimately show ?thesis using i False by (simp add: activate_mapping_def)
next
  case True
  then have mv: "i\<lparr>moved := True, warned := w\<rparr> = i\<lparr>warned := w\<rparr>" for w by (cases i) simp
  obtain v where v: "applied_mask i s = Some (v, warned i \<or> hint_policy i = HINT_POLICY_SUBSET \<and> assigned_obj i \<noteq> NULL \<and> wanted_cpus s i = None)"
    "map_option cpus_of v = wanted_cpus s i" using applied_mask_wanted [OF o] by blast
  show ?thesis
  proof (cases v)
    case None
    then have "wanted_cpus s i = None" "due_write rd wr s i = None" using v(2) by (auto simp: due_write_def)
    then show ?thesis using i v(1) None True by (simp add: activate_mapping_def upd_irq_Some after_activation_def mv)
  next
    case (Some m)
    then have w: "wanted_cpus s i = Some (cpus_of m)" using v(2) by auto
    obtain tx where tx: "cpumask_scnprintf PATH_MAX m = Some (tx, length tx)" "cpumask_parse_user tx CPU_MASK_NONE = (RC_OK, m)"
      using cpumask_print_parse [of PATH_MAX "[]" m CPU_MASK_NONE] by (auto simp: PATH_MAX_def line_end_def)
    have c: "check_affinity rd i m = Some (\<not> (\<exists>l. rd (irq i) = Line l
        \<and> cpus_of (snd (cpumask_parse_user (c_string l) CPU_MASK_NONE)) \<noteq> cpus_of m))"
      using rd by (cases "rd (irq i)") (auto simp: check_affinity_def Let_def)
    show ?thesis
    proof (cases "due_write rd wr s i")
      case None
      then have "check_affinity rd i m = Some True \<or> assigned_obj i = NULL \<or> \<not> wr (irq i)"
        unfolding c using w True by (auto simp: due_write_def split: if_splits)
      then show ?thesis using None i v(1) w c Some True
        by (auto simp: activate_mapping_def upd_irq_Some after_activation_def mv)
    next
      case (Some S)
      then have "S = cpus_of m" "check_affinity rd i m = Some False" "assigned_obj i \<noteq> NULL" "wr (irq i)"
        unfolding c using w by (auto simp: due_write_def split: first_line.splits if_splits)
      then have "activate_mapping rd wr a s
          = Some (s\<lparr>irqs := (irqs s)(a \<mapsto> after_activation rd wr s i), smp_affinity_log := smp_affinity_log s @ [(irq i, tx)]\<rparr>)"
        using Some i v(1) w \<open>v = Some m\<close> True tx(1) by (simp add: activate_mapping_def upd_irq_def after_activation_def)
      moreover have "binds (irq i, tx) (irq i, S)" using tx(2) \<open>S = cpus_of m\<close> by (simp add: binds_def)
      ultimately show ?thesis using Some by (intro exI [of _ "[(irq i, tx)]"]) simp
    qed
  qed
qed

lemma due_write_cong:
  assumes "objs t = objs s" "banned_cpus t = banned_cpus s" "unbanned_cpus t = unbanned_cpus s"
  shows "due_write rd wr t = due_write rd wr s" "after_activation rd wr t = after_activation rd wr s"
proof -
  have w: "wanted_cpus t i = wanted_cpus s i" for i unfolding wanted_cpus_def assms ..
  show d: "due_write rd wr t = due_write rd wr s" by (rule ext) (simp add: due_write_def w)
  show "after_activation rd wr t = after_activation rd wr s" by (rule ext) (simp add: after_activation_def w d)
qed

lemma activate_each_exact:
  assumes "distinct xs" "\<forall>a \<in> set xs. \<exists>i. irqs s a = Some i \<and> (assigned_obj i = NULL \<longleftrightarrow> objs s (assigned_obj i) = None)"
    "\<And>n. rd n \<noteq> NoLine"
  shows "\<exists>out. for_each (activate_mapping rd wr) xs s
      = Some (s\<lparr>irqs := \<lambda>a. if a \<in> set xs then map_option (after_activation rd wr s) (irqs s a) else irqs s a,
                smp_affinity_log := smp_affinity_log s @ out\<rparr>)
    \<and> list_all2 binds out (concat (map (\<lambda>a. case irqs s a of
     Some i \<Rightarrow> (case due_write rd wr s i of Some S \<Rightarrow> [(irq i, S)] | None \<Rightarrow> []) | None \<Rightarrow> []) xs))"
  using assms(1,2)
proof (induction xs arbitrary: s)
  case (Cons x xs)
  obtain i where i: "irqs s x = Some i" "assigned_obj i = NULL \<longleftrightarrow> objs s (assigned_obj i) = None" using Cons.prems(2) by auto
  obtain out where o: "activate_mapping rd wr x s
      = Some (s\<lparr>irqs := (irqs s)(x \<mapsto> after_activation rd wr s i), smp_affinity_log := smp_affinity_log s @ out\<rparr>)"
    "list_all2 binds out (case due_write rd wr s i of Some S \<Rightarrow> [(irq i, S)] | None \<Rightarrow> [])"
    using activate_mapping_exact [where rd = rd and wr = wr, OF i assms(3)] by blast
  let ?t = "s\<lparr>irqs := (irqs s)(x \<mapsto> after_activation rd wr s i), smp_affinity_log := smp_affinity_log s @ out\<rparr>"
  have t: "due_write rd wr ?t = due_write rd wr s" "after_activation rd wr ?t = after_activation rd wr s"
    by (rule due_write_cong; simp)+
  have "\<forall>a \<in> set xs. irqs ?t a = irqs s a" using Cons.prems(1) by auto
  then have c: "map (\<lambda>a. case irqs ?t a of Some i \<Rightarrow> (case due_write rd wr s i of Some S \<Rightarrow> [(irq i, S)] | None \<Rightarrow> []) | None \<Rightarrow> []) xs
      = map (\<lambda>a. case irqs s a of Some i \<Rightarrow> (case due_write rd wr s i of Some S \<Rightarrow> [(irq i, S)] | None \<Rightarrow> []) | None \<Rightarrow> []) xs"
    by (intro map_cong) auto
  obtain out' where o': "for_each (activate_mapping rd wr) xs ?t
      = Some (?t\<lparr>irqs := \<lambda>a. if a \<in> set xs then map_option (after_activation rd wr s) (irqs ?t a) else irqs ?t a,
                smp_affinity_log := smp_affinity_log ?t @ out'\<rparr>)"
    "list_all2 binds out' (concat (map (\<lambda>a. case irqs s a of
     Some i \<Rightarrow> (case due_write rd wr s i of Some S \<Rightarrow> [(irq i, S)] | None \<Rightarrow> []) | None \<Rightarrow> []) xs))"
    using Cons.IH [of ?t] Cons.prems unfolding t c by fastforce
  have "(\<lambda>a. if a \<in> set xs then map_option (after_activation rd wr s) (irqs ?t a) else irqs ?t a)
      = (\<lambda>a. if a \<in> set (x # xs) then map_option (after_activation rd wr s) (irqs s a) else irqs s a)"
    using i(1) Cons.prems(1) by auto
  then have "for_each (activate_mapping rd wr) (x # xs) s
      = Some (s\<lparr>irqs := \<lambda>a. if a \<in> set (x # xs) then map_option (after_activation rd wr s) (irqs s a) else irqs s a,
                smp_affinity_log := smp_affinity_log s @ out @ out'\<rparr>)" using o(1) o'(1) by simp
  then show ?case using list_all2_appendI [OF o(2) o'(2)] i(1) by auto
next
  case Nil
  show ?case by (rule exI [of _ "[]"]) simp
qed

lemma activate_mappings_exact:
  assumes w: "wf_sys s" and rd: "\<And>n. rd n \<noteq> NoLine"
  shows "\<exists>out. activate_mappings rd wr s
      = Some (s\<lparr>irqs := \<lambda>a. if a \<in> set (interrupts_db s) then map_option (after_activation rd wr s) (irqs s a) else irqs s a,
                smp_affinity_log := smp_affinity_log s @ out\<rparr>)
    \<and> list_all2 binds out (due_writes rd wr s)"
proof -
  have ok: "ok_irqs s" "ok_lists s" using w by (simp_all add: wf_sys_def)
  then have d: "distinct (interrupts_db s)" "objs s NULL = None" by (simp_all add: ok_irqs_def)
  have "\<exists>i. irqs s a = Some i \<and> (assigned_obj i = NULL \<longleftrightarrow> objs s (assigned_obj i) = None)" if a: "a \<in> set (interrupts_db s)" for a
    using ok_irqs_valid [OF ok(1) a] ok_listsD(1) [OF ok(2) a] d(2) by metis
  then show ?thesis using activate_each_exact [OF d(1), of s rd wr] rd
    by (simp add: activate_mappings_def for_each_irq_def due_writes_def)
qed

text \<open>A second pass over the same files writes nothing and changes nothing.\<close>

lemma activate_mappings_again:
  assumes w: "wf_sys s" and rd: "\<And>n. rd n \<noteq> NoLine" and s': "activate_mappings rd wr s = Some s'"
  shows "activate_mappings rd wr s' = Some s'"
proof -
  have f: "irq (after_activation rd wr s i) = irq i" "assigned_obj (after_activation rd wr s i) = assigned_obj i"
    "hint_policy (after_activation rd wr s i) = hint_policy i" "affinity_hint (after_activation rd wr s i) = affinity_hint i"
    "moved (after_activation rd wr s i) \<longleftrightarrow> moved i \<and> due_write rd wr s i = None" for i by (simp_all add: after_activation_def)
  have ww: "wanted_cpus s (after_activation rd wr s i) = wanted_cpus s i" for i unfolding wanted_cpus_def f ..
  have tw: "due_write rd wr s (after_activation rd wr s i) = None" for i
    unfolding due_write_def [of _ _ _ "after_activation rd wr s i"] ww f
    by (auto simp: due_write_def split: option.split first_line.split)
  have aa: "after_activation rd wr s (after_activation rd wr s i) = after_activation rd wr s i" for i
    unfolding after_activation_def [of _ _ _ "after_activation rd wr s i"] tw ww f by (cases i) (auto simp: after_activation_def)
  obtain out where o: "s' = s\<lparr>irqs := \<lambda>a. if a \<in> set (interrupts_db s) then map_option (after_activation rd wr s) (irqs s a) else irqs s a,
                smp_affinity_log := smp_affinity_log s @ out\<rparr>"
    using activate_mappings_exact [where rd = rd and wr = wr, OF w rd] s' by fastforce
  have t: "due_write rd wr s' = due_write rd wr s" "after_activation rd wr s' = after_activation rd wr s"
    by (rule due_write_cong; simp add: o)+
  have "skel_irq (after_activation rd wr s i) = skel_irq i" for i by (simp add: skel_irq_def after_activation_def)
  then have "same_skel s (s'\<lparr>smp_affinity_log := smp_affinity_log s\<rparr>)"
    by (simp add: o same_skel_def skel_def fun_eq_iff option.map_comp comp_def)
  from wf_sys_skel [OF this w] have "wf_sys s'" by simp
  then obtain out' where o': "activate_mappings rd wr s'
      = Some (s'\<lparr>irqs := \<lambda>a. if a \<in> set (interrupts_db s') then map_option (after_activation rd wr s) (irqs s' a) else irqs s' a,
                smp_affinity_log := smp_affinity_log s' @ out'\<rparr>)" "list_all2 binds out' (due_writes rd wr s')"
    using activate_mappings_exact [where s = s' and rd = rd and wr = wr, OF _ rd] unfolding t by blast
  have "due_writes rd wr s' = []" unfolding due_writes_def t by (auto simp: o tw split: option.splits)
  moreover have "(\<lambda>a. if a \<in> set (interrupts_db s') then map_option (after_activation rd wr s) (irqs s' a) else irqs s' a) = irqs s'"
    by (simp add: o fun_eq_iff option.map_comp comp_def aa)
  ultimately show ?thesis using o' by simp
qed

end
