(* ===== verification/Procinterrupts.thy ===== *)
theory Procinterrupts
  imports Activate
begin

text \<open>
  \<open>procinterrupts.c\<close>: irq counts are read from \<open>/proc/interrupts\<close> and cpu loads from \<open>/proc/stat\<close>;
  the loads are added up the topology tree and a share of each object's load is attributed to the
  irqs on it.

  A file is given by the list of the contents the buffer \<open>line\<close> has when the loop body runs (after
  the header line). Both loops test \<open>feof\<close> before \<open>getline\<close> and ignore the result \<open>-1\<close>, so for a file
  that ends in a newline there is one more run of the body, with a buffer whose contents the C
  library does not specify: the list has one more element then.
\<close>

section \<open>Reading numbers (stdlib.h, stdio.h)\<close>

definition isblank :: "char \<Rightarrow> bool" where
  "isblank c \<longleftrightarrow> c = CHR '' '' \<or> c = CHR 0x09"

text \<open>\<open>strstr(s, p) != NULL\<close>.\<close>

fun strstr :: "string \<Rightarrow> string \<Rightarrow> bool" where
  "strstr [] p \<longleftrightarrow> p = []"
| "strstr (c # s) p \<longleftrightarrow> take (length p) (c # s) = p \<or> strstr s p"

definition skip_sign :: "string \<Rightarrow> bool \<times> string" where
  "skip_sign s = (case s of [] \<Rightarrow> (False, [])
     | c # s' \<Rightarrow> if c = CHR ''-'' then (True, s') else if c = CHR ''+'' then (False, s') else (False, s))"

definition digits_value :: "string \<Rightarrow> nat" where
  "digits_value ds = foldl (\<lambda>n c. n * 10 + (of_char c - 48)) 0 ds"

text \<open>
  \<open>strtoull(s, &end, 10)\<close> and \<open>strtoul\<close>: white space, a sign, digits; the value is clipped to
  \<open>ULLONG_MAX\<close> and negated in unsigned arithmetic. Without digits there is no conversion, the value is
  0 and \<open>end\<close> is \<open>s\<close>.
\<close>

definition scan_u64 :: "string \<Rightarrow> (u64 \<times> string) option" where
  "scan_u64 s =
     (let (neg, r) = skip_sign (dropWhile isspace s);
          ds = takeWhile isdigit r;
          v = digits_value ds
      in if ds = [] then None
         else Some (if v < 2 ^ 64 then (if neg then - of_nat v else of_nat v) else ULLONG_MAX,
                    dropWhile isdigit r))"

definition strtoul :: "string \<Rightarrow> u64" where
  "strtoul s = (case scan_u64 s of None \<Rightarrow> 0 | Some (v, _) \<Rightarrow> v)"

text \<open>The conversion of an \<open>unsigned long\<close> to \<open>int\<close>.\<close>

definition to_int :: "u64 \<Rightarrow> int" where
  "to_int v = sint (ucast v :: c_int)"


section \<open>Reading /proc/interrupts\<close>

text \<open>The loop that adds up the per-cpu counts of a line, with the number of counts.\<close>

function sum_counts :: "string \<Rightarrow> u64 \<Rightarrow> nat \<Rightarrow> u64 \<times> nat" where
  "sum_counts c cnt cpunr =
     (case scan_u64 c of None \<Rightarrow> (cnt, cpunr) | Some (v, c2) \<Rightarrow> sum_counts c2 (cnt + v) (Suc cpunr))"
  by pat_completeness auto

lemma length_skip_sign: "length (snd (skip_sign u)) \<le> length u"
  by (cases u) (auto simp: skip_sign_def)

lemma scan_u64_shorter: "scan_u64 s = Some (v, r) \<Longrightarrow> length r < length s"
proof -
  assume a: "scan_u64 s = Some (v, r)"
  obtain neg t where t: "skip_sign (dropWhile isspace s) = (neg, t)" by (cases "skip_sign (dropWhile isspace s)")
  have "takeWhile isdigit t \<noteq> []" "r = dropWhile isdigit t"
    using a t by (auto simp: scan_u64_def Let_def split: if_splits)
  then have "length r < length t"
    by (metis add_less_cancel_right length_greater_0_conv length_append takeWhile_dropWhile_id add_0)
  also have "length t \<le> length (dropWhile isspace s)"
    using length_skip_sign [of "dropWhile isspace s"] t by simp
  also have "\<dots> \<le> length s" by (rule length_dropWhile_le)
  finally show ?thesis .
qed

termination sum_counts
  by (relation "measure (\<lambda>(c, _). length c)") (auto dest: scan_u64_shorter)

declare sum_counts.simps [simp del]

text \<open>The body of the loop for one line, in two parts; the result says whether the loop goes on.\<close>

definition note_msi :: "string \<Rightarrow> sys \<Rightarrow> sys" where
  "note_msi line s = (if \<not> proc_int_has_msi s \<and> strstr line ''MSI'' then s\<lparr>proc_int_has_msi := True\<rparr> else s)"

definition count_line :: "string \<Rightarrow> sys \<Rightarrow> (bool \<times> sys) option" where
  "count_line line s =
     (let c = dropWhile isblank line
      in if \<not> (c \<noteq> [] \<and> isdigit (hd c)) then Some (False, s)
         else if CHR '':'' \<notin> set line then Some (True, s)
         else do {
           let number = to_int (strtoul (takeWhile (\<lambda>x. x \<noteq> CHR '':'') line));
           entry \<leftarrow> get_irq_info number s;
           case entry of
             None \<Rightarrow> Some (False, s\<lparr>need_rescan := True\<rparr>)
           | Some a \<Rightarrow> do {
               i \<leftarrow> irqs s a;
               let (cnt, cpunr) = sum_counts (tl (dropWhile (\<lambda>x. x \<noteq> CHR '':'') line)) 0 0;
               if cpunr \<noteq> core_count s then Some (False, s\<lparr>need_rescan := True\<rparr>)
               else if cnt < i_irq_count i then Some (False, s\<lparr>need_rescan := True\<rparr>)
               else do {
                 s \<leftarrow> upd_irq a (\<lambda>i. i\<lparr>last_irq_count := i_irq_count i, i_irq_count := cnt\<rparr>) s;
                 Some (True, if i_type i = IRQ_TYPE_MSI \<or> i_type i = IRQ_TYPE_MSIX
                             then s\<lparr>msi_found_in_sysfs := True\<rparr> else s)
               }
             }
         })"

definition proc_interrupts_line :: "string \<Rightarrow> sys \<Rightarrow> (bool \<times> sys) option" where
  "proc_interrupts_line line s = count_line line (note_msi line s)"

primrec proc_interrupts_loop :: "string list \<Rightarrow> sys \<Rightarrow> sys option" where
  "proc_interrupts_loop [] s = Some s"
| "proc_interrupts_loop (line # ls) s = do {
     (go, s) \<leftarrow> proc_interrupts_line line s;
     if go then proc_interrupts_loop ls s else Some s
   }"

text \<open>\<open>None\<close> for a file that cannot be opened. An empty file has no header: \<open>getline\<close> then returns
  \<open>-1\<close>, end of file is set, and the loop body does not run.\<close>

definition parse_proc_interrupts :: "string list option \<Rightarrow> sys \<Rightarrow> sys option" where
  "parse_proc_interrupts file s =
     (case file of
        None \<Rightarrow> Some s
      | Some ls \<Rightarrow> do {
          s \<leftarrow> proc_interrupts_loop ls s;
          Some (if proc_int_has_msi s \<and> \<not> msi_found_in_sysfs s \<and> \<not> need_rescan s
                then s\<lparr>msi_found_in_sysfs := True\<rparr> else s)
        })"


section \<open>Attributing load to irqs\<close>

definition assign_load_slice :: "u64 \<Rightarrow> addr \<Rightarrow> sys \<Rightarrow> sys option" where
  "assign_load_slice load_slice a s =
     upd_irq a (\<lambda>i. let l = (i_irq_count i - last_irq_count i) * load_slice
                    in i\<lparr>i_load := if l = 0 then l + 1 else l\<rparr>) s"

partial_function (option) get_parent_branch_irq_count_share :: "addr \<Rightarrow> sys \<Rightarrow> u64 option" where
  "get_parent_branch_irq_count_share a s = do {
     d \<leftarrow> objs s a;
     if parent d \<noteq> NULL then do {
       t \<leftarrow> get_parent_branch_irq_count_share (parent d) s;
       p \<leftarrow> objs s (parent d);
       if glength (children p) = 0 then None
       else Some (t div ucast (glength (children p)) + irq_count d)
     }
     else Some (irq_count d)
   }"

partial_function (option) get_children_branch_irq_count :: "sys \<Rightarrow> addr \<Rightarrow> u64 \<Rightarrow> u64 option" where
  "get_children_branch_irq_count s a tot = do {
     d \<leftarrow> objs s a;
     tot \<leftarrow> (if 0 < glength (children d)
              then for_each (\<lambda>c t. get_children_branch_irq_count s c t) (children d) tot
              else Some tot);
     Some (tot + irq_count d)
   }"

definition compute_irq_branch_load_share :: "addr \<Rightarrow> sys \<Rightarrow> sys option" where
  "compute_irq_branch_load_share a s = do {
     d \<leftarrow> objs s a;
     if 0 < glength (interrupts d) then do {
       n \<leftarrow> get_parent_branch_irq_count_share a s;
       n \<leftarrow> (if 0 < glength (children d)
            then for_each_object (children d) (get_children_branch_irq_count s) n else Some n);
       let load_slice = (if n \<noteq> 0 then load d div n else 1);
       for_each_irq (interrupts d) (assign_load_slice load_slice) s
     }
     else Some s
   }"

definition accumulate_irq_count :: "sys \<Rightarrow> addr \<Rightarrow> u64 \<Rightarrow> u64 option" where
  "accumulate_irq_count s a acc = do {
     i \<leftarrow> irqs s a;
     Some (acc + (i_irq_count i - last_irq_count i))
   }"

text \<open>\<open>accumulate_irq_count\<close> adds to \<open>d->irq_count\<close> through the \<open>data\<close> pointer, which nothing else
  reads or writes during the walk: the sum is formed and stored.\<close>

partial_function (option) accumulate_interrupts :: "addr \<Rightarrow> sys \<Rightarrow> sys option" where
  "accumulate_interrupts a s = do {
     d \<leftarrow> objs s a;
     s \<leftarrow> (if 0 < glength (children d)
          then for_each (\<lambda>c t. accumulate_interrupts c t) (children d) s else Some s);
     s \<leftarrow> upd_obj a (\<lambda>d. d\<lparr>irq_count := 0\<rparr>) s;
     d \<leftarrow> objs s a;
     if 0 < glength (interrupts d) then do {
       n \<leftarrow> for_each (accumulate_irq_count s)
             (if interrupts d \<noteq> [] then interrupts d else interrupts_db s) (irq_count d);
       upd_obj a (\<lambda>d. d\<lparr>irq_count := n\<rparr>) s
     }
     else Some s
   }"

definition accumulate_load :: "sys \<Rightarrow> addr \<Rightarrow> u64 \<Rightarrow> u64 option" where
  "accumulate_load s a ld = do {
     d \<leftarrow> objs s a;
     Some (ld + load d)
   }"

text \<open>The second walk of \<open>set_load\<close> adds the loads of the children to \<open>d->load\<close>, just cleared.\<close>

partial_function (option) set_load :: "addr \<Rightarrow> sys \<Rightarrow> sys option" where
  "set_load a s = do {
     d \<leftarrow> objs s a;
     if 0 < glength (children d) then do {
       s \<leftarrow> for_each (\<lambda>c t. set_load c t) (children d) s;
       s \<leftarrow> upd_obj a (\<lambda>d. d\<lparr>load := 0\<rparr>) s;
       d \<leftarrow> objs s a;
       n \<leftarrow> for_each (accumulate_load s) (children d) (load d);
       upd_obj a (\<lambda>d. d\<lparr>load := n\<rparr>) s
     }
     else Some s
   }"



section \<open>Reading /proc/stat\<close>

definition compare_cpus :: "sys \<Rightarrow> int \<Rightarrow> addr \<Rightarrow> int option" where
  "compare_cpus s n a = map_option (\<lambda>d. sint (of_int (number d) - of_int n :: c_int)) (objs s a)"

definition find_cpu_core :: "int \<Rightarrow> sys \<Rightarrow> addr option option" where
  "find_cpu_core cpunr s = find_custom (compare_cpus s cpunr) (cpus s)"

definition get_cpu_count :: "sys \<Rightarrow> int" where
  "get_cpu_count s = sint (glength (cpus s))"

text \<open>\<open>sscanf(line, "%*s %*u %*u %*u %*u %*u %llu %llu", ...)\<close>, and \<open>None\<close> when it assigns fewer than
  two values. \<open>%u\<close> and \<open>%llu\<close> skip white space and read a number as \<open>strtoull\<close> does.\<close>

primrec scan_fields :: "nat \<Rightarrow> string \<Rightarrow> (u64 list \<times> string) option" where
  "scan_fields 0 s = Some ([], s)"
| "scan_fields (Suc n) s = do {
     (v, r) \<leftarrow> scan_u64 s;
     (vs, r) \<leftarrow> scan_fields n r;
     Some (v # vs, r)
   }"

definition scan_stat_line :: "string \<Rightarrow> (u64 \<times> u64) option" where
  "scan_stat_line line =
     (let t = dropWhile isspace line
      in if t = [] then None
         else do {
           (vs, _) \<leftarrow> scan_fields 7 (dropWhile (\<lambda>c. \<not> isspace c) t);
           Some (vs ! 5, vs ! 6)
         })"

text \<open>
  \<open>cpu->load *= NSEC_PER_SEC/HZ\<close>: the right-hand side is a \<open>double\<close>, so the load is converted to
  \<open>double\<close>, multiplied and converted back. \<open>hz\<close> divides \<open>10 ^ 9\<close> (it is 100 on Linux), so the quotient
  is exact; the conversion back saturates on AArch64.
\<close>

definition jiffies_to_nsec :: "nat \<Rightarrow> u64 \<Rightarrow> u64" where
  "jiffies_to_nsec hz l =
     of_nat (min (2 ^ 64 - 1) (round_sig 53 (round_sig 53 (unat l) * (10 ^ 9 div hz))))"

text \<open>The result of one line: \<open>None\<close> to leave the loop, else the number of cpus counted (0 or 1).\<close>

definition proc_stat_line :: "nat \<Rightarrow> string \<Rightarrow> sys \<Rightarrow> (nat option \<times> sys) option" where
  "proc_stat_line hz line s =
     (if \<not> strstr line ''cpu'' then Some (None, s)
      else do {
        let cpunr = to_int (strtoul (drop 3 line));
        b \<leftarrow> cpu_isset cpunr (banned_cpus s);
        if b then Some (Some 0, s)
        else case scan_stat_line line of
          None \<Rightarrow> Some (None, s)
        | Some (irq_load, softirq_load) \<Rightarrow> do {
            entry \<leftarrow> find_cpu_core cpunr s;
            case entry of
              None \<Rightarrow> Some (None, s)
            | Some a \<Rightarrow> do {
                s \<leftarrow> upd_obj a (\<lambda>d.
                  let d = (if cycle_count s \<noteq> 0
                           then d\<lparr>load := jiffies_to_nsec hz ((irq_load + softirq_load) - last_load d)\<rparr> else d)
                  in d\<lparr>last_load := irq_load + softirq_load\<rparr>) s;
                Some (Some 1, s)
              }
          }
      })"

primrec proc_stat_loop :: "nat \<Rightarrow> string list \<Rightarrow> nat \<Rightarrow> sys \<Rightarrow> (nat \<times> sys) option" where
  "proc_stat_loop hz [] cpucount s = Some (cpucount, s)"
| "proc_stat_loop hz (line # ls) cpucount s = do {
     (r, s) \<leftarrow> proc_stat_line hz line s;
     case r of None \<Rightarrow> Some (cpucount, s) | Some k \<Rightarrow> proc_stat_loop hz ls (cpucount + k) s
   }"

text \<open>The walks over the tree after the loop.\<close>

definition attribute_loads :: "sys \<Rightarrow> sys option" where
  "attribute_loads s = do {
     s \<leftarrow> for_each_object (numa_nodes s) set_load s;
     s \<leftarrow> for_each_object (numa_nodes s) accumulate_interrupts s;
     s \<leftarrow> for_each_object (cpus s) compute_irq_branch_load_share s;
     s \<leftarrow> for_each_object (cache_domains s) compute_irq_branch_load_share s;
     s \<leftarrow> for_each_object (packages s) compute_irq_branch_load_share s;
     for_each_object (numa_nodes s) compute_irq_branch_load_share s
   }"

definition parse_proc_stat :: "nat \<Rightarrow> string list option \<Rightarrow> sys \<Rightarrow> sys option" where
  "parse_proc_stat hz file s =
     (case file of
        None \<Rightarrow> Some s
      | Some ls \<Rightarrow> do {
          (cpucount, s) \<leftarrow> proc_stat_loop hz ls 0 s;
          if int cpucount \<noteq> get_cpu_count s then Some s else attribute_loads s
        })"


section \<open>Walks over the tree\<close>

text \<open>The level of an object in the tree; children are on a lower level than their parent.\<close>

definition tree_level :: "obj_type_e \<Rightarrow> nat" where
  "tree_level t = (case t of OBJ_TYPE_CPU \<Rightarrow> 0 | OBJ_TYPE_CACHE \<Rightarrow> 1 | OBJ_TYPE_PACKAGE \<Rightarrow> 2 | OBJ_TYPE_NODE \<Rightarrow> 3)"

lemma tree_level_less: "tree_level t < 4"
  by (cases t) (simp_all add: tree_level_def)

definition ok_levels :: "sys \<Rightarrow> bool" where
  "ok_levels s \<longleftrightarrow> (\<forall>a d. objs s a = Some d \<longrightarrow> length (children d) < 2 ^ 32 \<and>
     (\<forall>c \<in> set (children d). \<exists>e. objs s c = Some e \<and> tree_level (obj_type e) < tree_level (obj_type d)))"

lemma ok_levelsD:
  assumes "ok_levels s" "objs s a = Some d"
  shows "length (children d) < 2 ^ 32" "c \<in> set (children d) \<Longrightarrow> objs s c \<noteq> None"
    "c \<in> set (children d) \<Longrightarrow> objs s c = Some e \<Longrightarrow> tree_level (obj_type e) < tree_level (obj_type d)"
proof -
  have *: "length (children d) < 2 ^ 32 \<and>
     (\<forall>c \<in> set (children d). \<exists>e. objs s c = Some e \<and> tree_level (obj_type e) < tree_level (obj_type d))"
    using assms unfolding ok_levels_def by blast
  from * show "length (children d) < 2 ^ 32" by blast
  show "c \<in> set (children d) \<Longrightarrow> objs s c \<noteq> None" using * by force
  show "c \<in> set (children d) \<Longrightarrow> objs s c = Some e \<Longrightarrow> tree_level (obj_type e) < tree_level (obj_type d)"
    using * by force
qed

text \<open>The state \<open>s0\<close> in which the objects of a set have been given their new values.\<close>

definition mark :: "(addr \<Rightarrow> topo_obj \<Rightarrow> topo_obj) \<Rightarrow> addr set \<Rightarrow> sys \<Rightarrow> sys" where
  "mark F A s0 = s0\<lparr>objs := \<lambda>x. if x \<in> A then map_option (F x) (objs s0 x) else objs s0 x\<rparr>"

lemma mark_empty [simp]: "mark F {} s0 = s0"
  by (simp add: mark_def)

lemma upd_obj_mark:
  assumes "objs s0 a = Some d" "\<And>e. e = d \<or> e = F a d \<Longrightarrow> f e = F a d"
  shows "upd_obj a f (mark F A s0) = Some (mark F (insert a A) s0)"
  using assms by (auto simp: upd_obj_def mark_def fun_eq_iff intro!: sys.equality)

text \<open>The children of the objects added to a set are in it.\<close>

definition kids_in :: "sys \<Rightarrow> addr set \<Rightarrow> addr set \<Rightarrow> bool" where
  "kids_in s0 A A' \<longleftrightarrow> (\<forall>x \<in> A' - A. \<forall>d. objs s0 x = Some d \<longrightarrow> set (children d) \<subseteq> A')"

lemma kids_in_trans: "kids_in s0 A B \<Longrightarrow> kids_in s0 B C \<Longrightarrow> B \<subseteq> C \<Longrightarrow> kids_in s0 A C"
  unfolding kids_in_def by blast

text \<open>A handler that first visits the children of an object and then gives the object its new value
  visits the whole tree below it.\<close>

locale tree_walk =
  fixes good :: "sys \<Rightarrow> bool" and visit :: "addr \<Rightarrow> sys \<Rightarrow> sys option"
    and F :: "sys \<Rightarrow> addr \<Rightarrow> topo_obj \<Rightarrow> topo_obj"
  assumes levels: "good s0 \<Longrightarrow> ok_levels s0"
    and step: "good s0 \<Longrightarrow> objs s0 a = Some d \<Longrightarrow>
      for_each visit (children d) (mark (F s0) A s0) = Some (mark (F s0) A' s0) \<Longrightarrow>
      A \<union> set (children d) \<subseteq> A' \<Longrightarrow> visit a (mark (F s0) A s0) = Some (mark (F s0) (insert a A') s0)"
begin

lemma list_ok:
  assumes "\<And>a A. a \<in> set as \<Longrightarrow>
      \<exists>A'. insert a A \<subseteq> A' \<and> kids_in s0 A A' \<and> visit a (mark (F s0) A s0) = Some (mark (F s0) A' s0)"
  shows "\<exists>A'. A \<union> set as \<subseteq> A' \<and> kids_in s0 A A' \<and> for_each visit as (mark (F s0) A s0) = Some (mark (F s0) A' s0)"
  using assms
proof (induction as arbitrary: A)
  case (Cons a as)
  obtain A1 where A1: "insert a A \<subseteq> A1" "kids_in s0 A A1" "visit a (mark (F s0) A s0) = Some (mark (F s0) A1 s0)"
    using Cons.prems [of a A] by auto
  obtain A2 where A2: "A1 \<union> set as \<subseteq> A2" "kids_in s0 A1 A2"
    "for_each visit as (mark (F s0) A1 s0) = Some (mark (F s0) A2 s0)"
    using Cons.IH [of A1] Cons.prems by auto
  have "kids_in s0 A A2" using A1(1) A2(1) kids_in_trans [OF A1(2) A2(2)] by auto
  with A1 A2 show ?case by (auto intro!: exI [of _ A2])
qed (auto simp: kids_in_def)

lemma visit_ok:
  assumes "good s0" "objs s0 a = Some d"
  shows "\<exists>A'. insert a A \<subseteq> A' \<and> kids_in s0 A A' \<and> visit a (mark (F s0) A s0) = Some (mark (F s0) A' s0)"
  using assms(2)
proof (induction "tree_level (obj_type d)" arbitrary: a d A rule: less_induct)
  case less
  note lv = ok_levelsD [OF levels [OF assms(1)] less.prems]
  have "\<exists>A'. insert c A \<subseteq> A' \<and> kids_in s0 A A' \<and> visit c (mark (F s0) A s0) = Some (mark (F s0) A' s0)"
    if "c \<in> set (children d)" for c A
    using lv(2) [OF that] lv(3) [OF that] less.hyps by blast
  from list_ok [OF this] obtain A' where A': "A \<union> set (children d) \<subseteq> A'" "kids_in s0 A A'"
    "for_each visit (children d) (mark (F s0) A s0) = Some (mark (F s0) A' s0)" by blast
  have "kids_in s0 A (insert a A')" using A'(1,2) less.prems by (auto simp: kids_in_def)
  moreover have "insert a A \<subseteq> insert a A'" using A'(1) by auto
  ultimately show ?case using step [OF assms(1) less.prems A'(3,1)] by blast
qed

lemma forest_ok:
  assumes "good s0" "\<forall>a \<in> set as. objs s0 a \<noteq> None"
  shows "\<exists>A. set as \<subseteq> A \<and> kids_in s0 {} A \<and> for_each visit as s0 = Some (mark (F s0) A s0)"
proof -
  have "\<exists>A'. {} \<union> set as \<subseteq> A' \<and> kids_in s0 {} A' \<and> for_each visit as (mark (F s0) {} s0) = Some (mark (F s0) A' s0)"
  proof (rule list_ok)
    fix a A assume "a \<in> set as"
    then obtain d where "objs s0 a = Some d" using assms(2) by blast
    from visit_ok [OF assms(1) this]
    show "\<exists>A'. insert a A \<subseteq> A' \<and> kids_in s0 A A' \<and> visit a (mark (F s0) A s0) = Some (mark (F s0) A' s0)" .
  qed
  then show ?thesis by simp
qed

end

section \<open>Loads of inner objects\<close>

text \<open>The sum of the loads of the leaves below an object, in 64-bit arithmetic.\<close>

primrec tree_load :: "nat \<Rightarrow> sys \<Rightarrow> addr \<Rightarrow> u64" where
  "tree_load 0 s a = 0"
| "tree_load (Suc n) s a = (case objs s a of None \<Rightarrow> 0
     | Some d \<Rightarrow> if children d = [] then load d else (\<Sum>c \<leftarrow> children d. tree_load n s c))"

declare tree_load.simps(2) [simp del]

lemma tree_load_Suc:
  "objs s a = Some d \<Longrightarrow> tree_load (Suc n) s a
   = (if children d = [] then load d else (\<Sum>c \<leftarrow> children d. tree_load n s c))"
  by (simp add: tree_load.simps(2))

lemma tree_load_fuel:
  assumes "ok_levels s" "objs s a = Some d" "tree_level (obj_type d) < n"
  shows "tree_load (Suc n) s a = tree_load n s a"
  using assms(2,3)
proof (induction n arbitrary: a d)
  case (Suc n)
  have "tree_load (Suc n) s c = tree_load n s c" if c: "c \<in> set (children d)" for c
  proof -
    obtain e where e: "objs s c = Some e" using ok_levelsD(2) [OF assms(1) Suc.prems(1) c] by blast
    with ok_levelsD(3) [OF assms(1) Suc.prems(1) c e] Suc show ?thesis by simp
  qed
  then have "sum_list (map (tree_load (Suc n) s) (children d)) = sum_list (map (tree_load n s) (children d))"
    by (intro arg_cong [where f = sum_list] map_cong refl)
  then show ?case by (simp add: tree_load_Suc [OF Suc.prems(1)])
qed simp

definition put_load :: "sys \<Rightarrow> addr \<Rightarrow> topo_obj \<Rightarrow> topo_obj" where
  "put_load s0 a d = d\<lparr>load := tree_load 4 s0 a\<rparr>"

lemma accumulate_load_sum:
  assumes "\<forall>c \<in> set cs. \<exists>e. objs s c = Some e \<and> load e = f c"
  shows "for_each (accumulate_load s) cs x = Some (x + (\<Sum>c \<leftarrow> cs. f c))"
  using assms by (induction cs arbitrary: x) (auto simp: accumulate_load_def add.assoc)

lemma tree_load_inner:
  assumes "ok_levels s" "objs s a = Some d" "children d \<noteq> []"
  shows "tree_load 4 s a = (\<Sum>c \<leftarrow> children d. tree_load 4 s c)"
proof -
  have "tree_load 4 s c = tree_load 3 s c" if c: "c \<in> set (children d)" for c
  proof -
    obtain e where e: "objs s c = Some e" using ok_levelsD(2) [OF assms(1,2) c] by blast
    have "tree_level (obj_type e) < 3"
      using ok_levelsD(3) [OF assms(1,2) c e] tree_level_less [of "obj_type d"] by simp
    from tree_load_fuel [OF assms(1) e this] show ?thesis by (simp add: numeral_eq_Suc)
  qed
  then have "sum_list (map (tree_load 4 s) (children d)) = sum_list (map (tree_load 3 s) (children d))"
    by (intro arg_cong [where f = sum_list] map_cong refl)
  moreover have "tree_load 4 s a = sum_list (map (tree_load 3 s) (children d))"
    using tree_load_Suc [OF assms(2), of 3] assms(3) by simp
  ultimately show ?thesis by (rule trans [OF _ sym, rotated])
qed

interpretation sl: tree_walk ok_levels set_load put_load
proof
  fix s0 a d A A'
  assume g: "ok_levels s0" and a: "objs s0 a = Some d"
    and ch: "for_each set_load (children d) (mark (put_load s0) A s0) = Some (mark (put_load s0) A' s0)"
    and sub: "A \<union> set (children d) \<subseteq> A'"
  let ?m = "\<lambda>A. mark (put_load s0) A s0"
  obtain e where e: "objs (?m A) a = Some e" "children e = children d" "e = d \<or> e = put_load s0 a d"
    using a by (cases "a \<in> A") (auto simp: mark_def put_load_def)
  have l0: "0 < glength (children d) \<longleftrightarrow> children d \<noteq> []" using glength_0 [OF ok_levelsD(1) [OF g a]] .
  show "set_load a (?m A) = Some (?m (insert a A'))"
  proof (cases "children d = []")
    case True
    then have A: "A' = A \<or> ?m A' = ?m A" using ch by simp
    have "tree_load 4 s0 a = load d" using tree_load_Suc [OF a, of 3] True by simp
    then have "?m (insert a A') = ?m A'"
      using a by (auto simp: mark_def put_load_def fun_eq_iff intro!: sys.equality)
    then show ?thesis using A e(1,2) True l0 by (subst set_load.simps) auto
  next
    case False
    obtain e' where e': "objs (?m A') a = Some e'" "e' = d \<or> e' = put_load s0 a d"
      using a by (cases "a \<in> A'") (auto simp: mark_def)
    let ?s = "(?m A')\<lparr>objs := (objs (?m A'))(a \<mapsto> e'\<lparr>load := 0\<rparr>)\<rparr>"
    have u: "upd_obj a (\<lambda>d. d\<lparr>load := 0\<rparr>) (?m A') = Some ?s" using e' by (simp add: upd_obj_Some)
    have ce: "children (e'\<lparr>load := 0\<rparr>) = children d" using e'(2) by (auto simp: put_load_def)
    have "\<exists>x. objs ?s c = Some x \<and> load x = tree_load 4 s0 c" if c: "c \<in> set (children d)" for c
    proof -
      obtain x where x: "objs s0 c = Some x" using ok_levelsD(2) [OF g a c] by blast
      have "c \<noteq> a" using ok_levelsD(3) [OF g a c x] x a by auto
      moreover have "c \<in> A'" using sub c by auto
      ultimately show ?thesis using x by (simp add: mark_def put_load_def)
    qed
    then have acc: "for_each (accumulate_load ?s) (children d) 0 = Some (tree_load 4 s0 a)"
      using accumulate_load_sum [of "children d" ?s "tree_load 4 s0" 0] tree_load_inner [OF g a False] by simp
    have "upd_obj a (\<lambda>d. d\<lparr>load := tree_load 4 s0 a\<rparr>) ?s = Some (?m (insert a A'))"
      using e' a by (auto simp: upd_obj_def mark_def put_load_def fun_eq_iff intro!: sys.equality)
    then show ?thesis
      using e False l0 ch u acc ce by (subst set_load.simps) simp
  qed
qed


section \<open>Interrupt counts of objects\<close>

text \<open>The number of interrupts an irq has had since the last reading.\<close>

definition irq_delta :: "sys \<Rightarrow> addr \<Rightarrow> u64" where
  "irq_delta s a = (case irqs s a of None \<Rightarrow> 0 | Some i \<Rightarrow> i_irq_count i - last_irq_count i)"

definition put_irq_count :: "sys \<Rightarrow> addr \<Rightarrow> topo_obj \<Rightarrow> topo_obj" where
  "put_irq_count s0 a d = d\<lparr>irq_count := (\<Sum>x \<leftarrow> interrupts d. irq_delta s0 x)\<rparr>"

definition ok_sys :: "sys \<Rightarrow> bool" where
  "ok_sys s \<longleftrightarrow> wf_sys s \<and> ok_levels s"

lemma ok_sys_list:
  assumes "ok_sys s" "objs s a = Some d"
  shows "length (interrupts d) < 2 ^ 32" "x \<in> set (interrupts d) \<Longrightarrow> irqs s x \<noteq> None"
proof -
  have w: "wf_sys s" "ok_irqs s" "ok_lists s" using assms(1) by (simp_all add: ok_sys_def wf_sys_def)
  have l: "get_list (ObjIrqs a) s = Some (interrupts d)" using assms(2) by (simp add: get_list_def)
  show "length (interrupts d) < 2 ^ 32" by (rule list_length_db(2) [OF w(1) l])
  show "x \<in> set (interrupts d) \<Longrightarrow> irqs s x \<noteq> None"
    using ok_lists_list [OF w(3) l] ok_irqs_valid [OF w(2)] by (metis option.distinct(1) subsetD)
qed

lemma accumulate_irq_count_sum:
  assumes "\<forall>x \<in> set xs. irqs s x \<noteq> None"
  shows "for_each (accumulate_irq_count s) xs n = Some (n + (\<Sum>x \<leftarrow> xs. irq_delta s x))"
  using assms by (induction xs arbitrary: n) (auto simp: accumulate_irq_count_def irq_delta_def add.assoc)

interpretation ai: tree_walk ok_sys accumulate_interrupts put_irq_count
proof
  fix s0 assume "ok_sys s0"
  then show "ok_levels s0" by (simp add: ok_sys_def)
next
  fix s0 a d A A'
  assume g: "ok_sys s0" and a: "objs s0 a = Some d"
    and ch: "for_each accumulate_interrupts (children d) (mark (put_irq_count s0) A s0) = Some (mark (put_irq_count s0) A' s0)"
    and sub: "A \<union> set (children d) \<subseteq> A'"
  let ?m = "\<lambda>A. mark (put_irq_count s0) A s0" and ?n = "\<Sum>x \<leftarrow> interrupts d. irq_delta s0 x"
  have lv: "ok_levels s0" using g by (simp add: ok_sys_def)
  obtain e where e: "objs (?m A) a = Some e" "children e = children d"
    using a by (cases "a \<in> A") (auto simp: mark_def put_irq_count_def)
  obtain e' where e': "objs (?m A') a = Some e'" "e' = d \<or> e' = put_irq_count s0 a d"
    using a by (cases "a \<in> A'") (auto simp: mark_def)
  let ?s = "(?m A')\<lparr>objs := (objs (?m A'))(a \<mapsto> e'\<lparr>irq_count := 0\<rparr>)\<rparr>"
  have kids: "(if 0 < glength (children e) then for_each (\<lambda>c t. accumulate_interrupts c t) (children e) (?m A) else Some (?m A))
      = Some (?m A')"
    using ch e(2) glength_0 [OF ok_levelsD(1) [OF lv a]] by auto
  have u: "upd_obj a (\<lambda>d. d\<lparr>irq_count := 0\<rparr>) (?m A') = Some ?s" using e' by (simp add: upd_obj_Some)
  have ie: "interrupts (e'\<lparr>irq_count := 0\<rparr>) = interrupts d" using e'(2) by (auto simp: put_irq_count_def)
  have irq: "irqs ?s = irqs s0" by (simp add: mark_def)
  then have dl: "irq_delta ?s = irq_delta s0" by (simp add: irq_delta_def fun_eq_iff)
  have acc: "for_each (accumulate_irq_count ?s) (interrupts d) 0 = Some ?n"
    using accumulate_irq_count_sum [of "interrupts d" ?s 0] ok_sys_list(2) [OF g a] by (auto simp: irq dl)
  have fin: "upd_obj a (\<lambda>d. d\<lparr>irq_count := ?n\<rparr>) ?s = Some (?m (insert a A'))"
    using e' a by (auto simp: upd_obj_def mark_def put_irq_count_def fun_eq_iff intro!: sys.equality)
  have "?s = ?m (insert a A')" if "interrupts d = []"
    using that e' a by (auto simp: mark_def put_irq_count_def fun_eq_iff intro!: sys.equality)
  then show "accumulate_interrupts a (?m A) = Some (?m (insert a A'))"
    using e(1) kids u ie acc fin glength_0 [OF ok_sys_list(1) [OF g a]]
    by (subst accumulate_interrupts.simps) (simp add: glength_def)
qed


section \<open>Shares of the load\<close>

lemma parent_share_ok:
  assumes "ok_levels s" and par: "\<And>x d. objs s x = Some d \<Longrightarrow> parent d \<noteq> NULL \<Longrightarrow>
      \<exists>p. objs s (parent d) = Some p \<and> x \<in> set (children p)"
    and "objs s a = Some d"
  shows "\<exists>n. get_parent_branch_irq_count_share a s = Some (n + irq_count d)"
  using assms(3)
proof (induction "4 - tree_level (obj_type d)" arbitrary: a d rule: less_induct)
  case less
  show ?case
  proof (cases "parent d = NULL")
    case True
    then show ?thesis using less.prems by (subst get_parent_branch_irq_count_share.simps) (auto intro: exI [of _ 0])
  next
    case False
    obtain p where p: "objs s (parent d) = Some p" "a \<in> set (children p)" using par [OF less.prems False] by blast
    have "tree_level (obj_type d) < tree_level (obj_type p)" by (rule ok_levelsD(3) [OF assms(1) p less.prems])
    then have "4 - tree_level (obj_type p) < 4 - tree_level (obj_type d)"
      using tree_level_less [of "obj_type p"] by simp
    from less.hyps [OF this p(1)] obtain n where n: "get_parent_branch_irq_count_share (parent d) s = Some (n + irq_count p)"
      by blast
    have "glength (children p) \<noteq> 0"
      using glength_0 [OF ok_levelsD(1) [OF assms(1) p(1)]] p(2) by auto
    then show ?thesis using less.prems False p(1) n by (subst get_parent_branch_irq_count_share.simps) auto
  qed
qed

lemma children_count_ok:
  assumes "ok_levels s" "objs s a = Some d"
  shows "\<exists>n'. get_children_branch_irq_count s a n = Some n'"
  using assms(2)
proof (induction "tree_level (obj_type d)" arbitrary: a d n rule: less_induct)
  case less
  note lv = ok_levelsD [OF assms(1) less.prems]
  have "\<exists>n'. get_children_branch_irq_count s c n = Some n'" if "c \<in> set (children d)" for c n
    using lv(2) [OF that] lv(3) [OF that] less.hyps by blast
  then have "\<exists>n'. for_each (\<lambda>c t. get_children_branch_irq_count s c t) (children d) n = Some n'"
    using for_each_total_inv [of "\<lambda>_. True" n "children d" "get_children_branch_irq_count s"] by auto
  then show ?case using less.prems by (subst get_children_branch_irq_count.simps) auto
qed


text \<open>The objects of the tree: the numa nodes and everything below them.\<close>

inductive in_tree :: "sys \<Rightarrow> addr \<Rightarrow> bool" for s where
  root: "a \<in> set (numa_nodes s) \<Longrightarrow> in_tree s a"
| child: "in_tree s a \<Longrightarrow> objs s a = Some d \<Longrightarrow> c \<in> set (children d) \<Longrightarrow> in_tree s c"

lemma in_tree_marked:
  assumes "in_tree s a" "set (numa_nodes s) \<subseteq> A" "kids_in s {} A"
  shows "a \<in> A"
  using assms(1)
proof induction
  case (child a d c)
  with assms(3) show ?case by (auto simp: kids_in_def)
qed (use assms(2) in auto)

text \<open>\<open>parent\<close> pointers point to an object that has the object among its children.\<close>

definition ok_parents :: "sys \<Rightarrow> bool" where
  "ok_parents s \<longleftrightarrow> (\<forall>x d. objs s x = Some d \<longrightarrow> parent d \<noteq> NULL \<longrightarrow>
      (\<exists>p. objs s (parent d) = Some p \<and> x \<in> set (children p)))"

lemma ok_levels_skel: 
  assumes "same_skel s s'" "ok_levels s"
  shows "ok_levels s'"
  unfolding ok_levels_def
proof (intro allI impI conjI ballI)
  fix a d' assume a: "objs s' a = Some d'"
  obtain d where d: "objs s a = Some d" "children d' = children d" "obj_type d' = obj_type d"
    by (rule same_skel_obj [OF assms(1) a])
  show "length (children d') < 2 ^ 32" using ok_levelsD(1) [OF assms(2) d(1)] d(2) by simp
  fix c assume c: "c \<in> set (children d')"
  then obtain e where e: "objs s c = Some e" using ok_levelsD(2) [OF assms(2) d(1)] d(2) by auto
  obtain e' where e': "objs s' c = Some e'" using e same_skelD(9) [OF assms(1), of c] by (cases "objs s' c") auto
  obtain e2 where "objs s c = Some e2" "obj_type e' = obj_type e2" by (rule same_skel_obj [OF assms(1) e'])
  with e e' c d ok_levelsD(3) [OF assms(2) d(1) _ e] show
    "\<exists>e. objs s' c = Some e \<and> tree_level (obj_type e) < tree_level (obj_type d')" by auto
qed

lemma ok_parents_skel: 
  assumes "same_skel s s'" "ok_parents s"
  shows "ok_parents s'"
  unfolding ok_parents_def
proof (intro allI impI)
  fix x d' assume x: "objs s' x = Some d'" "parent d' \<noteq> NULL"
  obtain d where d: "objs s x = Some d" "parent d' = parent d" by (rule same_skel_obj [OF assms(1) x(1)])
  then obtain p where p: "objs s (parent d) = Some p" "x \<in> set (children p)"
    using assms(2) x(2) unfolding ok_parents_def by auto
  obtain p' where p': "objs s' (parent d) = Some p'"
    using p(1) same_skelD(9) [OF assms(1), of "parent d"] by (cases "objs s' (parent d)") auto
  obtain p2 where "objs s (parent d) = Some p2" "children p' = children p2" by (rule same_skel_obj [OF assms(1) p'])
  with p p' d(2) show "\<exists>p. objs s' (parent d') = Some p \<and> x \<in> set (children p)" by auto
qed

lemma ok_sys_skel: "same_skel s s' \<Longrightarrow> ok_sys s \<Longrightarrow> ok_sys s'"
  using wf_sys_skel ok_levels_skel by (auto simp: ok_sys_def)

lemma same_skel_mark:
  "(\<And>a d. skel_obj (F a d) = skel_obj d) \<Longrightarrow> same_skel s (mark F A s)"
  by (simp add: same_skel_def skel_def mark_def fun_eq_iff option.map_comp comp_def)

text \<open>The load that \<open>assign_load_slice\<close> gives an irq.\<close>

definition slice_load :: "u64 \<Rightarrow> irq_info \<Rightarrow> u64" where
  "slice_load sl i = (let l = (i_irq_count i - last_irq_count i) * sl in if l = 0 then 1 else l)"

lemma assign_walk:
  assumes "distinct xs" "\<forall>x \<in> set xs. irqs s x \<noteq> None"
  shows "for_each (assign_load_slice sl) xs s = Some (s\<lparr>irqs := \<lambda>x. if x \<in> set xs
    then map_option (\<lambda>i. i\<lparr>i_load := slice_load sl i\<rparr>) (irqs s x) else irqs s x\<rparr>)"
  using assms
proof (induction xs arbitrary: s)
  case (Cons x xs)
  obtain i where i: "irqs s x = Some i" using Cons.prems by auto
  let ?s = "s\<lparr>irqs := (irqs s)(x \<mapsto> i\<lparr>i_load := slice_load sl i\<rparr>)\<rparr>"
  have a: "assign_load_slice sl x s = Some ?s"
    using i by (simp add: assign_load_slice_def upd_irq_Some slice_load_def Let_def)
  have "\<forall>x \<in> set xs. irqs ?s x \<noteq> None" using Cons.prems by auto
  from Cons.IH [OF _ this] a Cons.prems i show ?case
    by (auto simp: fun_eq_iff intro!: sys.equality)
qed (simp add: fun_eq_iff)

text \<open>One object: its irqs get shares of its load, nothing else changes.\<close>

lemma load_share_ok:
  assumes "ok_sys s" "ok_parents s" "objs s a = Some d"
  shows "\<exists>n sl. compute_irq_branch_load_share a s = Some (s\<lparr>irqs := \<lambda>x. if x \<in> set (interrupts d)
      then map_option (\<lambda>i. i\<lparr>i_load := slice_load sl i\<rparr>) (irqs s x) else irqs s x\<rparr>)
    \<and> sl = (if n = 0 then 1 else load d div n)"
proof -
  have lv: "ok_levels s" using assms(1) by (simp add: ok_sys_def)
  have len: "0 < glength (interrupts d) \<longleftrightarrow> interrupts d \<noteq> []" using glength_0 [OF ok_sys_list(1) [OF assms(1,3)]] .
  show ?thesis
  proof (cases "interrupts d = []")
    case True
    then show ?thesis using assms(3) len by (auto simp: compute_irq_branch_load_share_def intro: exI [of _ 1])
  next
    case False
    obtain n0 where n0: "get_parent_branch_irq_count_share a s = Some n0"
      using parent_share_ok [OF lv _ assms(3)] assms(2) unfolding ok_parents_def by blast
    have "\<exists>n. for_each_object (children d) (get_children_branch_irq_count s) n0 = Some n"
      using for_each_total_inv [of "\<lambda>_. True" n0 "children d" "get_children_branch_irq_count s"]
        ok_levelsD(2) [OF lv assms(3)] children_count_ok [OF lv] by (fastforce simp: for_each_object_def)
    then obtain n where n: "(if 0 < glength (children d)
        then for_each_object (children d) (get_children_branch_irq_count s) n0 else Some n0) = Some n"
      by (cases "0 < glength (children d)") auto
    have xs: "distinct (interrupts d)" "\<forall>x \<in> set (interrupts d). irqs s x \<noteq> None"
      using ok_lists_list [of s "ObjIrqs a" "interrupts d"] ok_sys_list(2) [OF assms(1,3)] assms(1,3)
      by (auto simp: ok_sys_def wf_sys_def get_list_def)
    let ?sl = "if n \<noteq> 0 then load d div n else 1"
    have "compute_irq_branch_load_share a s = for_each (assign_load_slice ?sl) (interrupts d) s"
      using assms(3) False len n0 n
      by (simp add: compute_irq_branch_load_share_def for_each_irq_def Let_def)
    with assign_walk [OF xs, of ?sl] show ?thesis by (intro exI [of _ n] exI [of _ ?sl]) simp
  qed
qed

text \<open>Of the irqs only the loads change, and no rescan is asked for.\<close>

definition only_loads :: "sys \<Rightarrow> sys \<Rightarrow> bool" where
  "only_loads s s' \<longleftrightarrow> need_rescan s' = need_rescan s \<and> (\<forall>x. map_option (\<lambda>i. i\<lparr>i_load := 0\<rparr>) (irqs s' x) = map_option (\<lambda>i. i\<lparr>i_load := 0\<rparr>) (irqs s x))"

lemma only_loads_trans: "only_loads s t \<Longrightarrow> only_loads t u \<Longrightarrow> only_loads s u"
  by (simp add: only_loads_def)

lemma load_shares_ok:
  assumes "ok_sys s" "ok_parents s" "\<forall>a \<in> set as. objs s a \<noteq> None"
  shows "\<exists>s'. for_each_object as compute_irq_branch_load_share s = Some s' \<and> same_skel s s' \<and> objs s' = objs s \<and> only_loads s s'"
proof -
  let ?I = "\<lambda>t. same_skel s t \<and> objs t = objs s \<and> only_loads s t"
  have "\<exists>s'. for_each compute_irq_branch_load_share as s = Some s' \<and> ?I s'"
  proof (rule for_each_total_inv)
    fix a t assume a: "a \<in> set as" and t: "?I t"
    then obtain d where d: "objs t a = Some d" using assms(3) by auto
    have "ok_sys t" "ok_parents t" using t assms(1,2) ok_sys_skel ok_parents_skel by blast+
    from load_share_ok [OF this d] obtain sl where sl: "compute_irq_branch_load_share a t = Some (t\<lparr>irqs := \<lambda>x.
        if x \<in> set (interrupts d) then map_option (\<lambda>i. i\<lparr>i_load := slice_load sl i\<rparr>) (irqs t x) else irqs t x\<rparr>)" by blast
    have "same_skel t (t\<lparr>irqs := \<lambda>x. if x \<in> set (interrupts d)
        then map_option (\<lambda>i. i\<lparr>i_load := slice_load sl i\<rparr>) (irqs t x) else irqs t x\<rparr>)"
      by (simp add: same_skel_def skel_def fun_eq_iff option.map_comp comp_def skel_irq_def cong: option.map_cong)
    moreover have "only_loads t (t\<lparr>irqs := \<lambda>x. if x \<in> set (interrupts d)
        then map_option (\<lambda>i. i\<lparr>i_load := slice_load sl i\<rparr>) (irqs t x) else irqs t x\<rparr>)"
      by (simp add: only_loads_def option.map_comp comp_def)
    ultimately show "\<exists>t'. compute_irq_branch_load_share a t = Some t' \<and> ?I t'"
      using sl t by (auto intro: same_skel_trans only_loads_trans)
  qed (simp add: only_loads_def)
  then show ?thesis by (simp add: for_each_object_def)
qed


text \<open>The four passes that share out the loads touch no object.\<close>

lemma load_shares_passes:
  assumes ok: "ok_sys s" "ok_parents s" and t: "same_skel s t" "only_loads s t"
  shows "\<exists>t1 t2 t3 t4. for_each_object (cpus t) compute_irq_branch_load_share t = Some t1
    \<and> for_each_object (cache_domains t1) compute_irq_branch_load_share t1 = Some t2
    \<and> for_each_object (packages t2) compute_irq_branch_load_share t2 = Some t3
    \<and> for_each_object (numa_nodes t3) compute_irq_branch_load_share t3 = Some t4
    \<and> same_skel s t4 \<and> objs t4 = objs t \<and> only_loads s t4"
proof -
  have valid: "\<forall>d \<in> set (numa_nodes s) \<union> set (packages s) \<union> set (cache_domains s) \<union> set (cpus s). objs s d \<noteq> None"
    using ok(1) unfolding ok_sys_def wf_sys_def ok_tree_def by blast
  have run: "\<exists>v. for_each_object as compute_irq_branch_load_share u = Some v \<and> same_skel s v \<and> objs v = objs t \<and> only_loads s v"
    if u: "same_skel s u" "objs u = objs t" "only_loads s u" "\<forall>a \<in> set as. objs s a \<noteq> None" for as u
  proof -
    have "\<forall>a \<in> set as. objs u a \<noteq> None" using u(4) same_skelD(9) [OF u(1)] by blast
    from load_shares_ok [OF ok_sys_skel [OF u(1) ok(1)] ok_parents_skel [OF u(1) ok(2)] this]
    obtain v where "for_each_object as compute_irq_branch_load_share u = Some v" "same_skel u v" "objs v = objs u" "only_loads u v" by blast
    with u(1-3) same_skel_trans only_loads_trans show ?thesis by metis
  qed
  obtain t1 where t1: "for_each_object (cpus s) compute_irq_branch_load_share t = Some t1" "same_skel s t1" "objs t1 = objs t" "only_loads s t1"
    using run [OF t(1) refl t(2), of "cpus s"] valid by auto
  obtain t2 where t2: "for_each_object (cache_domains s) compute_irq_branch_load_share t1 = Some t2" "same_skel s t2" "objs t2 = objs t" "only_loads s t2"
    using run [OF t1(2-4), of "cache_domains s"] valid by auto
  obtain t3 where t3: "for_each_object (packages s) compute_irq_branch_load_share t2 = Some t3" "same_skel s t3" "objs t3 = objs t" "only_loads s t3"
    using run [OF t2(2-4), of "packages s"] valid by auto
  obtain t4 where t4: "for_each_object (numa_nodes s) compute_irq_branch_load_share t3 = Some t4" "same_skel s t4" "objs t4 = objs t" "only_loads s t4"
    using run [OF t3(2-4), of "numa_nodes s"] valid by auto
  show ?thesis using t1(1) t2(1) t3(1) t4 same_skelD(4) [OF t(1)] same_skelD(3) [OF t1(2)] same_skelD(2) [OF t2(2)] same_skelD(1) [OF t3(2)]
    by simp
qed

lemma attribute_loads_ok:
  assumes "ok_sys s" "ok_parents s"
  shows "\<exists>s'. attribute_loads s = Some s' \<and> same_skel s s' \<and> only_loads s s'
    \<and> (\<forall>a d'. in_tree s a \<longrightarrow> objs s' a = Some d' \<longrightarrow>
         load d' = tree_load 4 s a \<and> irq_count d' = (\<Sum>x \<leftarrow> interrupts d'. irq_delta s x))"
proof -
  have lv: "ok_levels s" using assms(1) by (simp add: ok_sys_def)
  have valid: "\<forall>d \<in> set (numa_nodes s). objs s d \<noteq> None"
    using assms(1) unfolding ok_sys_def wf_sys_def ok_tree_def by blast
  obtain A where A: "set (numa_nodes s) \<subseteq> A" "kids_in s {} A" "for_each set_load (numa_nodes s) s = Some (mark (put_load s) A s)"
    using sl.forest_ok [OF lv, of "numa_nodes s"] valid by auto
  let ?s1 = "mark (put_load s) A s"
  have k1: "same_skel s ?s1" by (rule same_skel_mark) (simp add: put_load_def skel_obj_def)
  have v1: "\<forall>a \<in> set (numa_nodes s). objs ?s1 a \<noteq> None" using valid same_skelD(9) [OF k1] by blast
  obtain B where B: "set (numa_nodes s) \<subseteq> B" "kids_in ?s1 {} B"
    "for_each accumulate_interrupts (numa_nodes s) ?s1 = Some (mark (put_irq_count ?s1) B ?s1)"
    using ai.forest_ok [OF ok_sys_skel [OF k1 assms(1)] v1] by blast
  let ?s2 = "mark (put_irq_count ?s1) B ?s1"
  have k2: "same_skel s ?s2"
    by (rule same_skel_trans [OF k1 same_skel_mark]) (simp add: put_irq_count_def skel_obj_def)
  have "only_loads s ?s2" by (simp add: only_loads_def mark_def)
  from load_shares_passes [OF assms k2 this] obtain s3 s4 s5 s6 where
    s: "for_each_object (cpus ?s2) compute_irq_branch_load_share ?s2 = Some s3"
    "for_each_object (cache_domains s3) compute_irq_branch_load_share s3 = Some s4"
    "for_each_object (packages s4) compute_irq_branch_load_share s4 = Some s5"
    "for_each_object (numa_nodes s5) compute_irq_branch_load_share s5 = Some s6"
    and s6: "same_skel s s6" "objs s6 = objs ?s2" "only_loads s s6" by blast
  have "attribute_loads s = Some s6"
    using A(3) B(3) s same_skelD(1) [OF k1] by (simp add: attribute_loads_def for_each_object_def)
  moreover have "load d' = tree_load 4 s a \<and> irq_count d' = (\<Sum>x \<leftarrow> interrupts d'. irq_delta s x)"
    if t: "in_tree s a" "objs s6 a = Some d'" for a d'
  proof -
    have a: "a \<in> A" by (rule in_tree_marked [OF t(1) A(1,2)])
    have "kids_in s {} B" unfolding kids_in_def
    proof (intro ballI allI impI)
      fix x d assume x: "x \<in> B - {}" "objs s x = Some d"
      then obtain d1 where "objs ?s1 x = Some d1" "children d1 = children d"
        by (cases "x \<in> A") (auto simp: mark_def put_load_def)
      with B(2) x(1) show "set (children d) \<subseteq> B" unfolding kids_in_def by metis
    qed
    then have b: "a \<in> B" by (rule in_tree_marked [OF t(1) B(1)])
    have "irq_delta ?s1 = irq_delta s" by (simp add: irq_delta_def mark_def fun_eq_iff)
    with a b t(2) s6(2) show ?thesis by (auto simp: mark_def put_load_def put_irq_count_def)
  qed
  ultimately show ?thesis using s6(1,3) by blast
qed

section \<open>Counters\<close>

definition counts_ok :: "sys \<Rightarrow> bool" where
  "counts_ok s \<longleftrightarrow> (\<forall>a i. irqs s a = Some i \<longrightarrow> last_irq_count i \<le> i_irq_count i)"

lemma find_custom_total:
  assumes "\<forall>a \<in> set xs. f a \<noteq> None"
  shows "\<exists>r. find_custom f xs = Some r \<and> (\<forall>a. r = Some a \<longrightarrow> a \<in> set xs)"
  using assms by (induction xs) auto

lemma get_irq_info_total:
  assumes "ok_irqs s" "\<forall>a \<in> set (banned_irqs s). irqs s a \<noteq> None"
  shows "\<exists>r. get_irq_info n s = Some r \<and> (\<forall>a. r = Some a \<longrightarrow> irqs s a \<noteq> None)"
proof -
  have v: "\<forall>a \<in> set (interrupts_db s). irqs s a \<noteq> None" using assms(1) ok_irqs_valid by (metis option.distinct(1))
  obtain r1 where r1: "find_custom (compare_ints s n) (interrupts_db s) = Some r1" "\<forall>a. r1 = Some a \<longrightarrow> a \<in> set (interrupts_db s)"
    using find_custom_total [of "interrupts_db s" "compare_ints s n"] v by (auto simp: compare_ints_def)
  obtain r2 where r2: "find_custom (compare_ints s n) (banned_irqs s) = Some r2" "\<forall>a. r2 = Some a \<longrightarrow> a \<in> set (banned_irqs s)"
    using find_custom_total [of "banned_irqs s" "compare_ints s n"] assms(2) by (auto simp: compare_ints_def)
  show ?thesis using r1 r2 v assms(2) by (cases r1) (auto simp: get_irq_info_def)
qed

text \<open>The fields of the state that reading \<open>/proc/interrupts\<close> may change besides the counters.\<close>

definition pi_inv :: "sys \<Rightarrow> sys \<Rightarrow> bool" where
  "pi_inv s0 s \<longleftrightarrow> same_skel s0 s \<and> objs s = objs s0 \<and> counts_ok s \<and> (need_rescan s0 \<longrightarrow> need_rescan s)"

lemma pi_inv_flags:
  assumes "pi_inv s0 s"
  shows "pi_inv s0 (s\<lparr>need_rescan := True\<rparr>)" "pi_inv s0 (s\<lparr>msi_found_in_sysfs := True\<rparr>)" "pi_inv s0 (note_msi l s)"
  using assms by (auto simp: pi_inv_def same_skel_def counts_ok_def note_msi_def)

lemma pi_inv_count:
  assumes "pi_inv s0 s" "irqs s a = Some i" "i_irq_count i \<le> cnt"
  shows "pi_inv s0 (s\<lparr>irqs := (irqs s)(a \<mapsto> i\<lparr>last_irq_count := i_irq_count i, i_irq_count := cnt\<rparr>)\<rparr>)"
proof -
  have "same_skel s (s\<lparr>irqs := (irqs s)(a \<mapsto> i\<lparr>last_irq_count := i_irq_count i, i_irq_count := cnt\<rparr>)\<rparr>)"
    by (rule same_skel_upd_irq [OF assms(2)]) (simp add: skel_irq_def)
  with assms show ?thesis by (auto simp: pi_inv_def counts_ok_def intro: same_skel_trans)
qed

lemma count_line_ok:
  assumes "pi_inv s0 s" "wf_sys s0" "\<forall>a \<in> set (banned_irqs s0). irqs s0 a \<noteq> None"
  shows "\<exists>go s'. count_line line s = Some (go, s') \<and> pi_inv s0 s'"
proof -
  have sk: "same_skel s0 s" using assms(1) by (simp add: pi_inv_def)
  have w: "ok_irqs s" using wf_sys_skel [OF sk assms(2)] by (simp add: wf_sys_def)
  have "\<forall>a \<in> set (banned_irqs s). irqs s a \<noteq> None" using assms(3) same_skelD(6,10) [OF sk] by simp
  from get_irq_info_total [OF w this] obtain r where
    r: "get_irq_info (to_int (strtoul (takeWhile (\<lambda>x. x \<noteq> CHR '':'') line))) s = Some r" "\<forall>a. r = Some a \<longrightarrow> irqs s a \<noteq> None"
    by blast
  obtain cnt cpunr where c: "sum_counts (tl (dropWhile (\<lambda>x. x \<noteq> CHR '':'') line)) 0 0 = (cnt, cpunr)" by fastforce
  note f = pi_inv_flags [OF assms(1)]
  let ?c = "dropWhile isblank line"
  consider "\<not> (?c \<noteq> [] \<and> isdigit (hd ?c)) \<or> CHR '':'' \<notin> set line"
    | "?c \<noteq> []" "isdigit (hd ?c)" "CHR '':'' \<in> set line" "r = None"
    | a i where "?c \<noteq> []" "isdigit (hd ?c)" "CHR '':'' \<in> set line" "r = Some a" "irqs s a = Some i"
    using r(2) by blast
  then show ?thesis
  proof cases
    case 1
    then have "\<exists>go. count_line line s = Some (go, s)" by (auto simp: count_line_def Let_def)
    with assms(1) show ?thesis by blast
  next
    case 2
    then have "count_line line s = Some (False, s\<lparr>need_rescan := True\<rparr>)" using r(1) by (auto simp: count_line_def Let_def)
    with f(1) show ?thesis by blast
  next
    case (3 a i)
    let ?t = "s\<lparr>irqs := (irqs s)(a \<mapsto> i\<lparr>last_irq_count := i_irq_count i, i_irq_count := cnt\<rparr>)\<rparr>"
    have e: "count_line line s = (if cpunr \<noteq> core_count s \<or> cnt < i_irq_count i then Some (False, s\<lparr>need_rescan := True\<rparr>)
        else Some (True, if i_type i = IRQ_TYPE_MSI \<or> i_type i = IRQ_TYPE_MSIX then ?t\<lparr>msi_found_in_sysfs := True\<rparr> else ?t))"
      using 3 r(1) c by (simp add: count_line_def Let_def upd_irq_Some del: dropWhile_eq_Nil_conv)
    show ?thesis
    proof (cases "cnt < i_irq_count i")
      case True
      with e f(1) show ?thesis by auto
    next
      case False
      then have "pi_inv s0 ?t" using pi_inv_count [OF assms(1) 3(5)] by simp
      with pi_inv_flags(2) [OF this] e f(1) show ?thesis by auto
    qed
  qed
qed

lemma proc_interrupts_line_ok:
  assumes "pi_inv s0 s" "wf_sys s0" "\<forall>a \<in> set (banned_irqs s0). irqs s0 a \<noteq> None"
  shows "\<exists>go s'. proc_interrupts_line line s = Some (go, s') \<and> pi_inv s0 s'"
  unfolding proc_interrupts_line_def by (rule count_line_ok [OF pi_inv_flags(3) [OF assms(1)] assms(2,3)])

lemma proc_interrupts_loop_ok:
  assumes "pi_inv s0 s" "wf_sys s0" "\<forall>a \<in> set (banned_irqs s0). irqs s0 a \<noteq> None"
  shows "\<exists>s'. proc_interrupts_loop ls s = Some s' \<and> pi_inv s0 s'"
  using assms(1)
proof (induction ls arbitrary: s)
  case (Cons l ls)
  from proc_interrupts_line_ok [OF Cons.prems assms(2,3), of l]
  obtain go t where t: "proc_interrupts_line l s = Some (go, t)" "pi_inv s0 t" by blast
  with Cons.IH [OF t(2)] show ?case by (cases go) auto
qed simp

lemma parse_proc_interrupts_ok:
  assumes "wf_sys s" "counts_ok s" "\<forall>a \<in> set (banned_irqs s). irqs s a \<noteq> None"
  shows "\<exists>s'. parse_proc_interrupts f s = Some s' \<and> same_skel s s' \<and> objs s' = objs s \<and> counts_ok s'
    \<and> (need_rescan s \<longrightarrow> need_rescan s')"
proof (cases f)
  case (Some ls)
  have "pi_inv s s" using assms(2) by (simp add: pi_inv_def)
  from proc_interrupts_loop_ok [OF this assms(1,3)] obtain s' where s': "proc_interrupts_loop ls s = Some s'" "pi_inv s s'" by blast
  have "pi_inv s (s'\<lparr>msi_found_in_sysfs := True\<rparr>)" using s'(2) by (simp add: pi_inv_def same_skel_def counts_ok_def)
  with s' Some show ?thesis by (auto simp: parse_proc_interrupts_def pi_inv_def)
qed (use assms in \<open>simp add: parse_proc_interrupts_def\<close>)

section \<open>Reading /proc/stat returns\<close>

lemma counts_ok_only_loads:
  assumes "only_loads s s'" "counts_ok s"
  shows "counts_ok s'"
  unfolding counts_ok_def
proof (intro allI impI)
  fix a i' assume "irqs s' a = Some i'"
  then obtain i where i: "irqs s a = Some i" "i'\<lparr>i_load := 0\<rparr> = i\<lparr>i_load := 0\<rparr>"
    using assms(1) [unfolded only_loads_def, THEN conjunct2, rule_format, of a] by (cases "irqs s a") auto
  then have "last_irq_count i' = last_irq_count i" "i_irq_count i' = i_irq_count i" by (cases i; cases i'; simp)+
  then show "last_irq_count i' \<le> i_irq_count i'" using assms(2) i(1) by (simp add: counts_ok_def)
qed

text \<open>The lines about cpus name one that a mask can hold.\<close>

definition stat_lines_ok :: "string list \<Rightarrow> bool" where
  "stat_lines_ok ls \<longleftrightarrow> (\<forall>l \<in> set ls. strstr l ''cpu'' \<longrightarrow>
     0 \<le> to_int (strtoul (drop 3 l)) \<and> to_int (strtoul (drop 3 l)) < int NR_CPUS)"

lemma proc_stat_line_ok:
  assumes "stat_lines_ok [l]" "ok_sys s"
  shows "\<exists>r s'. proc_stat_line hz l s = Some (r, s') \<and> same_skel s s' \<and> irqs s' = irqs s \<and> need_rescan s' = need_rescan s"
proof (cases "strstr l ''cpu''")
  case False
  then show ?thesis by (simp add: proc_stat_line_def)
next
  case True
  let ?n = "to_int (strtoul (drop 3 l))"
  have n: "0 \<le> ?n" "?n < int NR_CPUS" using assms(1) True by (simp_all add: stat_lines_ok_def)
  obtain b where b: "cpu_isset ?n (banned_cpus s) = Some b" using n by (simp add: cpu_isset_eq)
  have "\<forall>a \<in> set (cpus s). objs s a \<noteq> None" using assms(2) unfolding ok_sys_def wf_sys_def ok_tree_def by blast
  then obtain r where r: "find_cpu_core ?n s = Some r" "\<forall>a. r = Some a \<longrightarrow> objs s a \<noteq> None"
    using find_custom_total [of "cpus s" "compare_cpus s ?n"] by (auto simp: find_cpu_core_def compare_cpus_def)
  show ?thesis
  proof (cases "b \<or> scan_stat_line l = None \<or> r = None")
    case True
    then show ?thesis using \<open>strstr l ''cpu''\<close> b r(1) by (auto simp: proc_stat_line_def split: option.split)
  next
    case False
    then obtain a il sl d where a: "r = Some a" "scan_stat_line l = Some (il, sl)" "objs s a = Some d" using r(2) by auto
    let ?d = "let d = (if cycle_count s \<noteq> 0 then d\<lparr>load := jiffies_to_nsec hz ((il + sl) - last_load d)\<rparr> else d)
              in d\<lparr>last_load := il + sl\<rparr>"
    have "skel_obj ?d = skel_obj d" by (simp add: skel_obj_def Let_def)
    then have "same_skel s (s\<lparr>objs := (objs s)(a \<mapsto> ?d)\<rparr>)" by (rule same_skel_upd_obj [OF a(3)])
    then show ?thesis using False True b r(1) a by (simp add: proc_stat_line_def upd_obj_Some)
  qed
qed

lemma proc_stat_loop_ok:
  assumes "stat_lines_ok ls" "ok_sys s"
  shows "\<exists>k s'. proc_stat_loop hz ls n s = Some (k, s') \<and> same_skel s s' \<and> irqs s' = irqs s \<and> need_rescan s' = need_rescan s"
  using assms
proof (induction ls arbitrary: n s)
  case (Cons l ls)
  obtain r t where t: "proc_stat_line hz l s = Some (r, t)" "same_skel s t" "irqs t = irqs s" "need_rescan t = need_rescan s"
    using proc_stat_line_ok [of l s hz] Cons.prems by (auto simp: stat_lines_ok_def)
  have "stat_lines_ok ls" using Cons.prems(1) by (simp add: stat_lines_ok_def)
  from Cons.IH [OF this ok_sys_skel [OF t(2) Cons.prems(2)]] t same_skel_trans [OF t(2)]
  show ?case by (cases r) fastforce+
qed simp

lemma parse_proc_stat_ok:
  assumes "ok_sys s" "ok_parents s" "counts_ok s" "\<forall>ls. f = Some ls \<longrightarrow> stat_lines_ok ls"
  shows "\<exists>s'. parse_proc_stat hz f s = Some s' \<and> same_skel s s' \<and> counts_ok s' \<and> need_rescan s' = need_rescan s"
proof (cases f)
  case None
  then show ?thesis using assms(3) by (simp add: parse_proc_stat_def)
next
  case (Some ls)
  obtain k t where t: "proc_stat_loop hz ls 0 s = Some (k, t)" "same_skel s t" "irqs t = irqs s" "need_rescan t = need_rescan s"
    using proc_stat_loop_ok [of ls s] assms(1,4) Some by blast
  have c: "counts_ok t" using assms(3) t(3) by (simp add: counts_ok_def)
  obtain u where u: "attribute_loads t = Some u" "same_skel t u" "only_loads t u"
    using attribute_loads_ok [OF ok_sys_skel [OF t(2) assms(1)] ok_parents_skel [OF t(2) assms(2)]] by blast
  show ?thesis using t Some c u same_skel_trans [OF t(2) u(2)] counts_ok_only_loads [OF u(3) c] u(3) [unfolded only_loads_def]
    by (cases "int k = get_cpu_count t") (simp_all add: parse_proc_stat_def)
qed

end
