(* ===== verification/Sysfs.thy ===== *)
theory Sysfs
  imports Procinterrupts
begin

text \<open>
  What the balancer reads of the system while it builds its topology and irq data base: files and
  directories under \<open>/sys\<close> and \<open>/proc\<close>, the environment, the output of the policy script and POSIX
  regular expressions. All of it is a parameter, the record \<open>world\<close>. The memory allocator is a
  function from the state to the address \<open>calloc\<close> returns.
\<close>

section \<open>The system\<close>

text \<open>
  \<open>contents p\<close> is the contents of the file at path \<open>p\<close>, if it can be opened; \<open>entries p\<close> the names
  \<open>readdir\<close> returns for the directory \<open>p\<close>, each with whether its \<open>d_type\<close> is \<open>DT_DIR\<close>; \<open>polscript\<close> is
  the policy script, if one was given, which gives for a device path and an irq the lines \<open>fgets\<close>
  returns (or \<open>None\<close> when \<open>popen\<close> fails); \<open>regexec\<close> tells whether an extended regular expression
  matches a string.
\<close>

record world =
  contents :: "string \<Rightarrow> string option"
  entries :: "string \<Rightarrow> (string \<times> bool) list option"
  environ :: "string \<Rightarrow> string option"
  polscript :: "(string \<Rightarrow> int \<Rightarrow> string list option) option"
  regexec :: "string \<Rightarrow> string \<Rightarrow> bool"

text \<open>\<open>stat(path) == 0\<close>.\<close>

definition stat_ok :: "world \<Rightarrow> string \<Rightarrow> bool" where
  "stat_ok w p \<longleftrightarrow> contents w p \<noteq> None \<or> entries w p \<noteq> None"

definition newline :: char where
  "newline = CHR 0x0A"

text \<open>\<open>getline\<close> on a file just opened: the first line with its newline, \<open>None\<close> for the result \<open>-1\<close>.\<close>

definition getline :: "string \<Rightarrow> string option" where
  "getline c = (if c = [] then None
     else Some (takeWhile (\<lambda>x. x \<noteq> newline) c @ (if newline \<in> set c then [newline] else [])))"

lemma getline_shorter: "getline c = Some l \<Longrightarrow> length (drop (length l) c) < length c"
  by (cases c) (auto simp: getline_def split: if_splits)

text \<open>The lines of a file, as repeated \<open>getline\<close> returns them.\<close>

function file_lines :: "string \<Rightarrow> string list" where
  "file_lines c = (case getline c of None \<Rightarrow> [] | Some l \<Rightarrow> l # file_lines (drop (length l) c))"
  by pat_completeness auto
termination
  by (relation "measure length") (use getline_shorter in auto)

declare file_lines.simps [simp del]

definition file_first_line :: "world \<Rightarrow> string \<Rightarrow> first_line" where
  "file_first_line w p = (case contents w p of None \<Rightarrow> NoFile
     | Some c \<Rightarrow> (case getline c of None \<Rightarrow> NoLine | Some l \<Rightarrow> Line l))"

text \<open>\<open>%d\<close>.\<close>

definition fmt_d :: "int \<Rightarrow> string" where
  "fmt_d n = (if n < 0 then ''-'' @ to_dec (nat (- n)) else to_dec (nat n))"


section \<open>Memory\<close>

text \<open>An object and an irq descriptor as \<open>calloc\<close> returns them.\<close>

definition zero_obj :: topo_obj where
  "zero_obj = \<lparr>load = 0, last_load = 0, irq_count = 0, obj_type = OBJ_TYPE_CPU, number = 0, powersave_mode = False,
     mask = CPU_MASK_NONE, interrupts = [], parent = NULL, children = [], obj_type_list = None\<rparr>"

definition zero_irq :: irq_info where
  "zero_irq = \<lparr>irq = 0, i_class = 0, i_type = 0, level = 0, flags = 0, numa_node = NULL,
     cpumask = CPU_MASK_NONE, affinity_hint = CPU_MASK_NONE, hint_policy = HINT_POLICY_IGNORE,
     i_irq_count = 0, last_irq_count = 0, i_load = 0, moved = False, assigned_obj = NULL, warned = False,
     i_name = None\<rparr>"

text \<open>The static variable \<open>unspecified_node\<close> of \<open>numa.c\<close> has an address of its own.\<close>

definition unspecified_node :: addr where
  "unspecified_node = 1"

type_synonym allocator = "sys \<Rightarrow> addr"

text \<open>\<open>calloc\<close> succeeds with an address that is not in use, as long as finitely many are.\<close>

definition sys_allocates :: "allocator \<Rightarrow> bool" where
  "sys_allocates alloc \<longleftrightarrow> (\<forall>s. finite (dom (objs s)) \<longrightarrow> finite (dom (irqs s)) \<longrightarrow>
     alloc s \<noteq> NULL \<and> alloc s \<noteq> unspecified_node \<and> objs s (alloc s) = None \<and> irqs s (alloc s) = None)"

definition free_obj :: "addr \<Rightarrow> sys \<Rightarrow> sys option" where
  "free_obj a s = (case objs s a of None \<Rightarrow> None | Some _ \<Rightarrow> Some (s\<lparr>objs := (objs s)(a := None)\<rparr>))"

definition free_irq :: "addr \<Rightarrow> sys \<Rightarrow> sys option" where
  "free_irq a s = (case irqs s a of None \<Rightarrow> None | Some _ \<Rightarrow> Some (s\<lparr>irqs := (irqs s)(a := None)\<rparr>))"

definition first_free :: allocator where
  "first_free s = Suc (Suc (Max (insert 0 (dom (objs s) \<union> dom (irqs s)))))"

lemma first_free: "sys_allocates first_free"
  unfolding sys_allocates_def
proof (intro allI impI)
  fix s :: sys assume f: "finite (dom (objs s))" "finite (dom (irqs s))"
  have "first_free s \<notin> dom (objs s) \<union> dom (irqs s)"
  proof
    assume "first_free s \<in> dom (objs s) \<union> dom (irqs s)"
    then have "first_free s \<in> insert 0 (dom (objs s) \<union> dom (irqs s))" by blast
    from Max_ge [OF _ this] f show False by (simp add: first_free_def del: Max_insert)
  qed
  then show "first_free s \<noteq> NULL \<and> first_free s \<noteq> unspecified_node \<and> objs s (first_free s) = None
    \<and> irqs s (first_free s) = None"
    by (auto simp: unspecified_node_def first_free_def)
qed

end
