(* ===== verification/Numa.thy ===== *)
theory Numa
  imports Sysfs
begin

text \<open>
  \<open>numa.c\<close>: the list of numa nodes. Its first element is the unspecified node, a static variable that
  stands for the whole machine; the others are read from \<open>/sys/devices/system/node\<close> when the system has
  numa support.
\<close>

definition SYSFS_NODE_PATH :: string where
  "SYSFS_NODE_PATH = ''/sys/devices/system/node''"

definition unspecified_node_template :: topo_obj where
  "unspecified_node_template = zero_obj\<lparr>load := 0, number := -1, obj_type := OBJ_TYPE_NODE, mask := CPU_MASK_ALL,
     interrupts := [], children := [], parent := NULL, obj_type_list := Some NUMA_NODES\<rparr>"

definition add_one_node :: "allocator \<Rightarrow> world \<Rightarrow> string \<Rightarrow> sys \<Rightarrow> sys option" where
  "add_one_node alloc w nodename s =
     (let new = alloc s
      in if new = NULL then Some s
         else case contents w (SYSFS_NODE_PATH @ ''/'' @ nodename @ ''/cpumap'') of
           None \<Rightarrow> Some s
         | Some c \<Rightarrow>
             let m = (case getline c of None \<Rightarrow> cpus_clear CPU_MASK_NONE
                      | Some cpustr \<Rightarrow> snd (cpumask_parse_user cpustr CPU_MASK_NONE));
                 d = zero_obj\<lparr>mask := m, obj_type := OBJ_TYPE_NODE, number := to_int (strtoul (drop 4 nodename)),
                   obj_type_list := Some NUMA_NODES\<rparr>
             in Some (s\<lparr>objs := (objs s)(new \<mapsto> d), numa_nodes := numa_nodes s @ [new]\<rparr>))"

definition build_numa_node_list :: "allocator \<Rightarrow> world \<Rightarrow> sys \<Rightarrow> sys option" where
  "build_numa_node_list alloc w s =
     (let s = s\<lparr>objs := (objs s)(unspecified_node \<mapsto> unspecified_node_template),
                numa_nodes := numa_nodes s @ [unspecified_node]\<rparr>
      in if \<not> numa_avail s then Some s
         else case entries w SYSFS_NODE_PATH of
           None \<Rightarrow> Some s
         | Some es \<Rightarrow> for_each (\<lambda>(d_name, is_dir) s.
             if is_dir \<and> strstr d_name ''node'' then add_one_node alloc w d_name s else Some s) es s)"

text \<open>\<open>free_numa_node\<close> reads the node to free its lists; the static node itself is not freed.\<close>

definition free_numa_node :: "addr \<Rightarrow> sys \<Rightarrow> sys option" where
  "free_numa_node a s = do {
     _ \<leftarrow> objs s a;
     if a \<noteq> unspecified_node then free_obj a s else Some s
   }"

definition free_numa_node_list :: "sys \<Rightarrow> sys option" where
  "free_numa_node_list s = do {
     s \<leftarrow> for_each free_numa_node (numa_nodes s) s;
     Some (s\<lparr>numa_nodes := []\<rparr>)
   }"

definition compare_node :: "sys \<Rightarrow> int \<Rightarrow> addr \<Rightarrow> int option" where
  "compare_node s n a = map_option (\<lambda>d. if number d = n then 0 else 1) (objs s a)"

text \<open>\<open>get_numa_node\<close> returns \<open>NULL\<close> for an unknown node.\<close>

definition get_numa_node :: "int \<Rightarrow> sys \<Rightarrow> addr option" where
  "get_numa_node nodeid s =
     (if \<not> numa_avail s then Some unspecified_node
      else if nodeid = -1 then Some unspecified_node
      else do {
        entry \<leftarrow> find_custom (compare_node s nodeid) (numa_nodes s);
        Some (case entry of None \<Rightarrow> NULL | Some a \<Rightarrow> a)
      })"

definition add_package_to_node :: "addr \<Rightarrow> int \<Rightarrow> sys \<Rightarrow> sys option" where
  "add_package_to_node p nodeid s = do {
     node \<leftarrow> get_numa_node nodeid s;
     if node = NULL then Some s
     else do {
       d \<leftarrow> objs s p;
       if parent d = NULL then do {
         s \<leftarrow> upd_obj node (\<lambda>n. n\<lparr>children := children n @ [p]\<rparr>) s;
         upd_obj p (\<lambda>d. d\<lparr>parent := node\<rparr>) s
       }
       else Some s
     }
   }"

end
