(* ===== verification/Cputree.thy ===== *)
theory Cputree
  imports Numa
begin

text \<open>
  \<open>cputree.c\<close>: the tree of packages, cache domains and cpus, read from \<open>/sys/devices/system/cpu\<close>. Banned
  cpus get no object, and are removed from the masks of the objects above. (\<open>compare_cpus\<close>,
  \<open>find_cpu_core\<close> and \<open>get_cpu_count\<close> are in \<open>Procinterrupts\<close>; the dump functions are in \<open>Dump\<close>.)
\<close>

section \<open>Banned cpus\<close>

text \<open>The first line of a file as a cpu list; a file without a line leaves the mask empty.\<close>

definition read_cpulist :: "world \<Rightarrow> string \<Rightarrow> cpumask_t option" where
  "read_cpulist w path =
     (case contents w path of None \<Rightarrow> Some (cpus_clear CPU_MASK_NONE)
      | Some c \<Rightarrow> (case getline c of None \<Rightarrow> Some (cpus_clear CPU_MASK_NONE)
        | Some l \<Rightarrow>
            let line = c_string l
            in if line \<noteq> [] \<and> hd line \<noteq> newline
               then map_option snd (cpulist_parse line (cpus_clear CPU_MASK_NONE))
               else Some (cpus_clear CPU_MASK_NONE)))"

definition setup_banned_cpus :: "world \<Rightarrow> sys \<Rightarrow> sys option" where
  "setup_banned_cpus w s =
     (case environ w ''IRQBALANCE_BANNED_CPUS'' of
        Some v \<Rightarrow> Some (s\<lparr>banned_cpus := snd (cpumask_parse_user (c_string v) (banned_cpus s))\<rparr>)
      | None \<Rightarrow> do {
          isolated_cpus \<leftarrow> read_cpulist w ''/sys/devices/system/cpu/isolated'';
          nohz_full \<leftarrow> read_cpulist w ''/sys/devices/system/cpu/nohz_full'';
          Some (s\<lparr>banned_cpus := cpus_or (banned_cpus s) nohz_full isolated_cpus\<rparr>)
        })"


section \<open>Objects\<close>

text \<open>The search for an object of a list with a given mask.\<close>

definition find_mask :: "sys \<Rightarrow> cpumask_t \<Rightarrow> addr list \<Rightarrow> addr option option" where
  "find_mask s m as = find_custom (\<lambda>a. map_option (\<lambda>d. if cpus_equal m (mask d) then 0 else 1) (objs s a)) as"

text \<open>Appending a child unless it is there already.\<close>

definition add_child :: "addr \<Rightarrow> addr \<Rightarrow> sys \<Rightarrow> sys option" where
  "add_child p c s = do {
     d \<leftarrow> objs s p;
     if c \<in> set (children d) then Some s
     else do {
       s \<leftarrow> upd_obj p (\<lambda>d. d\<lparr>children := children d @ [c]\<rparr>) s;
       upd_obj c (\<lambda>e. e\<lparr>parent := p\<rparr>) s
     }
   }"

text \<open>Both functions return \<open>NULL\<close> when the allocation fails.\<close>

definition add_cache_domain_to_package ::
  "allocator \<Rightarrow> addr \<Rightarrow> int \<Rightarrow> cpumask_t \<Rightarrow> sys \<Rightarrow> (addr \<times> sys) option" where
  "add_cache_domain_to_package alloc cache packageid package_mask s = do {
     entry \<leftarrow> find_mask s package_mask (packages s);
     let (package, s) = (case entry of
        Some package \<Rightarrow> (package, s)
      | None \<Rightarrow>
          let package = alloc s
          in if package = NULL then (NULL, s)
             else (package, s\<lparr>objs := (objs s)(package \<mapsto> zero_obj\<lparr>mask := package_mask, obj_type := OBJ_TYPE_PACKAGE,
                     obj_type_list := Some PACKAGES, number := packageid\<rparr>),
                   packages := packages s @ [package], package_count := package_count s + 1\<rparr>));
     if package = NULL then Some (NULL, s)
     else do {
       s \<leftarrow> add_child package cache s;
       Some (package, s)
     }
   }"

definition add_cpu_to_cache_domain ::
  "allocator \<Rightarrow> addr \<Rightarrow> cpumask_t \<Rightarrow> sys \<Rightarrow> (addr \<times> sys) option" where
  "add_cpu_to_cache_domain alloc cpu cache_mask s = do {
     entry \<leftarrow> find_mask s cache_mask (cache_domains s);
     let (cache, s) = (case entry of
        Some cache \<Rightarrow> (cache, s)
      | None \<Rightarrow>
          let cache = alloc s
          in if cache = NULL then (NULL, s)
             else (cache, s\<lparr>objs := (objs s)(cache \<mapsto> zero_obj\<lparr>mask := cache_mask, obj_type := OBJ_TYPE_CACHE,
                     obj_type_list := Some CACHE_DOMAINS, number := int (cache_domain_count s)\<rparr>),
                   cache_domains := cache_domains s @ [cache], cache_domain_count := cache_domain_count s + 1\<rparr>));
     if cache = NULL then Some (NULL, s)
     else do {
       s \<leftarrow> add_child cache cpu s;
       Some (cache, s)
     }
   }"


section \<open>One cpu\<close>

text \<open>The files of a cpu. \<open>getline\<close> never returns 0: after \<open>-1\<close> the code goes on with a buffer of
  unspecified contents, \<open>None\<close>.\<close>

definition cpu_online :: "world \<Rightarrow> string \<Rightarrow> bool option" where
  "cpu_online w path = (case file_first_line w (path @ ''/online'') of
     NoFile \<Rightarrow> Some True | NoLine \<Rightarrow> None | Line l \<Rightarrow> Some (hd l \<noteq> CHR ''0''))"

definition read_mask :: "world \<Rightarrow> string \<Rightarrow> cpumask_t \<Rightarrow> cpumask_t option" where
  "read_mask w path m = (case file_first_line w path of
     NoFile \<Rightarrow> Some m | NoLine \<Rightarrow> None | Line l \<Rightarrow> Some (snd (cpumask_parse_user (c_string l) m)))"

definition read_id :: "world \<Rightarrow> string \<Rightarrow> int \<Rightarrow> int option" where
  "read_id w path n = (case file_first_line w path of
     NoFile \<Rightarrow> Some n | NoLine \<Rightarrow> None | Line l \<Rightarrow> Some (to_int (strtoul (c_string l))))"

definition cache_path :: "string \<Rightarrow> u32 \<Rightarrow> string" where
  "cache_path path idx = path @ ''/cache/index'' @ fmt_d (sint idx) @ ''/shared_cpu_map''"

text \<open>The loop over the cache levels; it ends at \<open>deepest_cache\<close> or at the first missing level.\<close>

partial_function (option) cache_index_loop :: "world \<Rightarrow> string \<Rightarrow> u64 \<Rightarrow> u32 \<Rightarrow> u32 \<Rightarrow> u32 option" where
  "cache_index_loop w path deepest max_cache_index cache_index =
     (if stat_ok w (cache_path path cache_index)
      then if ucast cache_index = deepest then Some cache_index
           else cache_index_loop w path deepest cache_index (cache_index + 1)
      else Some max_cache_index)"

definition read_cache_mask :: "world \<Rightarrow> string \<Rightarrow> u64 \<Rightarrow> cpumask_t \<Rightarrow> cpumask_t option" where
  "read_cache_mask w path deepest m = do {
     max_cache_index \<leftarrow> cache_index_loop w path deepest 0 1;
     if 0 < max_cache_index then read_mask w (cache_path path max_cache_index) m else Some m
   }"

text \<open>The first entry of the cpu's directory that names a numa node; \<open>readdir(NULL)\<close> when it cannot be
  opened.\<close>

definition cpu_nodeid :: "world \<Rightarrow> string \<Rightarrow> bool \<Rightarrow> int option" where
  "cpu_nodeid w path numa =
     (if \<not> numa then Some (-1)
      else map_option (\<lambda>es. case find (\<lambda>(n, _). strstr n ''node'') es of
          None \<Rightarrow> -1 | Some (n, _) \<Rightarrow> to_int (strtoul (drop 4 n))) (entries w path))"

text \<open>\<open>package_mask\<close> is not initialised before \<open>cpu_set\<close>: \<open>junk\<close> is what the stack holds there.\<close>

definition do_one_cpu :: "allocator \<Rightarrow> cpumask_t \<Rightarrow> world \<Rightarrow> string \<Rightarrow> sys \<Rightarrow> sys option" where
  "do_one_cpu alloc junk w path s = do {
     online \<leftarrow> cpu_online w path;
     let cpu = alloc s;
     if \<not> online \<or> cpu = NULL then Some s
     else do {
       let num = to_int (strtoul (drop 27 path));
       possible \<leftarrow> cpu_set num (cpu_possible_map s);
       own \<leftarrow> cpu_set num CPU_MASK_NONE;
       let s = s\<lparr>cpu_possible_map := possible\<rparr>;
       if cpus_intersects own (banned_cpus s) then Some (s\<lparr>core_count := core_count s + 1\<rparr>)
       else do {
         package_mask \<leftarrow> cpu_set num junk;
         package_mask \<leftarrow> read_mask w (path @ ''/topology/core_siblings'') package_mask;
         packageid \<leftarrow> read_id w (path @ ''/topology/physical_package_id'') 0;
         cache_mask \<leftarrow> read_cache_mask w path (deepest_cache s) own;
         nodeid \<leftarrow> cpu_nodeid w path (numa_avail s);
         let cache_mask = cpus_and cache_mask cache_mask (unbanned_cpus s);
         let package_mask = cpus_and package_mask package_mask (unbanned_cpus s);
         let s = s\<lparr>objs := (objs s)(cpu \<mapsto> zero_obj\<lparr>obj_type := OBJ_TYPE_CPU, number := num, mask := own\<rparr>)\<rparr>;
         (cache, s) \<leftarrow> add_cpu_to_cache_domain alloc cpu cache_mask s;
         (package, s) \<leftarrow> add_cache_domain_to_package alloc cache packageid package_mask s;
         s \<leftarrow> add_package_to_node package nodeid s;
         s \<leftarrow> upd_obj cpu (\<lambda>d. d\<lparr>obj_type_list := Some CPUS\<rparr>) s;
         Some (s\<lparr>cpus := cpus s @ [cpu], core_count := core_count s + 1\<rparr>)
       }
     }
   }"


section \<open>The whole tree\<close>

text \<open>\<open>sscanf(d_name, "cpu%d%c", ...) == 1\<close> and no blank in the name.\<close>

definition is_cpu_name :: "string \<Rightarrow> bool" where
  "is_cpu_name n \<longleftrightarrow> take 3 n = ''cpu'' \<and> CHR '' '' \<notin> set n
     \<and> (let r = snd (skip_sign (dropWhile isspace (drop 3 n)))
        in takeWhile isdigit r \<noteq> [] \<and> dropWhile isdigit r = [])"

definition parse_cpu_tree :: "allocator \<Rightarrow> cpumask_t \<Rightarrow> world \<Rightarrow> sys \<Rightarrow> sys option" where
  "parse_cpu_tree alloc junk w s = do {
     s \<leftarrow> setup_banned_cpus w s;
     let s = s\<lparr>unbanned_cpus := cpus_complement (unbanned_cpus s) (banned_cpus s)\<rparr>;
     case entries w ''/sys/devices/system/cpu'' of
       None \<Rightarrow> Some s
     | Some es \<Rightarrow> for_each (\<lambda>(d_name, _) s.
         if is_cpu_name d_name then do_one_cpu alloc junk w (''/sys/devices/system/cpu/'' @ d_name) s
         else Some s) es s
   }"

definition clear_cpu_tree :: "sys \<Rightarrow> sys option" where
  "clear_cpu_tree s = do {
     s \<leftarrow> for_each free_obj (packages s) s;
     let s = s\<lparr>packages := [], package_count := 0\<rparr>;
     s \<leftarrow> for_each free_obj (cache_domains s) s;
     let s = s\<lparr>cache_domains := [], cache_domain_count := 0\<rparr>;
     s \<leftarrow> for_each free_obj (cpus s) s;
     Some (s\<lparr>cpus := [], core_count := 0\<rparr>)
   }"

definition clear_irq_stats :: "addr \<Rightarrow> sys \<Rightarrow> sys option" where
  "clear_irq_stats a s = upd_irq a (\<lambda>i. i\<lparr>i_load := 0\<rparr>) s"

partial_function (option) clear_obj_stats :: "addr \<Rightarrow> sys \<Rightarrow> sys option" where
  "clear_obj_stats a s = do {
     d \<leftarrow> objs s a;
     s \<leftarrow> for_each (\<lambda>c t. clear_obj_stats c t) (children d) s;
     d \<leftarrow> objs s a;
     for_each_irq (interrupts d) clear_irq_stats s
   }"

definition clear_work_stats :: "sys \<Rightarrow> sys option" where
  "clear_work_stats s = for_each_object (numa_nodes s) clear_obj_stats s"


section \<open>The invariant of the tree while it is built\<close>

definition group :: "sys \<Rightarrow> obj_type_e \<Rightarrow> addr list" where
  "group s t = (case t of OBJ_TYPE_CPU \<Rightarrow> cpus s | OBJ_TYPE_CACHE \<Rightarrow> cache_domains s
     | OBJ_TYPE_PACKAGE \<Rightarrow> packages s | OBJ_TYPE_NODE \<Rightarrow> numa_nodes s)"

text \<open>
  Every object is on the list of its type, unless it is in \<open>X\<close>; it has at most \<open>k\<close> children, all of
  the type just below; it is among the children of its parent; it has no irq, is not in powersave mode
  and, unless it is a numa node, has no banned cpu in its mask.
\<close>

definition obj_ok :: "addr set \<Rightarrow> nat \<Rightarrow> sys \<Rightarrow> addr \<Rightarrow> topo_obj \<Rightarrow> bool" where
  "obj_ok X k s a d \<longleftrightarrow> (a \<in> X \<or> a \<in> set (group s (obj_type d))) \<and> length (children d) \<le> k
     \<and> (\<forall>c \<in> set (children d). \<exists>e. objs s c = Some e \<and> tree_level (obj_type d) = Suc (tree_level (obj_type e)))
     \<and> (parent d \<noteq> NULL \<longrightarrow> (\<exists>p. objs s (parent d) = Some p \<and> a \<in> set (children p)))
     \<and> (obj_type d \<noteq> OBJ_TYPE_NODE \<longrightarrow> cpus_of (mask d) \<inter> cpus_of (banned_cpus s) = {})
     \<and> interrupts d = [] \<and> \<not> powersave_mode d"

definition built :: "addr set \<Rightarrow> nat \<Rightarrow> sys \<Rightarrow> bool" where
  "built X k s \<longleftrightarrow> finite (dom (objs s)) \<and> finite (dom (irqs s)) \<and> objs s NULL = None
     \<and> (\<forall>a d. objs s a = Some d \<longrightarrow> obj_ok X k s a d)
     \<and> (\<forall>t. distinct (group s t) \<and> (\<forall>a \<in> set (group s t). \<exists>d. objs s a = Some d \<and> obj_type d = t))
     \<and> cpus_of (unbanned_cpus s) = {..<NR_CPUS} - cpus_of (banned_cpus s)"

lemma built_obj: "built X k s \<Longrightarrow> objs s a = Some d \<Longrightarrow> obj_ok X k s a d"
  by (simp add: built_def)

lemma built_group: "built X k s \<Longrightarrow> a \<in> set (group s t) \<Longrightarrow> \<exists>d. objs s a = Some d \<and> obj_type d = t"
  by (simp add: built_def)

lemma built_mono: "built X k s \<Longrightarrow> X \<subseteq> Y \<Longrightarrow> k \<le> l \<Longrightarrow> built Y l s"
  unfolding built_def obj_ok_def by (meson le_trans subsetD)

text \<open>What building the tree leaves alone.\<close>

definition no_tree :: "sys \<Rightarrow> sys" where
  "no_tree s = s\<lparr>objs := Map.empty, packages := [], cache_domains := [], cpus := [], package_count := 0,
     cache_domain_count := 0, core_count := 0, cpu_possible_map := CPU_MASK_NONE\<rparr>"

text \<open>A new object, and its entry in the list of its type.\<close>

definition fresh_obj :: "sys \<Rightarrow> topo_obj \<Rightarrow> bool" where
  "fresh_obj s d \<longleftrightarrow> children d = [] \<and> parent d = NULL \<and> interrupts d = [] \<and> \<not> powersave_mode d
     \<and> (obj_type d \<noteq> OBJ_TYPE_NODE \<longrightarrow> cpus_of (mask d) \<inter> cpus_of (banned_cpus s) = {})"

lemma built_new:
  assumes b: "built X k s" and n: "objs s a = None" "a \<noteq> NULL" and d: "fresh_obj s d"
  shows "built (insert a X) k (s\<lparr>objs := (objs s)(a \<mapsto> d)\<rparr>)"
proof -
  let ?s = "s\<lparr>objs := (objs s)(a \<mapsto> d)\<rparr>"
  have g: "group ?s t = group s t" for t by (simp add: group_def split: obj_type_e.split)
  have ne: "a \<noteq> x" if "objs s x = Some e" for x e using n that by auto
  have "obj_ok (insert a X) k ?s x e" if "objs ?s x = Some e" for x e
  proof (cases "x = a")
    case True
    with that d show ?thesis by (auto simp: obj_ok_def fresh_obj_def)
  next
    case False
    then have x: "obj_ok X k s x e" using that b by (simp add: built_obj)
    show ?thesis using x ne unfolding obj_ok_def g by (simp split: if_splits) metis
  qed
  moreover have "\<exists>e. objs ?s x = Some e \<and> obj_type e = t" if "x \<in> set (group s t)" for x t
    using built_group [OF b that] ne by fastforce
  ultimately show ?thesis using b n(2) unfolding built_def g by simp
qed

lemma built_enlist:
  assumes b: "built (insert a X) k s" and a: "objs s a = Some d" "a \<notin> set (group s (obj_type d))"
    and g: "\<And>t. group s' t = (if t = obj_type d then group s t @ [a] else group s t)"
    and s': "objs s' = objs s" "irqs s' = irqs s" "banned_cpus s' = banned_cpus s" "unbanned_cpus s' = unbanned_cpus s"
  shows "built X k s'"
proof -
  have "obj_ok X k s' x e" if x: "objs s x = Some e" for x e
    using built_obj [OF b x] a(1) x unfolding obj_ok_def g s' by auto
  moreover have "distinct (group s' t) \<and> (\<forall>x \<in> set (group s' t). \<exists>e. objs s x = Some e \<and> obj_type e = t)" for t
    using b a unfolding g by (cases "t = obj_type d") (auto simp: built_def)
  ultimately show ?thesis using b unfolding built_def s' by blast
qed

text \<open>An object stays in order when the types of all objects stay, children are only added, and its own links
  are in order.\<close>

lemma obj_ok_links:
  assumes o: "obj_ok X k s x e" and g: "\<And>t. group s' t = group s t" "banned_cpus s' = banned_cpus s"
    and ty: "\<And>y f. objs s y = Some f \<Longrightarrow> \<exists>f'. objs s' y = Some f' \<and> obj_type f' = obj_type f \<and> set (children f) \<subseteq> set (children f')"
    and e': "obj_type e' = obj_type e" "mask e' = mask e" "interrupts e' = interrupts e" "powersave_mode e' = powersave_mode e"
    and len: "length (children e') \<le> k'"
    and kids: "\<And>y. y \<in> set (children e') \<Longrightarrow> y \<in> set (children e) \<or>
      (\<exists>f. objs s y = Some f \<and> tree_level (obj_type e) = Suc (tree_level (obj_type f)))"
    and par: "parent e' = parent e \<or> (\<exists>q. objs s' (parent e') = Some q \<and> x \<in> set (children q))"
  shows "obj_ok X k' s' x e'"
proof -
  have "\<exists>f. objs s' y = Some f \<and> tree_level (obj_type e) = Suc (tree_level (obj_type f))" if y: "y \<in> set (children e')" for y
  proof -
    obtain f where f: "objs s y = Some f" "tree_level (obj_type e) = Suc (tree_level (obj_type f))"
      using kids [OF y] o unfolding obj_ok_def by blast
    from ty [OF f(1)] f(2) show ?thesis by auto
  qed
  moreover have "\<exists>q. objs s' (parent e') = Some q \<and> x \<in> set (children q)" if pn: "parent e' \<noteq> NULL"
    using par
  proof
    assume p: "parent e' = parent e"
    then obtain q where q: "objs s (parent e') = Some q" "x \<in> set (children q)" using o pn unfolding obj_ok_def by auto
    from ty [OF q(1)] q(2) show ?thesis by auto
  qed
  ultimately show ?thesis using o len unfolding obj_ok_def g e' by blast
qed

lemma built_child:
  assumes b: "built X k s" and p: "objs s p = Some dp" and c: "objs s c = Some dc"
    and l: "tree_level (obj_type dp) = Suc (tree_level (obj_type dc))"
  shows "built X (Suc k) (s\<lparr>objs := (objs s)(p \<mapsto> dp\<lparr>children := children dp @ [c]\<rparr>, c \<mapsto> dc\<lparr>parent := p\<rparr>)\<rparr>)"
proof -
  define s' where "s' = s\<lparr>objs := (objs s)(p \<mapsto> dp\<lparr>children := children dp @ [c]\<rparr>, c \<mapsto> dc\<lparr>parent := p\<rparr>)\<rparr>"
  have pc: "p \<noteq> c" using l p c by auto
  have g: "group s' t = group s t" for t by (simp add: s'_def group_def split: obj_type_e.split)
  have os: "objs s' = (objs s)(p \<mapsto> dp\<lparr>children := children dp @ [c]\<rparr>, c \<mapsto> dc\<lparr>parent := p\<rparr>)"
    and fr: "banned_cpus s' = banned_cpus s" "unbanned_cpus s' = unbanned_cpus s" "irqs s' = irqs s" by (simp_all add: s'_def)
  have ty: "\<exists>e'. objs s' x = Some e' \<and> obj_type e' = obj_type e \<and> set (children e) \<subseteq> set (children e')" if "objs s x = Some e" for x e
    using that p c pc by (auto simp: os)
  have "obj_ok X (Suc k) s' x e'" if x: "objs s' x = Some e'" for x e'
  proof -
    obtain e where e: "objs s x = Some e" using x p c by (auto simp: os split: if_splits)
    have o: "obj_ok X k s x e" using built_obj [OF b e] .
    have n: "length (children e) \<le> k" using o unfolding obj_ok_def by blast
    have same: "obj_type e' = obj_type e" "mask e' = mask e" "interrupts e' = interrupts e" "powersave_mode e' = powersave_mode e"
      "children e' = (if x = p then children e @ [c] else children e)" "parent e' = (if x = c then p else parent e)"
      using x e p c pc by (auto simp: os split: if_splits)
    show ?thesis
    proof (rule obj_ok_links [OF o g fr(1) ty same(1-4)])
      show "length (children e') \<le> Suc k" using n by (simp add: same(5))
      show "y \<in> set (children e) \<or> (\<exists>f. objs s y = Some f \<and> tree_level (obj_type e) = Suc (tree_level (obj_type f)))"
        if "y \<in> set (children e')" for y using that e p c l by (auto simp: same(5) split: if_splits)
      show "parent e' = parent e \<or> (\<exists>q. objs s' (parent e') = Some q \<and> x \<in> set (children q))"
        using pc by (simp add: same(6) os)
    qed
  qed
  moreover have "\<exists>e. objs s' x = Some e \<and> obj_type e = t" if "x \<in> set (group s t)" for x t
    using built_group [OF b that] ty by metis
  moreover have "finite (dom (objs s'))" "objs s' NULL = None" using b p c by (auto simp: built_def os)
  ultimately have "built X (Suc k) s'" using b unfolding built_def g fr by simp
  then show ?thesis unfolding s'_def .
qed

lemma built_irrelevant:
  assumes b: "built X k s" and a: "objs s a = Some d"
    and d': "children d' = children d" "parent d' = parent d" "obj_type d' = obj_type d" "mask d' = mask d"
      "interrupts d' = interrupts d" "powersave_mode d' = powersave_mode d"
  shows "built X k (s\<lparr>objs := (objs s)(a \<mapsto> d')\<rparr>)"
proof -
  let ?s = "s\<lparr>objs := (objs s)(a \<mapsto> d')\<rparr>"
  have g: "group ?s t = group s t" for t by (simp add: group_def split: obj_type_e.split)
  have ty: "\<exists>e'. objs ?s x = Some e' \<and> obj_type e' = obj_type e \<and> set (children e) \<subseteq> set (children e')" if "objs s x = Some e" for x e
    using that a d' by auto
  have "obj_ok X k ?s x e" if x: "objs ?s x = Some e" for x e
  proof -
    obtain f where f: "objs s x = Some f" "children e = children f" "parent e = parent f" "obj_type e = obj_type f"
      "mask e = mask f" "interrupts e = interrupts f" "powersave_mode e = powersave_mode f"
      using x a d' by (auto split: if_splits)
    have o: "obj_ok X k s x f" using built_obj [OF b f(1)] .
    then have "length (children f) \<le> k" unfolding obj_ok_def by blast
    then show ?thesis by (intro obj_ok_links [OF o g _ ty]) (simp_all add: f)
  qed
  moreover have "\<exists>e. objs ?s x = Some e \<and> obj_type e = t" if "x \<in> set (group s t)" for x t
    using built_group [OF b that] ty by metis
  moreover have "finite (dom (objs ?s))" "objs ?s NULL = None" using b a by (auto simp: built_def)
  ultimately show ?thesis using b unfolding built_def g by simp
qed

text \<open>What the steps of \<open>do_one_cpu\<close> leave alone: type, number and mask of the objects there are, the lists
  of cpus and nodes, and everything that is not part of the tree.\<close>

definition ident :: "topo_obj \<Rightarrow> obj_type_e \<times> int \<times> cpumask_t" where
  "ident d = (obj_type d, number d, mask d)"

definition grows :: "sys \<Rightarrow> sys \<Rightarrow> bool" where
  "grows s s' \<longleftrightarrow> no_tree s' = no_tree s \<and> cpus s' = cpus s \<and> core_count s' = core_count s
     \<and> cpu_possible_map s' = cpu_possible_map s
     \<and> (\<forall>a d. objs s a = Some d \<longrightarrow> (\<exists>d'. objs s' a = Some d' \<and> ident d' = ident d))"

lemma grows_refl [simp]: "grows s s"
  by (simp add: grows_def)

lemma grows_trans: "grows s t \<Longrightarrow> grows t u \<Longrightarrow> grows s u"
  unfolding grows_def by metis

lemma no_tree_fields:
  "numa_nodes (no_tree s) = numa_nodes s" "irqs (no_tree s) = irqs s" "banned_cpus (no_tree s) = banned_cpus s"
  "unbanned_cpus (no_tree s) = unbanned_cpus s" "numa_avail (no_tree s) = numa_avail s"
  "deepest_cache (no_tree s) = deepest_cache s" "interrupts_db (no_tree s) = interrupts_db s"
  "banned_irqs (no_tree s) = banned_irqs s" "rebalance_irq_list (no_tree s) = rebalance_irq_list s"
  "cl_banned_irqs (no_tree s) = cl_banned_irqs s"
  by (simp_all add: no_tree_def)

lemma no_tree_eqD:
  assumes "no_tree s' = no_tree s"
  shows "numa_nodes s' = numa_nodes s" "irqs s' = irqs s" "banned_cpus s' = banned_cpus s"
    "unbanned_cpus s' = unbanned_cpus s" "numa_avail s' = numa_avail s" "deepest_cache s' = deepest_cache s"
    "interrupts_db s' = interrupts_db s" "banned_irqs s' = banned_irqs s" "rebalance_irq_list s' = rebalance_irq_list s"
    "cl_banned_irqs s' = cl_banned_irqs s"
  using no_tree_fields assms by metis+

lemma grows_obj:
  assumes "grows s s'" "objs s a = Some d"
  obtains d' where "objs s' a = Some d'" "obj_type d' = obj_type d" "number d' = number d" "mask d' = mask d"
  using assms that unfolding grows_def ident_def by (metis Pair_inject)

lemma add_child_ok:
  assumes b: "built X k s" and p: "objs s p = Some dp" and c: "objs s c = Some dc"
    and l: "tree_level (obj_type dp) = Suc (tree_level (obj_type dc))"
  shows "\<exists>s'. add_child p c s = Some s' \<and> built X (Suc k) s' \<and> grows s s'"
proof (cases "c \<in> set (children dp)")
  case True
  with p have "add_child p c s = Some s" by (simp add: add_child_def)
  then show ?thesis using built_mono [OF b subset_refl] by auto
next
  case False
  have "p \<noteq> c" using l p c by auto
  with False p c have "add_child p c s
      = Some (s\<lparr>objs := (objs s)(p \<mapsto> dp\<lparr>children := children dp @ [c]\<rparr>, c \<mapsto> dc\<lparr>parent := p\<rparr>)\<rparr>)"
    by (simp add: add_child_def upd_obj_def)
  moreover have "grows s (s\<lparr>objs := (objs s)(p \<mapsto> dp\<lparr>children := children dp @ [c]\<rparr>, c \<mapsto> dc\<lparr>parent := p\<rparr>)\<rparr>)"
    using p c by (simp add: grows_def no_tree_def ident_def)
  ultimately show ?thesis using built_child [OF b p c l] by simp
qed

lemma find_mask_ok:
  assumes "built X k s" "set as \<subseteq> set (group s t)"
  shows "\<exists>r. find_mask s m as = Some r \<and> (\<forall>a. r = Some a \<longrightarrow> (\<exists>d. objs s a = Some d \<and> obj_type d = t))"
proof -
  have "\<forall>a \<in> set as. map_option (\<lambda>d. if cpus_equal m (mask d) then (0::int) else 1) (objs s a) \<noteq> None"
    using built_group [OF assms(1)] assms(2) by fastforce
  from find_custom_total [OF this] show ?thesis
    unfolding find_mask_def using built_group [OF assms(1)] assms(2) by blast
qed

lemma alloc_fresh:
  assumes "sys_allocates alloc" "built X k s"
  shows "alloc s \<noteq> NULL" "alloc s \<noteq> unspecified_node" "objs s (alloc s) = None" "irqs s (alloc s) = None"
  using assms unfolding sys_allocates_def built_def by blast+

text \<open>A new object that goes on the list of its type at once.\<close>

lemma built_new_listed:
  assumes b: "built X k s" and al: "sys_allocates alloc" and d: "fresh_obj s d"
    and s': "objs s' = (objs s)(alloc s \<mapsto> d)" "no_tree s' = no_tree s" "cpus s' = cpus s" "core_count s' = core_count s"
      "cpu_possible_map s' = cpu_possible_map s"
    and g: "\<And>t. group s' t = (if t = obj_type d then group s t @ [alloc s] else group s t)"
  shows "built X k s' \<and> grows s s'"
proof -
  note f = alloc_fresh [OF al b]
  have b1: "built (insert (alloc s) X) k (s\<lparr>objs := (objs s)(alloc s \<mapsto> d)\<rparr>)" by (rule built_new [OF b f(3,1) d])
  have ga: "group (s\<lparr>objs := (objs s)(alloc s \<mapsto> d)\<rparr>) t = group s t" for t
    by (simp add: group_def split: obj_type_e.split)
  have "alloc s \<notin> set (group s (obj_type d))" using built_group [OF b] f(3) by fastforce
  then have "built X k s'"
    by (intro built_enlist [OF b1, of d])
      (simp_all only: ga, simp_all add: s'(1) g no_tree_eqD [OF s'(2)])
  moreover have "grows s s'" using f(3) s' unfolding grows_def by (auto simp: ident_def)
  ultimately show ?thesis by blast
qed

text \<open>Adding an object below one that has been found or created.\<close>

lemma add_child_after:
  assumes t: "built X k t" "grows s t" and p: "objs t p = Some dp" and c: "objs s c = Some dc"
    and l: "tree_level (obj_type dp) = Suc (tree_level (obj_type dc))"
  shows "\<exists>s' d. map_option (Pair p) (add_child p c t) = Some (p, s') \<and> built X (Suc k) s' \<and> grows s s'
    \<and> objs s' p = Some d \<and> obj_type d = obj_type dp"
proof -
  obtain dc' where dc': "objs t c = Some dc'" "obj_type dc' = obj_type dc" by (rule grows_obj [OF t(2) c])
  then obtain s' where s': "add_child p c t = Some s'" "built X (Suc k) s'" "grows t s'"
    using add_child_ok [OF t(1) p dc'(1)] l by auto
  obtain d where "objs s' p = Some d" "obj_type d = obj_type dp" by (rule grows_obj [OF s'(3) p])
  with s' grows_trans [OF t(2) s'(3)] show ?thesis by auto
qed

lemma add_cpu_to_cache_domain_ok:
  assumes al: "sys_allocates alloc" and b: "built X k s" and cpu: "objs s cpu = Some d" "obj_type d = OBJ_TYPE_CPU"
    and m: "cpus_of m \<inter> cpus_of (banned_cpus s) = {}"
  shows "\<exists>cache s' dc. add_cpu_to_cache_domain alloc cpu m s = Some (cache, s') \<and> built X (Suc k) s' \<and> grows s s'
    \<and> objs s' cache = Some dc \<and> obj_type dc = OBJ_TYPE_CACHE"
proof -
  obtain r where r: "find_mask s m (cache_domains s) = Some r"
    "\<And>a. r = Some a \<Longrightarrow> \<exists>d. objs s a = Some d \<and> obj_type d = OBJ_TYPE_CACHE"
    using find_mask_ok [OF b, of "cache_domains s" OBJ_TYPE_CACHE m] by (auto simp: group_def)
  let ?d = "zero_obj\<lparr>mask := m, obj_type := OBJ_TYPE_CACHE,
    obj_type_list := Some CACHE_DOMAINS, number := int (cache_domain_count s)\<rparr>"
  let ?t = "s\<lparr>objs := (objs s)(alloc s \<mapsto> ?d),
    cache_domains := cache_domains s @ [alloc s], cache_domain_count := cache_domain_count s + 1\<rparr>"
  obtain cache t dc where e: "add_cpu_to_cache_domain alloc cpu m s = map_option (Pair cache) (add_child cache cpu t)"
    and t: "built X k t" "grows s t" "objs t cache = Some dc" "obj_type dc = OBJ_TYPE_CACHE"
  proof (cases r)
    case (Some cache)
    then obtain dc where dc: "objs s cache = Some dc" "obj_type dc = OBJ_TYPE_CACHE" using r(2) by blast
    moreover have "cache \<noteq> NULL" using dc(1) b by (auto simp: built_def)
    ultimately show thesis using r(1) Some b
      by (intro that [of cache s dc]) (simp_all add: add_cpu_to_cache_domain_def map_conv_bind_option comp_def)
  next
    case None
    have "built X k ?t \<and> grows s ?t"
      by (rule built_new_listed [OF b al, of ?d])
        (use m in \<open>simp_all add: fresh_obj_def zero_obj_def no_tree_def group_def split: obj_type_e.split\<close>)
    then show thesis using r(1) None alloc_fresh(1) [OF al b]
      by (intro that [of "alloc s" ?t ?d]) (simp_all add: add_cpu_to_cache_domain_def Let_def map_conv_bind_option comp_def)
  qed
  show ?thesis
    using add_child_after [OF t(1-3) cpu(1)] t(4) cpu(2) unfolding e by (auto simp: tree_level_def)
qed

lemma add_cache_domain_to_package_ok:
  assumes al: "sys_allocates alloc" and b: "built X k s" and cache: "objs s cache = Some d" "obj_type d = OBJ_TYPE_CACHE"
    and m: "cpus_of m \<inter> cpus_of (banned_cpus s) = {}"
  shows "\<exists>package s' dp. add_cache_domain_to_package alloc cache n m s = Some (package, s') \<and> built X (Suc k) s' \<and> grows s s'
    \<and> objs s' package = Some dp \<and> obj_type dp = OBJ_TYPE_PACKAGE"
proof -
  obtain r where r: "find_mask s m (packages s) = Some r"
    "\<And>a. r = Some a \<Longrightarrow> \<exists>d. objs s a = Some d \<and> obj_type d = OBJ_TYPE_PACKAGE"
    using find_mask_ok [OF b, of "packages s" OBJ_TYPE_PACKAGE m] by (auto simp: group_def)
  let ?d = "zero_obj\<lparr>mask := m, obj_type := OBJ_TYPE_PACKAGE, obj_type_list := Some PACKAGES, number := n\<rparr>"
  let ?t = "s\<lparr>objs := (objs s)(alloc s \<mapsto> ?d), packages := packages s @ [alloc s], package_count := package_count s + 1\<rparr>"
  obtain package t dp where e: "add_cache_domain_to_package alloc cache n m s = map_option (Pair package) (add_child package cache t)"
    and t: "built X k t" "grows s t" "objs t package = Some dp" "obj_type dp = OBJ_TYPE_PACKAGE"
  proof (cases r)
    case (Some package)
    then obtain dp where dp: "objs s package = Some dp" "obj_type dp = OBJ_TYPE_PACKAGE" using r(2) by blast
    moreover have "package \<noteq> NULL" using dp(1) b by (auto simp: built_def)
    ultimately show thesis using r(1) Some b
      by (intro that [of package s dp]) (simp_all add: add_cache_domain_to_package_def map_conv_bind_option comp_def)
  next
    case None
    have "built X k ?t \<and> grows s ?t"
      by (rule built_new_listed [OF b al, of ?d])
        (use m in \<open>simp_all add: fresh_obj_def zero_obj_def no_tree_def group_def split: obj_type_e.split\<close>)
    then show thesis using r(1) None alloc_fresh(1) [OF al b]
      by (intro that [of "alloc s" ?t ?d]) (simp_all add: add_cache_domain_to_package_def Let_def map_conv_bind_option comp_def)
  qed
  show ?thesis
    using add_child_after [OF t(1-3) cache(1)] t(4) cache(2) unfolding e by (auto simp: tree_level_def)
qed

lemma get_numa_node_ok:
  assumes "built X k s" "unspecified_node \<in> set (numa_nodes s)"
  shows "\<exists>a. get_numa_node n s = Some a \<and> (a = NULL \<or> (\<exists>d. objs s a = Some d \<and> obj_type d = OBJ_TYPE_NODE))"
proof -
  have nodes: "\<exists>d. objs s a = Some d \<and> obj_type d = OBJ_TYPE_NODE" if "a \<in> set (numa_nodes s)" for a
    using built_group [OF assms(1), of a OBJ_TYPE_NODE] that by (simp add: group_def)
  then have "\<forall>a \<in> set (numa_nodes s). compare_node s n a \<noteq> None" by (fastforce simp: compare_node_def)
  from find_custom_total [OF this] obtain r where r: "find_custom (compare_node s n) (numa_nodes s) = Some r"
    "\<forall>a. r = Some a \<longrightarrow> a \<in> set (numa_nodes s)" by blast
  show ?thesis using r nodes assms(2) by (cases r) (auto simp: get_numa_node_def)
qed

lemma add_package_to_node_ok:
  assumes b: "built X k s" and u: "unspecified_node \<in> set (numa_nodes s)"
    and p: "objs s p = Some dp" "obj_type dp = OBJ_TYPE_PACKAGE"
  shows "\<exists>s'. add_package_to_node p n s = Some s' \<and> built X (Suc k) s' \<and> grows s s'"
proof -
  obtain a where a: "get_numa_node n s = Some a" "a = NULL \<or> (\<exists>d. objs s a = Some d \<and> obj_type d = OBJ_TYPE_NODE)"
    using get_numa_node_ok [OF b u] by blast
  show ?thesis
  proof (cases "a = NULL \<or> parent dp \<noteq> NULL")
    case True
    then have "add_package_to_node p n s = Some s" using a(1) p by (auto simp: add_package_to_node_def)
    then show ?thesis using built_mono [OF b subset_refl] by auto
  next
    case False
    then obtain d where d: "objs s a = Some d" "obj_type d = OBJ_TYPE_NODE" using a(2) by blast
    have ap: "a \<noteq> p" using d p by auto
    let ?s = "s\<lparr>objs := (objs s)(a \<mapsto> d\<lparr>children := children d @ [p]\<rparr>, p \<mapsto> dp\<lparr>parent := a\<rparr>)\<rparr>"
    have "add_package_to_node p n s = Some ?s"
      using False a(1) p d ap by (simp add: add_package_to_node_def upd_obj_def)
    moreover have "built X (Suc k) ?s" by (rule built_child [OF b d(1) p(1)]) (simp add: d p tree_level_def)
    moreover have "grows s ?s" using p d by (simp add: grows_def no_tree_def ident_def)
    ultimately show ?thesis by simp
  qed
qed

section \<open>One cpu\<close>

lemma unat_ucast_u32: "unat (ucast (x :: u32) :: u64) = unat x"
  by (simp add: unsigned_ucast_eq take_bit_nat_eq_self_iff) (rule order_less_trans [OF unsigned_less], simp)

lemma unat_pred: "1 \<le> unat (x :: u32) \<Longrightarrow> unat (x - 1) = unat x - 1"
  by (rule unat_minus_one) (auto simp: unat_eq_0 [symmetric])

lemma cache_index_loop_ok:
  assumes "1 \<le> unat idx" "unat idx \<le> unat deepest" "unat deepest < 2 ^ 32"
    and "\<And>j. 1 \<le> j \<Longrightarrow> j < unat idx \<Longrightarrow> stat_ok w (cache_path path (of_nat j))"
  shows "\<exists>r. cache_index_loop w path deepest (idx - 1) idx = Some r \<and> unat r \<le> unat deepest
    \<and> (\<forall>j. 1 \<le> j \<and> j \<le> unat r \<longrightarrow> stat_ok w (cache_path path (of_nat j)))
    \<and> (unat r = unat deepest \<or> \<not> stat_ok w (cache_path path (r + 1)))"
  using assms
proof (induction "unat deepest - unat idx" arbitrary: idx rule: less_induct)
  case less
  have u: "ucast idx = deepest \<longleftrightarrow> unat idx = unat deepest"
    by (metis unat_ucast_u32 word_unat_eq_iff)
  have upto: "stat_ok w (cache_path path (of_nat j))" if "stat_ok w (cache_path path idx)" "1 \<le> j" "j \<le> unat idx" for j
    using that less.prems(4) [of j] by (cases "j = unat idx") auto
  show ?case
  proof (cases "stat_ok w (cache_path path idx)")
    case False
    then have "cache_index_loop w path deepest (idx - 1) idx = Some (idx - 1)" by (subst cache_index_loop.simps) simp
    moreover have "unat (idx - 1) = unat idx - 1" using less.prems(1) by (rule unat_pred)
    ultimately show ?thesis using False less.prems by auto
  next
    case True
    note ok = upto [OF True]
    show ?thesis
    proof (cases "unat idx = unat deepest")
      case eq: True
      then have "cache_index_loop w path deepest (idx - 1) idx = Some idx" using True u by (subst cache_index_loop.simps) simp
      then show ?thesis using eq ok by auto
    next
      case ne: False
      then have lt: "unat idx < unat deepest" using less.prems(2) by simp
      have p: "unat (idx + 1) = Suc (unat idx)" using lt less.prems(3) by (simp add: unat_plus_if')
      have "cache_index_loop w path deepest (idx - 1) idx = cache_index_loop w path deepest idx (idx + 1)"
        using True u ne by (subst cache_index_loop.simps) simp
      then show ?thesis using less.hyps [of "idx + 1"] lt p less.prems(3) ok by simp
    qed
  qed
qed

text \<open>
  What the code relies on in the directory of a cpu: its number fits the masks, the files in it are not
  empty, and it can be listed on a numa system.
\<close>

definition cpu_number :: "string \<Rightarrow> int" where
  "cpu_number path = to_int (strtoul (drop 27 path))"

definition cpu_dir_ok :: "world \<Rightarrow> bool \<Rightarrow> string \<Rightarrow> bool" where
  "cpu_dir_ok w numa path \<longleftrightarrow> 0 \<le> cpu_number path \<and> cpu_number path < int NR_CPUS
     \<and> (\<forall>f. contents w (path @ f) \<noteq> Some []) \<and> (numa \<longrightarrow> entries w path \<noteq> None)"

lemma first_line_total: "contents w p \<noteq> Some [] \<Longrightarrow> file_first_line w p \<noteq> NoLine"
  by (auto simp: file_first_line_def getline_def split: option.splits)

lemma cpu_files_ok:
  assumes "cpu_dir_ok w numa path" "1 \<le> unat deepest" "unat deepest < 2 ^ 32"
  shows "\<exists>b. cpu_online w path = Some b" "\<exists>m'. read_mask w (path @ ''/topology/core_siblings'') m = Some m'"
    "\<exists>i. read_id w (path @ ''/topology/physical_package_id'') n = Some i"
    "\<exists>m'. read_cache_mask w path deepest m = Some m'" "\<exists>i. cpu_nodeid w path numa = Some i"
proof -
  have ne: "file_first_line w (path @ f) \<noteq> NoLine" for f
    using assms(1) by (intro first_line_total) (simp add: cpu_dir_ok_def)
  show "\<exists>b. cpu_online w path = Some b"
    using ne [of "''/online''"] by (auto simp: cpu_online_def split: first_line.splits)
  have rm: "\<exists>m'. read_mask w (path @ f) m = Some m'" for f m
    using ne [of f] by (auto simp: read_mask_def split: first_line.splits)
  then show "\<exists>m'. read_mask w (path @ ''/topology/core_siblings'') m = Some m'" by blast
  show "\<exists>i. read_id w (path @ ''/topology/physical_package_id'') n = Some i"
    using ne [of "''/topology/physical_package_id''"] by (auto simp: read_id_def split: first_line.splits)
  obtain r where "cache_index_loop w path deepest 0 1 = Some r"
    using cache_index_loop_ok [of 1 deepest w path] assms(2,3) by auto
  then show "\<exists>m'. read_cache_mask w path deepest m = Some m'"
    using rm [of "''/cache/index'' @ fmt_d (sint r) @ ''/shared_cpu_map''" m] by (auto simp: read_cache_mask_def cache_path_def)
  show "\<exists>i. cpu_nodeid w path numa = Some i" using assms(1) by (auto simp: cpu_nodeid_def cpu_dir_ok_def)
qed

text \<open>The objects there were keep type, number and mask, and all but the tree is as it was.\<close>

definition kept :: "sys \<Rightarrow> sys \<Rightarrow> bool" where
  "kept s s' \<longleftrightarrow> no_tree s' = no_tree s
     \<and> (\<forall>a d. objs s a = Some d \<longrightarrow> (\<exists>d'. objs s' a = Some d' \<and> ident d' = ident d))"

lemma kept_refl [simp]: "kept s s"
  by (simp add: kept_def)

lemma kept_trans: "kept s t \<Longrightarrow> kept t u \<Longrightarrow> kept s u"
  unfolding kept_def by metis

lemma grows_kept: "grows s s' \<Longrightarrow> kept s s'"
  by (simp add: grows_def kept_def)

text \<open>The effect of \<open>do_one_cpu\<close> on the list of cpus.\<close>

definition cpu_added :: "world \<Rightarrow> string \<Rightarrow> sys \<Rightarrow> sys \<Rightarrow> bool" where
  "cpu_added w path s s' \<longleftrightarrow>
     (if cpu_online w path \<noteq> Some True then s' = s
      else core_count s' = Suc (core_count s)
        \<and> cpus_of (cpu_possible_map s') = insert (nat (cpu_number path)) (cpus_of (cpu_possible_map s))
        \<and> (if nat (cpu_number path) \<in> cpus_of (banned_cpus s) then cpus s' = cpus s
           else \<exists>a d. cpus s' = cpus s @ [a] \<and> objs s' a = Some d \<and> number d = cpu_number path
                  \<and> cpus_of (mask d) = {nat (cpu_number path)}))"

text \<open>No package or cache domain is left without children, and on a system without numa support the
  packages hang below the unspecified node.\<close>

definition full_but :: "addr set \<Rightarrow> sys \<Rightarrow> bool" where
  "full_but X s \<longleftrightarrow> (\<forall>a d. objs s a = Some d \<longrightarrow> a \<notin> X \<longrightarrow> obj_type d = OBJ_TYPE_CACHE \<or> obj_type d = OBJ_TYPE_PACKAGE
     \<longrightarrow> children d \<noteq> [])"

definition has_package :: "sys \<Rightarrow> bool" where
  "has_package s \<longleftrightarrow> (\<exists>d. objs s unspecified_node = Some d \<and> children d \<noteq> [])"

text \<open>Every object but the numa nodes has a parent; one in \<open>X\<close> may still have none, and is then nobody's child.\<close>

definition hung :: "addr set \<Rightarrow> sys \<Rightarrow> bool" where
  "hung X s \<longleftrightarrow> (\<forall>a d. objs s a = Some d \<longrightarrow> obj_type d \<noteq> OBJ_TYPE_NODE \<longrightarrow>
     parent d \<noteq> NULL \<or> (a \<in> X \<and> (\<forall>p q. objs s p = Some q \<longrightarrow> a \<notin> set (children q))))"

definition grown :: "sys \<Rightarrow> bool" where
  "grown s \<longleftrightarrow> full_but {} s \<and> (\<not> numa_avail s \<longrightarrow> hung {} s) \<and> (numa_nodes s = [unspecified_node] \<longrightarrow> \<not> numa_avail s \<longrightarrow> cpus s \<noteq> [] \<longrightarrow> has_package s)"

lemma add_child_full: "add_child p c s = Some s' \<Longrightarrow> full_but {p} s \<Longrightarrow> full_but {} s'"
  unfolding full_but_def add_child_def
  by (auto simp: upd_obj_def split: bind_splits if_splits option.splits) fastforce+

lemma add_cpu_to_cache_domain_full:
  assumes "add_cpu_to_cache_domain alloc cpu m s = Some (cache, s')" "full_but {} s" "alloc s \<noteq> NULL" "objs s NULL = None"
  shows "full_but {} s'"
proof -
  have f: "full_but {c} s" for c using assms(2) by (simp add: full_but_def)
  show ?thesis
  proof (cases "find_mask s m (cache_domains s)")
    case (Some e)
    show ?thesis
    proof (cases e)
      case None
      then show ?thesis using assms(1,3) Some
        by (auto simp: add_cpu_to_cache_domain_def Let_def split: bind_splits) (erule add_child_full, use assms(2) in \<open>simp add: full_but_def\<close>)
    next
      case (Some c)
      then show ?thesis using assms(1,2) \<open>find_mask s m (cache_domains s) = Some e\<close> add_child_full [OF _ f]
        by (auto simp: add_cpu_to_cache_domain_def split: bind_splits if_splits)
    qed
  qed (use assms(1) in \<open>simp add: add_cpu_to_cache_domain_def\<close>)
qed

lemma add_cache_domain_to_package_full:
  assumes "add_cache_domain_to_package alloc cache n m s = Some (package, s')" "full_but {} s" "alloc s \<noteq> NULL"
  shows "full_but {} s'"
proof -
  have f: "full_but {c} s" for c using assms(2) by (simp add: full_but_def)
  show ?thesis
  proof (cases "find_mask s m (packages s)")
    case (Some e)
    show ?thesis
    proof (cases e)
      case None
      then show ?thesis using assms(1,3) Some
        by (auto simp: add_cache_domain_to_package_def Let_def split: bind_splits) (erule add_child_full, use assms(2) in \<open>simp add: full_but_def\<close>)
    next
      case (Some c)
      then show ?thesis using assms(1,2) \<open>find_mask s m (packages s) = Some e\<close> add_child_full [OF _ f]
        by (auto simp: add_cache_domain_to_package_def split: bind_splits if_splits)
    qed
  qed (use assms(1) in \<open>simp add: add_cache_domain_to_package_def\<close>)
qed

lemma add_package_to_node_full: "add_package_to_node p n s = Some s' \<Longrightarrow> full_but {} s \<Longrightarrow> full_but {} s'"
  unfolding full_but_def add_package_to_node_def
  by (auto simp: upd_obj_def split: bind_splits if_splits option.splits)

lemma add_package_to_node_root:
  assumes b: "built X k s" and p: "objs s p = Some dp" "obj_type dp = OBJ_TYPE_PACKAGE" and X: "\<forall>x \<in> X. \<exists>d. objs s x = Some d \<and> obj_type d = OBJ_TYPE_CPU"
    and u: "numa_nodes s = [unspecified_node]" "\<not> numa_avail s" and r: "add_package_to_node p n s = Some s'"
  shows "has_package s'"
proof -
  have nd: "get_numa_node n s = Some unspecified_node" using u(2) by (simp add: get_numa_node_def)
  have un: "unspecified_node \<noteq> NULL" by (simp add: unspecified_node_def)
  obtain d where d: "objs s unspecified_node = Some d" "obj_type d = OBJ_TYPE_NODE"
    using built_group [OF b, of unspecified_node OBJ_TYPE_NODE] u(1) by (auto simp: group_def)
  show ?thesis
  proof (cases "parent dp = NULL")
    case True
    have "unspecified_node \<noteq> p" using d p by auto
    then have "objs s' unspecified_node = Some (d\<lparr>children := children d @ [p]\<rparr>)"
      using r nd p(1) d(1) un True by (auto simp: add_package_to_node_def upd_obj_def)
    then show ?thesis by (simp add: has_package_def)
  next
    case False
    then have s: "s' = s" using r nd p(1) un by (simp add: add_package_to_node_def)
    obtain q where q: "objs s (parent dp) = Some q" "p \<in> set (children q)"
      using built_obj [OF b p(1)] False unfolding obj_ok_def by blast
    have "tree_level (obj_type q) = Suc (tree_level (obj_type dp))"
      using built_obj [OF b q(1)] q(2) p(1) unfolding obj_ok_def by auto
    then have nq: "obj_type q = OBJ_TYPE_NODE" using p(2) by (cases "obj_type q") (simp_all add: tree_level_def)
    then have "parent dp \<in> set (numa_nodes s)" using built_obj [OF b q(1)] X q(1) by (auto simp: obj_ok_def group_def)
    then show ?thesis using u(1) q s by (auto simp: has_package_def)
  qed
qed

lemma hung_mono: "hung X s \<Longrightarrow> X \<subseteq> Y \<Longrightarrow> hung Y s"
  unfolding hung_def by blast

lemma hung_new:
  assumes "hung X s" "built Y k s" "objs s a = None" "children d = []"
  shows "hung (insert a X) (s\<lparr>objs := (objs s)(a \<mapsto> d)\<rparr>)"
  unfolding hung_def
proof (intro allI impI)
  have n: "a \<notin> set (children q)" if "objs s p = Some q" for p q
    using built_obj [OF assms(2) that] assms(3) unfolding obj_ok_def by auto
  fix x e assume x: "objs (s\<lparr>objs := (objs s)(a \<mapsto> d)\<rparr>) x = Some e" "obj_type e \<noteq> OBJ_TYPE_NODE"
  have "parent e \<noteq> NULL \<or> x \<in> insert a X \<and> (\<forall>p q. objs s p = Some q \<longrightarrow> x \<notin> set (children q))"
  proof (cases "x = a")
    case False
    then have "objs s x = Some e" using x(1) by simp
    then show ?thesis using assms(1) x(2) unfolding hung_def by blast
  qed (use n in blast)
  then show "parent e \<noteq> NULL \<or> x \<in> insert a X
    \<and> (\<forall>p q. objs (s\<lparr>objs := (objs s)(a \<mapsto> d)\<rparr>) p = Some q \<longrightarrow> x \<notin> set (children q))"
    using assms(4) by (auto split: if_splits)
qed

text \<open>A step that only adds \<open>c\<close> to lists of children, gives \<open>c\<close> a parent and clears no parent pointer.\<close>

lemma hung_step:
  assumes h: "hung (insert c X) s"
    and o: "\<And>a d. objs s' a = Some d \<Longrightarrow> parent d = NULL \<Longrightarrow> \<exists>e. objs s a = Some e \<and> obj_type e = obj_type d \<and> parent e = NULL"
    and k: "\<And>p q. objs s' p = Some q \<Longrightarrow> \<exists>e. objs s p = Some e \<and> set (children q) \<subseteq> insert c (set (children e))"
    and c: "\<And>d. objs s' c = Some d \<Longrightarrow> obj_type d \<noteq> OBJ_TYPE_NODE \<Longrightarrow> parent d \<noteq> NULL"
  shows "hung X s'"
  unfolding hung_def
proof (intro allI impI)
  fix a d assume a: "objs s' a = Some d" "obj_type d \<noteq> OBJ_TYPE_NODE"
  show "parent d \<noteq> NULL \<or> a \<in> X \<and> (\<forall>p q. objs s' p = Some q \<longrightarrow> a \<notin> set (children q))"
  proof (cases "parent d = NULL")
    case True
    then obtain e where "objs s a = Some e" "obj_type e = obj_type d" "parent e = NULL" using o [OF a(1)] by blast
    then have "a \<in> insert c X" "\<forall>p q. objs s p = Some q \<longrightarrow> a \<notin> set (children q)" using h a(2) unfolding hung_def by metis+
    moreover have "a \<noteq> c" using c a True by blast
    ultimately show ?thesis using k by blast
  qed simp
qed

lemma add_child_hung:
  assumes "add_child p c s = Some s'" "hung (insert c X) s" "p \<noteq> NULL"
  shows "hung X s'"
proof (rule hung_step [OF assms(2)])
  obtain d where d: "objs s p = Some d" using assms(1) by (auto simp: add_child_def split: bind_splits)
  have r: "s' = s \<and> c \<in> set (children d) \<or> (\<exists>e. objs s c = Some e \<and> objs s' = (objs s)(p \<mapsto> d\<lparr>children := children d @ [c]\<rparr>,
      c \<mapsto> (if c = p then d\<lparr>children := children d @ [c]\<rparr> else e)\<lparr>parent := p\<rparr>))"
    using assms(1) d by (auto simp: add_child_def upd_obj_def split: option.splits if_splits)
  show "\<exists>e. objs s a = Some e \<and> obj_type e = obj_type x \<and> parent e = NULL" if "objs s' a = Some x" "parent x = NULL" for a x
    using r that d assms(3) by (auto split: if_splits)
  show "\<exists>e. objs s a = Some e \<and> set (children q) \<subseteq> insert c (set (children e))" if "objs s' a = Some q" for a q
    using r that d by (auto split: if_splits)
  show "parent x \<noteq> NULL" if "objs s' c = Some x" "obj_type x \<noteq> OBJ_TYPE_NODE" for x
    using r
  proof
    assume "s' = s \<and> c \<in> set (children d)"
    then show ?thesis using assms(2) d that unfolding hung_def by blast
  qed (use that assms(3) in \<open>auto split: if_splits\<close>)
qed

lemma add_package_to_node_hung:
  assumes "add_package_to_node p n s = Some s'" "\<not> numa_avail s" "hung (insert p X) s" "p \<noteq> unspecified_node"
  shows "hung X s'"
proof (rule hung_step [OF assms(3)])
  have un: "get_numa_node n s = Some unspecified_node" "unspecified_node \<noteq> NULL"
    using assms(2) by (simp_all add: get_numa_node_def unspecified_node_def)
  obtain d where d: "objs s p = Some d" using assms(1) un by (auto simp: add_package_to_node_def split: bind_splits)
  have r: "s' = s \<and> parent d \<noteq> NULL \<or> (\<exists>e. objs s unspecified_node = Some e \<and> objs s' = (objs s)(unspecified_node \<mapsto> e\<lparr>children := children e @ [p]\<rparr>,
      p \<mapsto> d\<lparr>parent := unspecified_node\<rparr>))"
    using assms(1,4) d un by (auto simp: add_package_to_node_def upd_obj_def split: option.splits if_splits)
  show "\<exists>e. objs s a = Some e \<and> obj_type e = obj_type x \<and> parent e = NULL" if "objs s' a = Some x" "parent x = NULL" for a x
    using r that d un(2) by (auto split: if_splits)
  show "\<exists>e. objs s a = Some e \<and> set (children q) \<subseteq> insert p (set (children e))" if "objs s' a = Some q" for a q
    using r that d by (auto split: if_splits)
  show "parent x \<noteq> NULL" if "objs s' p = Some x" "obj_type x \<noteq> OBJ_TYPE_NODE" for x
    using r that d un(2) by (auto split: if_splits)
qed

lemma add_cpu_to_cache_domain_hung:
  assumes r: "add_cpu_to_cache_domain al cpu m s = Some (cache, s')" and h: "hung {cpu} s" and b: "built X k s"
    and f: "objs s (al s) = None" and c: "cache \<noteq> NULL"
  shows "hung {cache} s'"
proof -
  obtain e where e: "find_mask s m (cache_domains s) = Some e" using r by (auto simp: add_cpu_to_cache_domain_def split: bind_splits)
  let ?d = "zero_obj\<lparr>mask := m, obj_type := OBJ_TYPE_CACHE, obj_type_list := Some CACHE_DOMAINS, number := int (cache_domain_count s)\<rparr>"
  define t where "t = (if e = None then s\<lparr>objs := (objs s)(cache \<mapsto> ?d), cache_domains := cache_domains s @ [cache],
    cache_domain_count := cache_domain_count s + 1\<rparr> else s)"
  have t: "add_child cache cpu t = Some s'" "e = None \<longrightarrow> cache = al s"
    using r e c by (auto simp: add_cpu_to_cache_domain_def Let_def t_def split: bind_splits option.splits if_splits)
  have "hung {cache, cpu} t"
  proof (cases e)
    case None
    then show ?thesis using hung_new [OF h b f, of ?d] t(2) by (simp add: t_def hung_def zero_obj_def)
  qed (use hung_mono [OF h, of "{cache, cpu}"] in \<open>simp add: t_def\<close>)
  then show ?thesis using add_child_hung [OF t(1) _ c, of "{cache}"] by (simp add: insert_commute)
qed

lemma add_cache_domain_to_package_hung:
  assumes r: "add_cache_domain_to_package al cache n m s = Some (package, s')" and h: "hung {cache} s" and b: "built X k s"
    and f: "objs s (al s) = None" and c: "package \<noteq> NULL"
  shows "hung {package} s'"
proof -
  obtain e where e: "find_mask s m (packages s) = Some e" using r by (auto simp: add_cache_domain_to_package_def split: bind_splits)
  let ?d = "zero_obj\<lparr>mask := m, obj_type := OBJ_TYPE_PACKAGE, obj_type_list := Some PACKAGES, number := n\<rparr>"
  define t where "t = (if e = None then s\<lparr>objs := (objs s)(package \<mapsto> ?d), packages := packages s @ [package],
    package_count := package_count s + 1\<rparr> else s)"
  have t: "add_child package cache t = Some s'" "e = None \<longrightarrow> package = al s"
    using r e c by (auto simp: add_cache_domain_to_package_def Let_def t_def split: bind_splits option.splits if_splits)
  have "hung {package, cache} t"
  proof (cases e)
    case None
    then show ?thesis using hung_new [OF h b f, of ?d] t(2) by (simp add: t_def hung_def zero_obj_def)
  qed (use hung_mono [OF h, of "{package, cache}"] in \<open>simp add: t_def\<close>)
  then show ?thesis using add_child_hung [OF t(1) _ c, of "{package}"] by (simp add: insert_commute)
qed

text \<open>
  The three calls that hang a new cpu into the tree: below a cache domain, that one below a package, and that
  one below a numa node.
\<close>

lemma hang_cpu_ok:
  assumes al: "sys_allocates al" and b: "built {cpu} k s" and d: "objs s cpu = Some d" "obj_type d = OBJ_TYPE_CPU"
    and un: "cpus_of cm \<inter> cpus_of (banned_cpus s) = {}" "cpus_of pm \<inter> cpus_of (banned_cpus s) = {}"
    and u: "unspecified_node \<in> set (numa_nodes s)"
  shows "\<exists>cache package s3 s4 s5. add_cpu_to_cache_domain al cpu cm s = Some (cache, s3)
    \<and> add_cache_domain_to_package al cache pid pm s3 = Some (package, s4) \<and> add_package_to_node package nid s4 = Some s5
    \<and> built {cpu} (k + 3) s5 \<and> grows s s5 \<and> (full_but {} s \<longrightarrow> full_but {} s5)
    \<and> (\<not> numa_avail s \<longrightarrow> hung {cpu} s \<longrightarrow> hung {} s5)
    \<and> (numa_nodes s = [unspecified_node] \<longrightarrow> \<not> numa_avail s \<longrightarrow> has_package s5)"
proof -
  obtain cache s3 dc where s3: "add_cpu_to_cache_domain al cpu cm s = Some (cache, s3)"
    "built {cpu} (Suc k) s3" "grows s s3" "objs s3 cache = Some dc" "obj_type dc = OBJ_TYPE_CACHE"
    using add_cpu_to_cache_domain_ok [OF al b d un(1)] by auto
  have nt3: "no_tree s3 = no_tree s" using s3(3) by (simp add: grows_def)
  obtain package s4 dp where s4: "add_cache_domain_to_package al cache pid pm s3 = Some (package, s4)"
    "built {cpu} (Suc (Suc k)) s4" "grows s3 s4" "objs s4 package = Some dp" "obj_type dp = OBJ_TYPE_PACKAGE"
    using add_cache_domain_to_package_ok [OF al s3(2,4,5), of pm pid] un(2) no_tree_eqD(3) [OF nt3] by auto
  have nt4: "no_tree s4 = no_tree s" using s4(3) nt3 by (simp add: grows_def)
  have u4: "unspecified_node \<in> set (numa_nodes s4)" using u no_tree_eqD(1) [OF nt4] by simp
  obtain s5 where s5: "add_package_to_node package nid s4 = Some s5" "built {cpu} (Suc (Suc (Suc k))) s5" "grows s4 s5"
    using add_package_to_node_ok [OF s4(2) u4 s4(4,5)] by blast
  have g: "grows s s5" by (rule grows_trans [OF s3(3) grows_trans [OF s4(3) s5(3)]])
  have full: "full_but {} s5" if "full_but {} s"
  proof -
    have "al s \<noteq> NULL" "objs s NULL = None" using alloc_fresh(1) [OF al b] b by (simp_all add: built_def)
    with that have "full_but {} s3" by (rule add_cpu_to_cache_domain_full [OF s3(1)])
    then have "full_but {} s4" using alloc_fresh(1) [OF al s3(2)] by (rule add_cache_domain_to_package_full [OF s4(1)])
    then show ?thesis by (rule add_package_to_node_full [OF s5(1)])
  qed
  have hung: "hung {} s5" if n: "\<not> numa_avail s" and h: "hung {cpu} s"
  proof -
    have nz: "cache \<noteq> NULL" "package \<noteq> NULL" using s3(2,4) s4(2,4) by (auto simp: built_def)
    have "hung {cache} s3" using alloc_fresh(3) [OF al b] h nz(1) by (intro add_cpu_to_cache_domain_hung [OF s3(1) _ b])
    then have "hung {package} s4" using alloc_fresh(3) [OF al s3(2)] nz(2) by (intro add_cache_domain_to_package_hung [OF s4(1) _ s3(2)])
    moreover have "package \<noteq> unspecified_node"
      using s4(4,5) built_group [OF s4(2), of unspecified_node OBJ_TYPE_NODE] u4 by (auto simp: group_def)
    ultimately show ?thesis using n no_tree_eqD(5) [OF nt4] by (intro add_package_to_node_hung [OF s5(1)]) simp_all
  qed
  obtain d4 where "objs s4 cpu = Some d4" "obj_type d4 = OBJ_TYPE_CPU"
    by (rule grows_obj [OF grows_trans [OF s3(3) s4(3)] d(1)]) (use d(2) in simp_all)
  then have "has_package s5" if "numa_nodes s = [unspecified_node]" "\<not> numa_avail s"
    using that no_tree_eqD(1,5) [OF nt4] by (intro add_package_to_node_root [OF s4(2,4,5) _ _ _ s5(1)]) simp_all
  with full hung g s3(1) s4(1) s5(1,2) show ?thesis by (auto simp: numeral_3_eq_3)
qed

lemma group_counts: "group (t\<lparr>cpu_possible_map := x\<rparr>) = group t" "group (t\<lparr>core_count := y\<rparr>) = group t"
  by (auto simp: group_def fun_eq_iff split: obj_type_e.split)

lemma built_counts:
  "built X k (t\<lparr>cpu_possible_map := x\<rparr>) = built X k t" "built X k (t\<lparr>core_count := y\<rparr>) = built X k t"
  by (simp_all add: built_def obj_ok_def group_counts)

text \<open>The part of \<open>do_one_cpu\<close> for a cpu that is not banned.\<close>

lemma hang_new_cpu_ok:
  assumes al: "sys_allocates al" and b: "built {} k s" and f: "cpu \<noteq> NULL" "objs s cpu = None" and u: "unspecified_node \<in> set (numa_nodes s)"
    and own: "cpus_of own \<inter> cpus_of (banned_cpus s) = {}"
    and un: "cpus_of cm \<inter> cpus_of (banned_cpus s) = {}" "cpus_of pm \<inter> cpus_of (banned_cpus s) = {}"
  shows "\<exists>cache package s3 s4 s5 s6 d. add_cpu_to_cache_domain al cpu cm
        (s\<lparr>objs := (objs s)(cpu \<mapsto> zero_obj\<lparr>obj_type := OBJ_TYPE_CPU, number := n, mask := own\<rparr>)\<rparr>) = Some (cache, s3)
    \<and> add_cache_domain_to_package al cache pid pm s3 = Some (package, s4) \<and> add_package_to_node package nid s4 = Some s5
    \<and> upd_obj cpu (\<lambda>d. d\<lparr>obj_type_list := Some CPUS\<rparr>) s5 = Some s6
    \<and> objs s6 cpu = Some d \<and> obj_type d = OBJ_TYPE_CPU \<and> number d = n \<and> mask d = own
    \<and> cpus s6 = cpus s \<and> core_count s6 = core_count s \<and> cpu_possible_map s6 = cpu_possible_map s
    \<and> built {} (k + 3) (s6\<lparr>cpus := cpus s @ [cpu], core_count := core_count s + 1\<rparr>)
    \<and> kept s (s6\<lparr>cpus := cpus s @ [cpu], core_count := core_count s + 1\<rparr>)
    \<and> (grown s \<longrightarrow> grown (s6\<lparr>cpus := cpus s @ [cpu], core_count := core_count s + 1\<rparr>))"
proof -
  let ?d = "zero_obj\<lparr>obj_type := OBJ_TYPE_CPU, number := n, mask := own\<rparr>"
  let ?s2 = "s\<lparr>objs := (objs s)(cpu \<mapsto> ?d)\<rparr>"
  have b2: "built {cpu} k ?s2" using built_new [OF b, of cpu ?d] f own by (simp add: fresh_obj_def zero_obj_def)
  obtain cache package s3 s4 s5 where h: "add_cpu_to_cache_domain al cpu cm ?s2 = Some (cache, s3)"
    "add_cache_domain_to_package al cache pid pm s3 = Some (package, s4)" "add_package_to_node package nid s4 = Some s5"
    "built {cpu} (k + 3) s5" "grows ?s2 s5" "full_but {} ?s2 \<longrightarrow> full_but {} s5"
    "\<not> numa_avail s \<longrightarrow> hung {cpu} ?s2 \<longrightarrow> hung {} s5"
    "numa_nodes s = [unspecified_node] \<longrightarrow> \<not> numa_avail s \<longrightarrow> has_package s5"
    using hang_cpu_ok [OF al b2, of ?d cm pm pid nid] un u by (simp, blast)
  obtain d where d: "objs s5 cpu = Some d" "obj_type d = OBJ_TYPE_CPU" "number d = n" "mask d = own"
    by (rule grows_obj [OF h(5), of cpu ?d]) simp_all
  let ?d' = "d\<lparr>obj_type_list := Some CPUS\<rparr>"
  have c: "cpus s5 = cpus s" "core_count s5 = core_count s" "cpu_possible_map s5 = cpu_possible_map s" "no_tree s5 = no_tree s"
    using h(5) by (simp_all add: grows_def no_tree_def)
  define s6 where "s6 = s5\<lparr>objs := (objs s5)(cpu \<mapsto> ?d')\<rparr>"
  define s' where "s' = s6\<lparr>cpus := cpus s @ [cpu], core_count := core_count s + 1\<rparr>"
  have "cpu \<notin> set (cpus s)" using built_group [OF b, of cpu OBJ_TYPE_CPU] f(2) by (auto simp: group_def)
  then have "built {} (k + 3) s'" unfolding s'_def s6_def using built_irrelevant [OF h(4) d(1), of ?d']
    by (intro built_enlist [of cpu "{}" "k + 3" "s5\<lparr>objs := (objs s5)(cpu \<mapsto> ?d')\<rparr>" ?d']) (simp_all add: d(2) group_def c split: obj_type_e.split)
  moreover have "kept s s'"
  proof -
    have "kept s ?s2" using f(2) by (auto simp: kept_def no_tree_def)
    moreover have "kept s5 s'" using d(1) by (auto simp: kept_def no_tree_def ident_def s'_def s6_def)
    ultimately show ?thesis using kept_trans grows_kept [OF h(5)] by blast
  qed
  moreover have "grown s'" if "grown s"
  proof -
    have "full_but {} ?s2" using that by (simp add: grown_def full_but_def)
    then have "full_but {} s'" using h(6) d(2) by (simp add: full_but_def s'_def s6_def)
    moreover have "hung {cpu} ?s2" if n: "\<not> numa_avail s"
      using hung_new [OF _ b, of "{}" cpu ?d] \<open>grown s\<close> n f(2) by (simp add: grown_def zero_obj_def)
    then have "\<not> numa_avail s \<longrightarrow> hung {} s'" using h(7) d(1) by (auto simp: hung_def s'_def s6_def)
    moreover have "has_package s5 \<longrightarrow> has_package s'" using d(1) by (auto simp: has_package_def s'_def s6_def)
    ultimately show ?thesis using h(8) no_tree_eqD(1,5) [OF c(4)] by (auto simp: grown_def s'_def s6_def)
  qed
  moreover have "upd_obj cpu (\<lambda>d. d\<lparr>obj_type_list := Some CPUS\<rparr>) s5 = Some s6" "objs s6 cpu = Some ?d'"
    "obj_type ?d' = OBJ_TYPE_CPU" "number ?d' = n" "mask ?d' = own"
    "cpus s6 = cpus s" "core_count s6 = core_count s" "cpu_possible_map s6 = cpu_possible_map s"
    using d c by (simp_all add: upd_obj_def s6_def)
  ultimately show ?thesis using h(1-3) unfolding s'_def by blast
qed

lemma do_one_cpu_ok:
  assumes al: "sys_allocates alloc" and b: "built {} k s" and u: "unspecified_node \<in> set (numa_nodes s)"
    and dir: "cpu_dir_ok w (numa_avail s) path" and dc: "1 \<le> unat (deepest_cache s)" "unat (deepest_cache s) < 2 ^ 32"
  shows "\<exists>s'. do_one_cpu alloc junk w path s = Some s' \<and> built {} (k + 3) s' \<and> kept s s' \<and> cpu_added w path s s'
    \<and> (grown s \<longrightarrow> grown s')"
proof -
  note files = cpu_files_ok [OF dir dc]
  let ?n = "cpu_number path"
  have rng: "0 \<le> ?n" "?n < int NR_CPUS" using dir by (simp_all add: cpu_dir_ok_def)
  obtain possible own pm0 where set: "cpu_set ?n (cpu_possible_map s) = Some possible" "cpu_set ?n CPU_MASK_NONE = Some own"
    "cpu_set ?n junk = Some pm0"
    using cpu_set_None [of ?n "cpu_possible_map s"] cpu_set_None [of ?n CPU_MASK_NONE] cpu_set_None [of ?n junk] rng by auto
  have own: "cpus_of own = {nat ?n}" "cpus_of possible = insert (nat ?n) (cpus_of (cpu_possible_map s))"
    using cpu_set_Some(3) [OF set(2)] cpu_set_Some(3) [OF set(1)] rng(1) by simp_all
  obtain online where on: "cpu_online w path = Some online" using files(1) by blast
  have f: "alloc s \<noteq> NULL" "objs s (alloc s) = None" using alloc_fresh [OF al b] by simp_all
  let ?s1 = "s\<lparr>cpu_possible_map := possible\<rparr>"
  have b1: "built {} k ?s1" using b by (simp add: built_counts)
  consider "\<not> online" | "online" "nat ?n \<in> cpus_of (banned_cpus s)" | "online" "nat ?n \<notin> cpus_of (banned_cpus s)" by blast
  then show ?thesis
  proof cases
    case 1
    then show ?thesis using on built_mono [OF b subset_refl, of "k + 3"] by (auto simp: do_one_cpu_def cpu_added_def)
  next
    case 2
    let ?s' = "?s1\<lparr>core_count := core_count s + 1\<rparr>"
    have "do_one_cpu alloc junk w path s = Some ?s'"
      using on 2 f(1) set own(1) by (simp add: do_one_cpu_def cpu_number_def [symmetric])
    moreover have "built {} (k + 3) ?s'" using built_mono [OF b1 subset_refl, of "k + 3"] by (simp add: built_counts)
    moreover have "grown s \<longrightarrow> grown ?s'" by (simp add: grown_def full_but_def has_package_def hung_def)
    ultimately show ?thesis using on 2 own(2) by (simp add: cpu_added_def kept_def no_tree_def)
  next
    case 3
    obtain pm pid cm nid where rd: "read_mask w (path @ ''/topology/core_siblings'') pm0 = Some pm"
      "read_id w (path @ ''/topology/physical_package_id'') 0 = Some pid"
      "read_cache_mask w path (deepest_cache s) own = Some cm" "cpu_nodeid w path (numa_avail s) = Some nid"
      using files(2) [of pm0] files(3) [of 0] files(4) [of own] files(5) by blast
    have un: "cpus_of (cpus_and m m (unbanned_cpus s)) \<inter> cpus_of (banned_cpus ?s1) = {}" for m using b by (auto simp: built_def)
    have o: "cpus_of own \<inter> cpus_of (banned_cpus ?s1) = {}" "objs ?s1 (alloc s) = None" "unspecified_node \<in> set (numa_nodes ?s1)"
      using 3(2) own(1) f(2) u by simp_all
    note H = hang_new_cpu_ok [OF al b1 f(1) o(2,3,1) un un, where n = ?n and pid = pid and nid = nid]
    obtain cache package s3 s4 s5 s6 d where h: "add_cpu_to_cache_domain alloc (alloc s) (cpus_and cm cm (unbanned_cpus s))
          (?s1\<lparr>objs := (objs ?s1)(alloc s \<mapsto> zero_obj\<lparr>obj_type := OBJ_TYPE_CPU, number := ?n, mask := own\<rparr>)\<rparr>) = Some (cache, s3)"
      "add_cache_domain_to_package alloc cache pid (cpus_and pm pm (unbanned_cpus s)) s3 = Some (package, s4)"
      "add_package_to_node package nid s4 = Some s5" "upd_obj (alloc s) (\<lambda>d. d\<lparr>obj_type_list := Some CPUS\<rparr>) s5 = Some s6"
      "objs s6 (alloc s) = Some d" "obj_type d = OBJ_TYPE_CPU" "number d = ?n" "mask d = own"
      "cpus s6 = cpus ?s1" "core_count s6 = core_count ?s1" "cpu_possible_map s6 = cpu_possible_map ?s1"
      "built {} (k + 3) (s6\<lparr>cpus := cpus ?s1 @ [alloc s], core_count := core_count ?s1 + 1\<rparr>)"
      "kept ?s1 (s6\<lparr>cpus := cpus ?s1 @ [alloc s], core_count := core_count ?s1 + 1\<rparr>)"
      "grown ?s1 \<longrightarrow> grown (s6\<lparr>cpus := cpus ?s1 @ [alloc s], core_count := core_count ?s1 + 1\<rparr>)"
      using H by blast
    let ?s' = "s6\<lparr>cpus := cpus ?s1 @ [alloc s], core_count := core_count ?s1 + 1\<rparr>"
    have "do_one_cpu alloc junk w path s = Some ?s'"
      using on 3 f(1) set own(1) rd h(1-4,9,10) by (simp add: do_one_cpu_def cpu_number_def [symmetric] Let_def)
    moreover have "kept s ?s1" by (simp add: kept_def no_tree_def)
    then have "kept s ?s'" using h(13) kept_trans by blast
    moreover have "grown ?s1 = grown s" by (simp add: grown_def full_but_def has_package_def hung_def)
    moreover have "cpu_added w path s ?s'" using on 3 own h(5-11) by (simp add: cpu_added_def)
    ultimately show ?thesis using h(12,14) by blast
  qed
qed

section \<open>The whole tree\<close>

text \<open>A state without a tree, and one with numa nodes only.\<close>

definition cleared :: "sys \<Rightarrow> bool" where
  "cleared s \<longleftrightarrow> finite (dom (irqs s)) \<and> dom (objs s) \<subseteq> {unspecified_node} \<and> numa_nodes s = []
     \<and> packages s = [] \<and> cache_domains s = [] \<and> cpus s = [] \<and> core_count s = 0"

definition only_nodes :: "sys \<Rightarrow> bool" where
  "only_nodes s \<longleftrightarrow> finite (dom (objs s)) \<and> finite (dom (irqs s)) \<and> objs s NULL = None
     \<and> (\<forall>a d. objs s a = Some d \<longrightarrow> a \<in> set (numa_nodes s) \<and> fresh_obj s d \<and> obj_type d = OBJ_TYPE_NODE)
     \<and> distinct (numa_nodes s) \<and> (\<forall>a \<in> set (numa_nodes s). objs s a \<noteq> None) \<and> unspecified_node \<in> set (numa_nodes s)
     \<and> packages s = [] \<and> cache_domains s = [] \<and> cpus s = [] \<and> core_count s = 0"

lemma build_numa_node_list_ok:
  assumes al: "sys_allocates alloc" and c: "cleared s"
  shows "\<exists>s'. build_numa_node_list alloc w s = Some s' \<and> only_nodes s'
    \<and> no_tree (s'\<lparr>numa_nodes := []\<rparr>) = no_tree (s\<lparr>numa_nodes := []\<rparr>)
    \<and> (\<not> numa_avail s \<longrightarrow> numa_nodes s' = [unspecified_node])"
proof -
  let ?I = "\<lambda>t. only_nodes t \<and> no_tree (t\<lparr>numa_nodes := []\<rparr>) = no_tree (s\<lparr>numa_nodes := []\<rparr>)"
  let ?s = "s\<lparr>objs := (objs s)(unspecified_node \<mapsto> unspecified_node_template), numa_nodes := numa_nodes s @ [unspecified_node]\<rparr>"
  have "finite (dom (objs s))" using c finite_subset by (fastforce simp: cleared_def)
  then have start: "?I ?s"
    using c by (auto simp: cleared_def only_nodes_def fresh_obj_def unspecified_node_template_def unspecified_node_def
        zero_obj_def no_tree_def split: if_splits)
  have step: "\<exists>t'. add_one_node alloc w n t = Some t' \<and> ?I t'" if t: "?I t" for n t
  proof -
    have f: "alloc t \<noteq> NULL" "objs t (alloc t) = None"
      using al t unfolding sys_allocates_def only_nodes_def by blast+
    show ?thesis
    proof (cases "contents w (SYSFS_NODE_PATH @ ''/'' @ n @ ''/cpumap'')")
      case None
      then show ?thesis using t by (simp add: add_one_node_def Let_def)
    next
      case (Some x)
      then obtain d where d: "add_one_node alloc w n t
          = Some (t\<lparr>objs := (objs t)(alloc t \<mapsto> d), numa_nodes := numa_nodes t @ [alloc t]\<rparr>)"
        "fresh_obj t d" "obj_type d = OBJ_TYPE_NODE"
        using f(1) by (simp add: add_one_node_def Let_def fresh_obj_def zero_obj_def)
      moreover have "alloc t \<notin> set (numa_nodes t)" using t f(2) by (auto simp: only_nodes_def)
      ultimately show ?thesis using t f by (auto simp: only_nodes_def fresh_obj_def no_tree_def)
    qed
  qed
  show ?thesis
  proof (cases "numa_avail s \<and> entries w SYSFS_NODE_PATH \<noteq> None")
    case False
    then show ?thesis using start c by (auto simp: build_numa_node_list_def Let_def cleared_def)
  next
    case True
    then obtain es where es: "entries w SYSFS_NODE_PATH = Some es" by blast
    have "\<exists>s'. for_each (\<lambda>(d_name, is_dir) s. if is_dir \<and> strstr d_name ''node'' then add_one_node alloc w d_name s else Some s)
        es ?s = Some s' \<and> ?I s'"
      by (rule for_each_total_inv [of ?I, OF start]) (use step in auto)
    then show ?thesis using True es by (auto simp: build_numa_node_list_def Let_def)
  qed
qed

text \<open>What \<open>parse_cpu_tree\<close> relies on in \<open>/sys/devices/system/cpu\<close>.\<close>

definition cpu_paths :: "world \<Rightarrow> string list" where
  "cpu_paths w = (case entries w ''/sys/devices/system/cpu'' of None \<Rightarrow> []
     | Some es \<Rightarrow> map (\<lambda>(n, _). ''/sys/devices/system/cpu/'' @ n) (filter (\<lambda>(n, _). is_cpu_name n) es))"

definition cpu_sysfs_ok :: "world \<Rightarrow> bool \<Rightarrow> bool" where
  "cpu_sysfs_ok w numa \<longleftrightarrow> (environ w ''IRQBALANCE_BANNED_CPUS'' = None \<longrightarrow>
       read_cpulist w ''/sys/devices/system/cpu/isolated'' \<noteq> None
       \<and> read_cpulist w ''/sys/devices/system/cpu/nohz_full'' \<noteq> None)
     \<and> (\<forall>p \<in> set (cpu_paths w). cpu_dir_ok w numa p) \<and> 3 * length (cpu_paths w) < 2 ^ 32"

text \<open>The numbers of the online cpus that are not banned, in the order of the directory.\<close>

definition usable_cpus :: "world \<Rightarrow> string list \<Rightarrow> nat set \<Rightarrow> int list" where
  "usable_cpus w ps banned =
     filter (\<lambda>n. nat n \<notin> banned) (map cpu_number (filter (\<lambda>p. cpu_online w p = Some True) ps))"

definition cpu_numbers :: "sys \<Rightarrow> int option list" where
  "cpu_numbers s = map (\<lambda>a. map_option number (objs s a)) (cpus s)"

lemma cpu_numbers_step:
  assumes "built {} k s" "kept s s'" "cpu_added w p s s'"
  shows "cpu_numbers s' = cpu_numbers s @ map Some (usable_cpus w [p] (cpus_of (banned_cpus s)))"
    "core_count s' = core_count s + length (filter (\<lambda>p. cpu_online w p = Some True) [p])"
proof -
  have "map_option number (objs s' a) = map_option number (objs s a)" if "a \<in> set (cpus s)" for a
    using built_group [OF assms(1), of a OBJ_TYPE_CPU] that assms(2) by (fastforce simp: group_def kept_def ident_def)
  then have old: "map (\<lambda>a. map_option number (objs s' a)) (cpus s) = cpu_numbers s" by (simp add: cpu_numbers_def)
  show "cpu_numbers s' = cpu_numbers s @ map Some (usable_cpus w [p] (cpus_of (banned_cpus s)))"
    "core_count s' = core_count s + length (filter (\<lambda>p. cpu_online w p = Some True) [p])"
    using assms(3) old by (auto simp: cpu_added_def cpu_numbers_def usable_cpus_def split: if_splits)
qed

lemma do_cpus_ok:
  assumes al: "sys_allocates alloc" and "built {} k s" "unspecified_node \<in> set (numa_nodes s)"
    and "\<forall>p \<in> set ps. cpu_dir_ok w (numa_avail s) p" "1 \<le> unat (deepest_cache s)" "unat (deepest_cache s) < 2 ^ 32"
  shows "\<exists>s'. for_each (do_one_cpu alloc junk w) ps s = Some s' \<and> built {} (k + 3 * length ps) s' \<and> kept s s' \<and> (grown s \<longrightarrow> grown s')
    \<and> cpu_numbers s' = cpu_numbers s @ map Some (usable_cpus w ps (cpus_of (banned_cpus s)))
    \<and> core_count s' = core_count s + length (filter (\<lambda>p. cpu_online w p = Some True) ps)"
  using assms(2-)
proof (induction ps arbitrary: k s)
  case Nil
  then show ?case by (simp add: usable_cpus_def)
next
  case (Cons p ps)
  then obtain t where t: "do_one_cpu alloc junk w p s = Some t" "built {} (k + 3) t" "kept s t" "cpu_added w p s t" "grown s \<longrightarrow> grown t"
    using do_one_cpu_ok [OF al Cons.prems(1,2), of w p junk] by auto
  note n = cpu_numbers_step [OF Cons.prems(1) t(3,4)]
  have nt: "no_tree t = no_tree s" using t(3) by (simp add: kept_def)
  obtain s' where s': "for_each (do_one_cpu alloc junk w) ps t = Some s'" "built {} (k + 3 + 3 * length ps) s'" "kept t s'"
    "cpu_numbers s' = cpu_numbers t @ map Some (usable_cpus w ps (cpus_of (banned_cpus t)))"
    "core_count s' = core_count t + length (filter (\<lambda>p. cpu_online w p = Some True) ps)" "grown t \<longrightarrow> grown s'"
    using Cons.IH [OF t(2)] Cons.prems(2-5) unfolding no_tree_eqD [OF nt] by auto
  have "usable_cpus w (p # ps) B = usable_cpus w [p] B @ usable_cpus w ps B" for B by (simp add: usable_cpus_def)
  then show ?case using t(1,5) s' n kept_trans [OF t(3) s'(3)] no_tree_eqD(3) [OF nt]
    by (simp add: algebra_simps)
qed

lemma setup_banned_cpus_ok:
  assumes "cpu_sysfs_ok w numa"
  shows "\<exists>m. setup_banned_cpus w s = Some (s\<lparr>banned_cpus := m\<rparr>)"
  using assms by (cases "environ w ''IRQBALANCE_BANNED_CPUS''") (auto simp: setup_banned_cpus_def cpu_sysfs_ok_def)

lemma parse_cpu_tree_ok:
  assumes al: "sys_allocates alloc" and s: "only_nodes s" and w: "cpu_sysfs_ok w (numa_avail s)"
    and dc: "1 \<le> unat (deepest_cache s)" "unat (deepest_cache s) < 2 ^ 32"
  shows "\<exists>s' m. parse_cpu_tree alloc junk w s = Some s' \<and> setup_banned_cpus w s = Some (s\<lparr>banned_cpus := m\<rparr>) \<and> built {} (3 * length (cpu_paths w)) s'
    \<and> kept (s\<lparr>banned_cpus := m, unbanned_cpus := cpus_complement (unbanned_cpus s) m\<rparr>) s' \<and> grown s'
    \<and> cpu_numbers s' = map Some (usable_cpus w (cpu_paths w) (cpus_of (banned_cpus s')))
    \<and> core_count s' = length (filter (\<lambda>p. cpu_online w p = Some True) (cpu_paths w))"
proof -
  obtain m where m: "setup_banned_cpus w s = Some (s\<lparr>banned_cpus := m\<rparr>)" using setup_banned_cpus_ok [OF w] by blast
  let ?s = "s\<lparr>banned_cpus := m, unbanned_cpus := cpus_complement (unbanned_cpus s) m\<rparr>"
  have b: "built {} 0 ?s" using s
    by (auto simp: built_def only_nodes_def obj_ok_def fresh_obj_def group_def split: obj_type_e.split)
  have eq: "for_each (do_one_cpu alloc junk w) (map (\<lambda>(n, _). p @ n) (filter (\<lambda>(n, _). is_cpu_name n) es)) t
      = for_each (\<lambda>(d_name, _) s. if is_cpu_name d_name then do_one_cpu alloc junk w (p @ d_name) s else Some s) es t" for p es t
  proof (induction es arbitrary: t)
    case (Cons e es)
    show ?case by (cases e) (auto simp: Cons split: bind_splits)
  qed simp
  have run: "parse_cpu_tree alloc junk w s = for_each (do_one_cpu alloc junk w) (cpu_paths w) ?s"
    by (cases "entries w ''/sys/devices/system/cpu''")
      (simp_all add: parse_cpu_tree_def cpu_paths_def m eq del: append_Cons)
  have st: "cpu_numbers ?s = []" "core_count ?s = 0" "unspecified_node \<in> set (numa_nodes ?s)"
    using s by (simp_all add: cpu_numbers_def only_nodes_def)
  have gr: "grown ?s" using s unfolding only_nodes_def grown_def full_but_def hung_def by force
  have "\<forall>p \<in> set (cpu_paths w). cpu_dir_ok w (numa_avail ?s) p" using w by (simp add: cpu_sysfs_ok_def)
  then obtain s' where s': "parse_cpu_tree alloc junk w s = Some s'" "built {} (3 * length (cpu_paths w)) s'" "kept ?s s'"
    "cpu_numbers s' = map Some (usable_cpus w (cpu_paths w) (cpus_of m))"
    "core_count s' = length (filter (\<lambda>p. cpu_online w p = Some True) (cpu_paths w))" "grown s'"
    using gr do_cpus_ok [OF al b st(3), of "cpu_paths w" w junk] dc st(1,2) unfolding run by auto
  have "banned_cpus s' = m" using no_tree_eqD(3) [of s' ?s] s'(3) by (simp add: kept_def)
  with s' m show ?thesis by blast
qed


section \<open>Clearing\<close>

text \<open>States that differ in irq loads only, which are then 0.\<close>

definition zeroed :: "sys \<Rightarrow> sys \<Rightarrow> bool" where
  "zeroed s s' \<longleftrightarrow> s' = s\<lparr>irqs := irqs s'\<rparr>
     \<and> (\<forall>x. irqs s' x = irqs s x \<or> irqs s' x = map_option (\<lambda>i. i\<lparr>i_load := 0\<rparr>) (irqs s x))"

lemma zeroed_refl [simp]: "zeroed s s"
  by (simp add: zeroed_def)

lemma zeroed_trans:
  assumes "zeroed s t" "zeroed t u"
  shows "zeroed s u"
proof -
  have "irqs u x = irqs s x \<or> irqs u x = map_option (\<lambda>i. i\<lparr>i_load := 0\<rparr>) (irqs s x)" for x
  proof -
    have "irqs t x = irqs s x \<or> irqs t x = map_option (\<lambda>i. i\<lparr>i_load := 0\<rparr>) (irqs s x)"
      "irqs u x = irqs t x \<or> irqs u x = map_option (\<lambda>i. i\<lparr>i_load := 0\<rparr>) (irqs t x)"
      using assms by (simp_all add: zeroed_def)
    then show ?thesis by (cases "irqs s x") auto
  qed
  moreover have "u = s\<lparr>irqs := irqs u\<rparr>"
  proof -
    have t: "t = s\<lparr>irqs := irqs t\<rparr>" and "u = t\<lparr>irqs := irqs u\<rparr>" using assms by (simp_all add: zeroed_def)
    then show ?thesis by (metis sys.update_convs(2) sys.surjective)
  qed
  ultimately show ?thesis by (simp add: zeroed_def)
qed

lemma zeroed_skel:
  assumes "zeroed s s'"
  shows "same_skel s s'" "objs s' = objs s" "only_loads s s'"
proof -
  have e: "s' = s\<lparr>irqs := irqs s'\<rparr>" using assms by (simp add: zeroed_def)
  show "objs s' = objs s" by (subst e) simp
  have "map_option skel_irq (irqs s' a) = map_option skel_irq (irqs s a)" for a
    using assms unfolding zeroed_def by (cases "irqs s a") (auto simp: skel_irq_def dest: spec [of _ a])
  then show "same_skel s s'" by (subst e) (simp add: same_skel_def skel_def fun_eq_iff)
  have "map_option (\<lambda>i. i\<lparr>i_load := 0\<rparr>) (irqs s' a) = map_option (\<lambda>i. i\<lparr>i_load := 0\<rparr>) (irqs s a)" for a
    using assms unfolding zeroed_def by (cases "irqs s a") (auto dest: spec [of _ a])
  moreover have "need_rescan s' = need_rescan s" by (subst e) simp
  ultimately show "only_loads s s'" by (simp add: only_loads_def)
qed

lemma clear_irqs_ok:
  assumes "\<forall>x \<in> set xs. irqs s x \<noteq> None"
  shows "\<exists>s'. for_each clear_irq_stats xs s = Some s' \<and> zeroed s s'"
proof (rule for_each_total_inv [of "zeroed s"])
  fix x t assume x: "x \<in> set xs" and t: "zeroed s t"
  have "irqs t x \<noteq> None" using assms x same_skelD(10) [OF zeroed_skel(1) [OF t]] by simp
  then obtain i where i: "irqs t x = Some i" by blast
  have "zeroed t (t\<lparr>irqs := (irqs t)(x \<mapsto> i\<lparr>i_load := 0\<rparr>)\<rparr>)" using i by (simp add: zeroed_def)
  with i zeroed_trans [OF t] show "\<exists>t'. clear_irq_stats x t = Some t' \<and> zeroed s t'"
    by (simp add: clear_irq_stats_def upd_irq_def)
qed simp

lemma clear_obj_stats_ok:
  assumes "ok_sys s" "objs s a = Some d" "zeroed s t"
  shows "\<exists>s'. clear_obj_stats a t = Some s' \<and> zeroed s s'"
  using assms(2,3)
proof (induction "tree_level (obj_type d)" arbitrary: a d t rule: less_induct)
  case less
  have lv: "ok_levels s" using assms(1) by (simp add: ok_sys_def)
  have od: "objs u a = Some d" if "zeroed s u" for u using zeroed_skel(2) [OF that] less.prems(1) by simp
  have "\<exists>u. for_each (\<lambda>c t. clear_obj_stats c t) (children d) t = Some u \<and> zeroed s u"
  proof (rule for_each_total_inv [of "zeroed s", OF less.prems(2)])
    fix c u assume c: "c \<in> set (children d)" and u: "zeroed s u"
    obtain e where e: "objs s c = Some e" using ok_levelsD(2) [OF lv less.prems(1) c] by blast
    show "\<exists>u'. clear_obj_stats c u = Some u' \<and> zeroed s u'"
      by (rule less.hyps [OF ok_levelsD(3) [OF lv less.prems(1) c e] e u])
  qed
  then obtain u where u: "for_each (\<lambda>c t. clear_obj_stats c t) (children d) t = Some u" "zeroed s u" by blast
  have "ok_sys u" using ok_sys_skel [OF zeroed_skel(1) [OF u(2)] assms(1)] .
  then have "irqs u x \<noteq> None" if "x \<in> set (if interrupts d \<noteq> [] then interrupts d else interrupts_db u)" for x
    using that ok_sys_list(2) [OF _ od [OF u(2)]] ok_irqs_valid [of u x]
    by (auto simp: ok_sys_def wf_sys_def split: if_splits)
  then obtain s' where "for_each_irq (interrupts d) clear_irq_stats u = Some s'" "zeroed u s'"
    using clear_irqs_ok unfolding for_each_irq_def by blast
  then show ?case using u od [OF u(2)] od [OF less.prems(2)] zeroed_trans [OF u(2)]
    by (subst clear_obj_stats.simps) simp
qed

lemma clear_work_stats_ok:
  assumes "ok_sys s"
  shows "\<exists>s'. clear_work_stats s = Some s' \<and> zeroed s s'"
proof -
  have "\<forall>a \<in> set (numa_nodes s). objs s a \<noteq> None" using assms by (simp add: ok_sys_def wf_sys_def ok_tree_def)
  then show ?thesis unfolding clear_work_stats_def for_each_object_def
    by (intro for_each_total_inv [of "zeroed s"]) (use clear_obj_stats_ok [OF assms] in auto)
qed

text \<open>Freeing the objects of a list.\<close>

lemma free_objs_ok:
  assumes "distinct as" "\<forall>a \<in> set as. objs s a \<noteq> None"
  shows "for_each free_obj as s = Some (s\<lparr>objs := objs s |` (- set as)\<rparr>)"
  using assms
proof (induction as arbitrary: s)
  case Nil
  show ?case by (simp add: restrict_map_def)
next
  case (Cons a as)
  let ?s = "s\<lparr>objs := (objs s)(a := None)\<rparr>"
  have "free_obj a s = Some ?s" using Cons.prems(2) by (auto simp: free_obj_def)
  moreover have "for_each free_obj as ?s = Some (?s\<lparr>objs := objs ?s |` (- set as)\<rparr>)"
    using Cons.prems by (intro Cons.IH) auto
  moreover have "(objs s)(a := None) |` (- set as) = objs s |` (- set (a # as))"
    by (auto simp: restrict_map_def fun_eq_iff)
  ultimately show ?case by simp
qed

definition listed :: "sys \<Rightarrow> bool" where
  "listed s \<longleftrightarrow> (\<forall>a d. objs s a = Some d \<longrightarrow> a \<in> set (group s (obj_type d)))
     \<and> (\<forall>t. distinct (group s t) \<and> (\<forall>a \<in> set (group s t). \<exists>d. objs s a = Some d \<and> obj_type d = t))"

lemma built_listed: "built {} k s \<Longrightarrow> listed s"
  by (simp add: built_def listed_def obj_ok_def)

lemma free_nodes_ok:
  assumes "distinct as" "\<forall>a \<in> set as. objs s a \<noteq> None"
  shows "for_each free_numa_node as s = Some (s\<lparr>objs := objs s |` (- (set as - {unspecified_node}))\<rparr>)"
  using assms
proof (induction as arbitrary: s)
  case Nil
  show ?case by (simp add: restrict_map_def)
next
  case (Cons a as)
  let ?s = "if a = unspecified_node then s else s\<lparr>objs := (objs s)(a := None)\<rparr>"
  have "free_numa_node a s = Some ?s" using Cons.prems(2) by (auto simp: free_numa_node_def free_obj_def)
  moreover have "for_each free_numa_node as ?s = Some (?s\<lparr>objs := objs ?s |` (- (set as - {unspecified_node}))\<rparr>)"
    using Cons.prems by (intro Cons.IH) auto
  moreover have "objs ?s |` (- (set as - {unspecified_node})) = objs s |` (- (set (a # as) - {unspecified_node}))"
    by (auto simp: restrict_map_def fun_eq_iff)
  ultimately show ?case by simp
qed

lemma free_tree_ok:
  assumes "listed s" "finite (dom (irqs s))"
  shows "\<exists>s1 s2. free_numa_node_list s = Some s1 \<and> clear_cpu_tree s1 = Some s2 \<and> cleared s2
    \<and> no_tree (s2\<lparr>numa_nodes := []\<rparr>) = no_tree (s\<lparr>numa_nodes := []\<rparr>)"
proof -
  have v: "\<exists>d. objs s a = Some d \<and> obj_type d = t" "distinct (group s t)" if "a \<in> set (group s t)" for a t
    using assms(1) that unfolding listed_def by blast+
  have dt: "distinct (group s t)" for t using assms(1) by (simp add: listed_def)
  note g = v(1) [where t = OBJ_TYPE_NODE] v(1) [where t = OBJ_TYPE_PACKAGE] v(1) [where t = OBJ_TYPE_CACHE]
    v(1) [where t = OBJ_TYPE_CPU]
  note d = dt [of OBJ_TYPE_NODE] dt [of OBJ_TYPE_PACKAGE] dt [of OBJ_TYPE_CACHE] dt [of OBJ_TYPE_CPU]
  let ?N = "set (numa_nodes s) - {unspecified_node}" and ?P = "set (packages s)" and ?C = "set (cache_domains s)"
    and ?U = "set (cpus s)"
  let ?s1 = "s\<lparr>objs := objs s |` (- ?N), numa_nodes := []\<rparr>"
  let ?s2 = "?s1\<lparr>objs := objs s |` (- (?N \<union> ?P)), packages := [], package_count := 0\<rparr>"
  let ?s3 = "?s2\<lparr>objs := objs s |` (- (?N \<union> ?P \<union> ?C)), cache_domains := [], cache_domain_count := 0\<rparr>"
  let ?s4 = "?s3\<lparr>objs := objs s |` (- (?N \<union> ?P \<union> ?C \<union> ?U)), cpus := [], core_count := 0\<rparr>"
  have r: "objs s |` (- X) |` (- Y) = objs s |` (- (X \<union> Y))" for X Y by (auto simp: restrict_map_def fun_eq_iff)
  have "for_each free_numa_node (numa_nodes s) s = Some (s\<lparr>objs := objs s |` (- ?N)\<rparr>)"
    by (rule free_nodes_ok) (use g(1) d(1) in \<open>fastforce simp: group_def\<close>)+
  then have n: "free_numa_node_list s = Some ?s1" by (simp add: free_numa_node_list_def)
  have keep: "\<forall>a \<in> set (packages s). (objs s |` (- ?N)) a \<noteq> None"
    "\<forall>a \<in> set (cache_domains s). (objs s |` (- (?N \<union> ?P))) a \<noteq> None"
    "\<forall>a \<in> set (cpus s). (objs s |` (- (?N \<union> ?P \<union> ?C))) a \<noteq> None"
    using g by (auto simp: restrict_map_def group_def) (fastforce+)
  have f1: "for_each free_obj (packages s) ?s1 = Some (?s1\<lparr>objs := objs s |` (- (?N \<union> ?P))\<rparr>)"
    using free_objs_ok [of "packages s" ?s1] d(2) keep(1) by (simp add: r group_def)
  have f2: "for_each free_obj (cache_domains s) ?s2 = Some (?s2\<lparr>objs := objs s |` (- (?N \<union> ?P \<union> ?C))\<rparr>)"
    using free_objs_ok [of "cache_domains s" ?s2] d(3) keep(2) by (simp add: r group_def)
  have f3: "for_each free_obj (cpus s) ?s3 = Some (?s3\<lparr>objs := objs s |` (- (?N \<union> ?P \<union> ?C \<union> ?U))\<rparr>)"
    using free_objs_ok [of "cpus s" ?s3] d(4) keep(3) by (simp add: r group_def)
  have "clear_cpu_tree ?s1 = Some ?s4" using f1 f2 f3 by (simp add: clear_cpu_tree_def)
  moreover have "cleared ?s4"
  proof -
    have "a \<in> set (group s (obj_type d))" if "objs s a = Some d" for a d using assms(1) that by (simp add: listed_def)
    then have "objs s a = None" if "a \<notin> ?N \<union> ?P \<union> ?C \<union> ?U" "a \<noteq> unspecified_node" for a
      using that by (cases "objs s a") (fastforce simp: group_def split: obj_type_e.splits)+
    then have "dom (objs s |` (- (?N \<union> ?P \<union> ?C \<union> ?U))) \<subseteq> {unspecified_node}"
      by (auto simp: restrict_map_def split: if_splits) (metis option.distinct(1))
    then show ?thesis using assms(2) by (simp add: cleared_def)
  qed
  moreover have "no_tree (?s4\<lparr>numa_nodes := []\<rparr>) = no_tree (s\<lparr>numa_nodes := []\<rparr>)" by (simp add: no_tree_def)
  ultimately show ?thesis using n by blast
qed


section \<open>The files with cpu lists\<close>

lemma to_dec_chars: "c \<in> set (to_dec n) \<Longrightarrow> \<exists>d < 10. c = dec_char d"
  by (induction n rule: to_dec.induct) (subst (asm) to_dec.simps, auto split: if_splits intro: exI [of _ "_ mod 10"])

lemma ranges_text_chars: "c \<in> set (ranges_text r rs) \<Longrightarrow> c \<noteq> NUL \<and> c \<noteq> newline"
proof -
  have d: "c \<noteq> NUL \<and> c \<noteq> newline" if cn: "c \<in> set (to_dec n)" for n
  proof -
    obtain d where "d < 10" "c = dec_char d" using to_dec_chars [OF cn] by blast
    then show ?thesis using dec_char_facts(1,4) [of d] by (auto simp: newline_def)
  qed
  have "c \<noteq> NUL \<and> c \<noteq> newline" if "c \<in> set (range_text q)" for q
    using that d by (cases q) (auto simp: range_text_def NUL_def newline_def split: if_splits)
  then show "c \<in> set (ranges_text r rs) \<Longrightarrow> c \<noteq> NUL \<and> c \<noteq> newline"
    by (induction rs arbitrary: r) (auto simp: NUL_def newline_def)
qed

lemma read_cpulist_ranges:
  assumes "contents w path = Some (ranges_text r rs @ [newline])" "\<forall>(a, b) \<in> set (r # rs). a \<le> b \<and> b < NR_CPUS"
  shows "\<exists>m. read_cpulist w path = Some m \<and> cpus_of m = (\<Union>(a, b) \<in> set (r # rs). {a..b})"
proof -
  let ?t = "ranges_text r rs @ [newline]"
  have nn: "newline \<notin> set (ranges_text r rs)" "NUL \<notin> set (ranges_text r rs)" using ranges_text_chars by blast+
  then have "takeWhile (\<lambda>x. x \<noteq> newline) ?t = ranges_text r rs" "takeWhile (\<lambda>x. x \<noteq> NUL) ?t = ?t"
    by (subst takeWhile_append2; auto simp: newline_def NUL_def)+
  then have "getline ?t = Some ?t" "c_string ?t = ?t" by (simp_all add: getline_def c_string_def)
  moreover have "hd ?t \<noteq> newline" using nn(1) by (cases "ranges_text r rs") auto
  ultimately have e: "read_cpulist w path = map_option snd (cpulist_parse ?t (cpus_clear CPU_MASK_NONE))"
    using assms(1) by (simp add: read_cpulist_def)
  have h: "BITS_TO_LONGS NR_CPUS \<le> length (bits (cpus_clear CPU_MASK_NONE))" "NR_CPUS < 2 ^ 31" "line_end [newline]"
    by (simp, simp add: NR_CPUS_def, simp add: newline_def line_end_def)
  obtain m where m: "bitmap_parselist ?t (bits (cpus_clear CPU_MASK_NONE)) NR_CPUS = Some (RC_OK, m)"
    "bm_set NR_CPUS m = (\<Union>(a, b) \<in> set (r # rs). {a..b})"
    using bitmap_parselist_ranges [OF assms(2) h(1) NR_CPUS_pos h(2,3)] by blast
  have "map_option (map_prod id bits) (cpulist_parse ?t (cpus_clear CPU_MASK_NONE)) = Some (RC_OK, m)"
    using m(1) by (simp add: cpulist_parse.rep_eq)
  then obtain m' where "cpulist_parse ?t (cpus_clear CPU_MASK_NONE) = Some (RC_OK, m')" "bits m' = m" by auto
  with e m(2) show ?thesis by (simp add: cpus_of_def)
qed

end
