(* ===== verification/Irqcollect.thy ===== *)
theory Irqcollect
  imports Sysfs
begin

text \<open>
  The first half of \<open>procinterrupts.c\<close>: the list of all irqs in \<open>/proc/interrupts\<close>, with a guess of
  class and type from the name of the irq (the AArch64 variant of the code). The list and its
  descriptors are local to \<open>rebuild_irq_db\<close>, which frees them: they are values here, and their
  allocation succeeds.
\<close>

section \<open>Guessing the class of an irq\<close>

definition platform_class :: "string \<Rightarrow> int option" where
  "platform_class d_name =
     (if take 3 d_name = ''ata'' then Some IRQ_SCSI
      else if take 3 d_name = ''net'' then Some IRQ_ETH
      else if take 3 d_name = ''usb'' then Some IRQ_OTHER
      else None)"

primrec platform_scan :: "(string \<times> bool) list \<Rightarrow> int option" where
  "platform_scan [] = None"
| "platform_scan (e # es) = (case platform_class (fst e) of Some c \<Rightarrow> Some c | None \<Rightarrow> platform_scan es)"

text \<open>\<open>path\<close> has 512 bytes; a longer name overruns it.\<close>

definition check_platform_device :: "world \<Rightarrow> string \<Rightarrow> irq_info \<Rightarrow> irq_info option" where
  "check_platform_device w name i =
     (let path = ''/sys/devices/platform/'' @ name @ ''/''
      in if 512 \<le> length path then None
         else case entries w path of
           None \<Rightarrow> Some i
         | Some es \<Rightarrow> (case platform_scan es of
             Some c \<Rightarrow> Some (i\<lparr>i_type := IRQ_TYPE_LEGACY, i_class := c\<rparr>)
           | None \<Rightarrow> Some i))"

text \<open>The patterns for a name with a given extension, a backslash before the dot.\<close>

definition suffix_pattern :: "string \<Rightarrow> string" where
  "suffix_pattern ext = ''.*'' @ [CHR 0x5C] @ ''.'' @ ext"

text \<open>The table \<open>matches\<close>: the pattern, whether \<open>check_platform_device\<close> refines the match, and the class;
  the type is always legacy.\<close>

definition irq_matches :: "(string \<times> bool \<times> int) list" where
  "irq_matches = [(''eth.*'', False, IRQ_GBETH), (suffix_pattern ''sd'', False, IRQ_SCSI), (suffix_pattern ''vsp'', False, IRQ_VIDEO),
     (suffix_pattern ''csi2'', False, IRQ_VIDEO), (suffix_pattern ''display'', False, IRQ_VIDEO), (suffix_pattern ''video'', False, IRQ_VIDEO),
     (suffix_pattern ''hdmi'', False, IRQ_VIDEO), (''rcar_vin'', False, IRQ_VIDEO), (''pvrsrvkm'', False, IRQ_VIDEO),
     (''[A-Z0-9]{4}[0-9a-f]{4}'', True, IRQ_OTHER), (''PNP[0-9a-f]{4}'', True, IRQ_OTHER)]"

definition guess_step :: "world \<Rightarrow> string \<Rightarrow> string \<times> bool \<times> int \<Rightarrow> irq_info \<Rightarrow> irq_info option" where
  "guess_step w name = (\<lambda>(pat, refine, c) i.
     if regexec w pat name then
       (let i = i\<lparr>i_type := IRQ_TYPE_LEGACY, i_class := c\<rparr>
        in if refine then check_platform_device w name i else Some i)
     else Some i)"

definition guess_arm_irq_hints :: "world \<Rightarrow> string \<Rightarrow> irq_info \<Rightarrow> irq_info option" where
  "guess_arm_irq_hints w name i = for_each (guess_step w name) irq_matches i"


section \<open>The list of irqs\<close>

text \<open>\<open>strtok\<close>: the non-empty pieces between delimiters.\<close>

lemma strtok_shorter:
  assumes "dropWhile (\<lambda>c. c = d) s \<noteq> []"
  shows "length (dropWhile (\<lambda>c. c \<noteq> d) (dropWhile (\<lambda>c. c = d) s)) < length s"
proof -
  obtain c r where r: "dropWhile (\<lambda>c. c = d) s = c # r" using assms by (meson neq_Nil_conv)
  then have "c \<noteq> d" using hd_dropWhile [of "\<lambda>c. c = d" s] by simp
  moreover have "length (dropWhile (\<lambda>c. c \<noteq> d) r) \<le> length r" by (rule length_dropWhile_le)
  moreover have "length (c # r) \<le> length s" unfolding r [symmetric] by (rule length_dropWhile_le)
  ultimately show ?thesis by (simp add: r)
qed

function strtok :: "char \<Rightarrow> string \<Rightarrow> string list" where
  "strtok d s = (let r = dropWhile (\<lambda>c. c = d) s
     in if r = [] then [] else takeWhile (\<lambda>c. c \<noteq> d) r # strtok d (dropWhile (\<lambda>c. c \<noteq> d) r))"
  by pat_completeness auto
termination
  by (relation "measure (\<lambda>(d, s). length s)") (auto intro!: strtok_shorter simp del: dropWhile_eq_Nil_conv)

declare strtok.simps [simp del]

text \<open>
  One line; the first component tells whether the loop goes on. \<open>strncpy\<close> does not terminate a copy of
  1024 bytes or more, and a line with a single token leaves \<open>last_token\<close> a null pointer.
\<close>

definition irq_line :: "world \<Rightarrow> hp_e \<Rightarrow> string \<Rightarrow> (bool \<times> irq_info list) option" where
  "irq_line w hint line =
     (let c = dropWhile isblank line
      in if \<not> (c \<noteq> [] \<and> isdigit (hd c)) then Some (False, [])
         else if CHR '':'' \<notin> set line then Some (True, [])
         else if 1024 \<le> length line then None
         else let tokens = strtok CHR '' '' line
         in if length tokens < 2 then None
         else do {
           let irq_name = takeWhile (\<lambda>c. c \<noteq> newline) (last tokens);
           let number = to_int (strtoul (takeWhile (\<lambda>x. x \<noteq> CHR '':'') line));
           let i = zero_irq\<lparr>irq := number\<rparr>;
           i \<leftarrow> (if strstr irq_name ''xen-dyn-event''
                    then Some (i\<lparr>i_type := IRQ_TYPE_VIRT_EVENT, i_class := IRQ_VIRT_EVENT\<rparr>)
                    else guess_arm_irq_hints w irq_name i);
           Some (True, [i\<lparr>hint_policy := hint, i_name := Some irq_name\<rparr>])
         })"

primrec irq_lines :: "world \<Rightarrow> hp_e \<Rightarrow> string list \<Rightarrow> irq_info list option" where
  "irq_lines w hint [] = Some []"
| "irq_lines w hint (line # ls) = do {
     (go, is) \<leftarrow> irq_line w hint (c_string line);
     if go then map_option ((@) is) (irq_lines w hint ls) else Some is
   }"

text \<open>
  The loop tests \<open>feof\<close> before \<open>getline\<close>, so a file that ends in a newline has one more round, with the
  buffer of the round before (cut at its colon) or an empty one; it adds nothing in either case.
\<close>

definition collect_full_irq_list :: "world \<Rightarrow> hp_e \<Rightarrow> irq_info list option" where
  "collect_full_irq_list w hint = (case contents w ''/proc/interrupts'' of
     None \<Rightarrow> Some []
   | Some c \<Rightarrow> irq_lines w hint (tl (file_lines c)))"


section \<open>Classes are in range\<close>

text \<open>A guessed class is always an index of \<open>map_class_to_level\<close>.\<close>

definition class_ok :: "int \<Rightarrow> bool" where
  "class_ok c \<longleftrightarrow> 0 \<le> c \<and> c < 8"

lemmas irq_classes = IRQ_OTHER_def IRQ_LEGACY_def IRQ_SCSI_def IRQ_VIDEO_def IRQ_ETH_def IRQ_GBETH_def
  IRQ_10GBETH_def IRQ_VIRT_EVENT_def IRQ_NODEF_def

lemma platform_scan_class: "platform_scan es = Some c \<Longrightarrow> class_ok c"
  by (induction es) (auto simp: platform_class_def class_ok_def irq_classes split: option.splits if_splits)

lemma check_platform_class:
  assumes "check_platform_device w n i = Some i'" "class_ok (i_class i)"
  shows "class_ok (i_class i') \<and> irq i' = irq i"
  using assms platform_scan_class
  by (auto simp: check_platform_device_def Let_def split: if_splits option.splits)

lemma guess_class:
  assumes "guess_arm_irq_hints w n i = Some i'" "class_ok (i_class i)"
  shows "class_ok (i_class i') \<and> irq i' = irq i"
proof -
  have "class_ok (i_class t') \<and> irq t' = irq i"
    if "m \<in> set irq_matches" "guess_step w n m t = Some t'" "class_ok (i_class t) \<and> irq t = irq i" for m t t'
  proof -
    obtain pat r c where m: "m = (pat, r, c)" by (cases m)
    have "class_ok c" using that(1) m by (auto simp: irq_matches_def class_ok_def irq_classes)
    then show ?thesis using that(2,3) check_platform_class [of w n "t\<lparr>i_type := IRQ_TYPE_LEGACY, i_class := c\<rparr>" t']
      by (auto simp: m guess_step_def Let_def split: if_splits)
  qed
  from for_each_inv [OF assms(1)[unfolded guess_arm_irq_hints_def], of "\<lambda>t. class_ok (i_class t) \<and> irq t = irq i"] this assms(2)
  show ?thesis by blast
qed

text \<open>What the data base relies on: a class in range, a number that is an \<open>int\<close> and a name.\<close>

definition hint_ok :: "irq_info \<Rightarrow> bool" where
  "hint_ok i \<longleftrightarrow> class_ok (i_class i) \<and> - (2 ^ 31) \<le> irq i \<and> irq i < 2 ^ 31 \<and> i_name i \<noteq> None"

lemma to_int_range: "- (2 ^ 31) \<le> to_int v" "to_int v < 2 ^ 31"
  using sint_ge [of "ucast v :: c_int"] sint_lt [of "ucast v :: c_int"] by (simp_all add: to_int_def)

lemma irq_line_ok:
  assumes "irq_line w h l = Some (go, is)" "i \<in> set is"
  shows "hint_ok i"
proof -
  have z: "class_ok (i_class (zero_irq\<lparr>irq := n\<rparr>))" for n by (simp add: zero_irq_def class_ok_def)
  show ?thesis
    using assms guess_class [OF _ z] to_int_range
    by (auto simp: irq_line_def Let_def hint_ok_def class_ok_def irq_classes split: if_splits bind_splits) (force+)?
qed

lemma irq_lines_ok: "irq_lines w h ls = Some is \<Longrightarrow> i \<in> set is \<Longrightarrow> hint_ok i"
proof (induction ls arbitrary: "is")
  case (Cons l ls)
  then obtain go js where l: "irq_line w h (c_string l) = Some (go, js)" by (auto split: bind_splits)
  show ?case
  proof (cases "i \<in> set js")
    case True
    then show ?thesis by (rule irq_line_ok [OF l])
  next
    case False
    then show ?thesis using Cons l by (auto split: if_splits)
  qed
qed simp

lemma collect_ok: "collect_full_irq_list w h = Some is \<Longrightarrow> i \<in> set is \<Longrightarrow> hint_ok i"
  by (auto simp: collect_full_irq_list_def split: option.splits dest: irq_lines_ok)

end
