(* ===== verification/Classify.thy ===== *)
theory Classify
  imports Cputree Irqcollect
begin

unbundle bit_operations_syntax

text \<open>
  \<open>classify.c\<close>: the data base of irqs. Every irq of a PCI device and every irq of \<open>/proc/interrupts\<close> gets
  a descriptor with a class, a balance level, a numa node and its affinity hint, unless it is banned.
  (Lookup, traversal, migration and sorting are in \<open>State\<close>.)
\<close>

section \<open>Classes of PCI devices\<close>

definition map_class_to_level :: "int list" where
  "map_class_to_level = [BALANCE_PACKAGE, BALANCE_CACHE, BALANCE_CORE, BALANCE_CORE, BALANCE_CORE, BALANCE_CORE,
     BALANCE_CORE, BALANCE_CORE]"

text \<open>\<open>map_class_to_level[c]\<close>; outside the array there is no value.\<close>

definition class_level :: "int \<Rightarrow> int option" where
  "class_level c = (if 0 \<le> c \<and> c < 8 then Some (map_class_to_level ! nat c) else None)"

record pci_info =
  vendor :: "16 word"
  device :: "16 word"
  sub_vendor :: "16 word"
  sub_device :: "16 word"
  pci_class :: u32

definition PCI_INVAL_DATA :: u32 where
  "PCI_INVAL_DATA = 0xFFFFFFFF"

definition apply_pci_quirks :: "pci_info \<Rightarrow> int \<Rightarrow> int" where
  "apply_pci_quirks pci irq_class =
     (let irq_class = (if vendor pci = 0x10b5 \<and> device pci = 0x8619 \<and> sub_vendor pci = 0x1120
           \<and> (sub_device pci = 0x055b \<or> sub_device pci = 0xdd00) then IRQ_SCSI else irq_class)
      in if vendor pci = 0x177d \<and> device pci = 0x0093 \<and> sub_vendor pci = 0x1120
           \<and> sub_device pci = 0x0568 then IRQ_SCSI else irq_class)"

definition major_class_codes :: "int list" where
  "major_class_codes = [IRQ_OTHER, IRQ_SCSI, IRQ_ETH, IRQ_VIDEO, IRQ_OTHER, IRQ_OTHER, IRQ_LEGACY, IRQ_OTHER,
     IRQ_OTHER, IRQ_LEGACY, IRQ_OTHER, IRQ_OTHER, IRQ_NODEF, IRQ_ETH, IRQ_SCSI, IRQ_OTHER, IRQ_OTHER, IRQ_OTHER,
     IRQ_LEGACY, IRQ_LEGACY]"

definition serial_sub_codes :: "int list" where
  "serial_sub_codes = [IRQ_LEGACY, IRQ_LEGACY, IRQ_LEGACY, IRQ_LEGACY, IRQ_SCSI, IRQ_LEGACY, IRQ_SCSI, IRQ_LEGACY,
     IRQ_LEGACY, IRQ_LEGACY] @ replicate (0x80 - 0xa) IRQ_NODEF @ [IRQ_LEGACY]"

definition map_pci_irq_class :: "u32 \<Rightarrow> int" where
  "map_pci_irq_class c =
     (let major = drop_bit 16 c;
          sub = drop_bit 8 (c AND 0xFF00)
      in if 0x14 \<le> major then IRQ_NODEF
         else if major = 0xc then
           (if 0x81 \<le> sub then IRQ_NODEF else serial_sub_codes ! unat sub)
         else major_class_codes ! unat major)"


section \<open>Reading numbers\<close>

text \<open>
  \<open>fscanf("%x")\<close>: white space, a sign, an optional \<open>0x\<close> and hexadecimal digits; the value is converted
  as by \<open>strtoul\<close> and stored in an \<open>unsigned int\<close>. \<open>None\<close>: nothing is stored.
\<close>

definition scan_hex :: "string \<Rightarrow> u32 option" where
  "scan_hex s =
     (let (neg, r) = skip_sign (dropWhile isspace s);
          r = (if take 2 r = ''0x'' \<or> take 2 r = ''0X'' then drop 2 r else r);
          ds = takeWhile isxdigit r;
          v = (if hexval ds < 2 ^ 64 then of_nat (hexval ds) else ULLONG_MAX)
      in if ds = [] then None
         else Some (ucast (if neg \<and> hexval ds < 2 ^ 64 then - v else v)))"

text \<open>\<open>fscanf("%d")\<close> and \<open>strtol\<close> stored in an \<open>int\<close>: the value is clipped to \<open>long\<close> and then truncated.\<close>

definition scan_d :: "string \<Rightarrow> int option" where
  "scan_d s =
     (let (neg, r) = skip_sign (dropWhile isspace s);
          ds = takeWhile isdigit r;
          n = (if neg then - int (digits_value ds) else int (digits_value ds))
      in if ds = [] then None
         else Some (sint (of_int (max (- (2 ^ 63)) (min (2 ^ 63 - 1) n)) :: c_int)))"

definition strtol_int :: "string \<Rightarrow> int" where
  "strtol_int s = (case scan_d s of None \<Rightarrow> 0 | Some n \<Rightarrow> n)"

definition read_pci_data :: "world \<Rightarrow> string \<Rightarrow> string \<Rightarrow> u32" where
  "read_pci_data w devpath f = (case contents w (devpath @ ''/'' @ f) of
     None \<Rightarrow> PCI_INVAL_DATA
   | Some c \<Rightarrow> (case scan_hex c of None \<Rightarrow> PCI_INVAL_DATA | Some v \<Rightarrow> v))"

text \<open>\<open>None\<close> is the result \<open>-ENODEV\<close>.\<close>

definition get_pci_info :: "world \<Rightarrow> string \<Rightarrow> pci_info option" where
  "get_pci_info w devpath =
     (let v = read_pci_data w devpath ''vendor''; d = read_pci_data w devpath ''device'';
          sv = read_pci_data w devpath ''subsystem_vendor''; sd = read_pci_data w devpath ''subsystem_device'';
          c = read_pci_data w devpath ''class''
      in if v = PCI_INVAL_DATA then None
         else if d = PCI_INVAL_DATA then None
         else if sv = PCI_INVAL_DATA then None
         else if sd = PCI_INVAL_DATA then None
         else if c = PCI_INVAL_DATA then None
         else Some \<lparr>vendor = ucast v, device = ucast d, sub_vendor = ucast sv, sub_device = ucast sd, pci_class = c\<rparr>)"

definition get_irq_class :: "world \<Rightarrow> string \<Rightarrow> int" where
  "get_irq_class w devpath = (case get_pci_info w devpath of
     None \<Rightarrow> IRQ_NODEF
   | Some pci \<Rightarrow> (let irq_class = map_pci_irq_class (pci_class pci)
       in if irq_class < 0 then IRQ_NODEF else apply_pci_quirks pci irq_class))"


section \<open>Bans\<close>

datatype ban_list = Banned | Cl_banned

definition ban_get :: "ban_list \<Rightarrow> sys \<Rightarrow> addr list" where
  "ban_get l s = (case l of Banned \<Rightarrow> banned_irqs s | Cl_banned \<Rightarrow> cl_banned_irqs s)"

definition ban_put :: "ban_list \<Rightarrow> addr list \<Rightarrow> sys \<Rightarrow> sys" where
  "ban_put l xs s = (case l of Banned \<Rightarrow> s\<lparr>banned_irqs := xs\<rparr> | Cl_banned \<Rightarrow> s\<lparr>cl_banned_irqs := xs\<rparr>)"

definition add_banned_irq :: "allocator \<Rightarrow> int \<Rightarrow> ban_list \<Rightarrow> sys \<Rightarrow> sys option" where
  "add_banned_irq alloc n l s = do {
     entry \<leftarrow> find_custom (compare_ints s n) (ban_get l s);
     let new = alloc s;
     if entry \<noteq> None \<or> new = NULL then Some s
     else Some (ban_put l (ban_get l s @ [new]) (s\<lparr>irqs := (irqs s)(new \<mapsto>
            zero_irq\<lparr>irq := n, flags := IRQ_FLAG_BANNED, hint_policy := HINT_POLICY_EXACT\<rparr>)\<rparr>))
   }"

definition add_cl_banned_irq :: "allocator \<Rightarrow> int \<Rightarrow> sys \<Rightarrow> sys option" where
  "add_cl_banned_irq alloc n s = add_banned_irq alloc n Cl_banned s"

definition is_banned_irq :: "int \<Rightarrow> sys \<Rightarrow> bool option" where
  "is_banned_irq n s = map_option (\<lambda>e. e \<noteq> None) (find_custom (compare_ints s n) (banned_irqs s))"

text \<open>\<open>substr_find\<close> compares a list element with the string searched for.\<close>

definition substr_find :: "string \<Rightarrow> string \<Rightarrow> int" where
  "substr_find a b = (if strstr b a then 0 else 1)"

definition is_banned_irq_name :: "string \<Rightarrow> sys \<Rightarrow> bool" where
  "is_banned_irq_name name s = list_ex (\<lambda>a. substr_find (fst a) name = 0) (banned_irq_names s)"

definition add_banned_module :: "string \<Rightarrow> sys \<Rightarrow> sys" where
  "add_banned_module modname s =
     (if list_ex (\<lambda>a. substr_find a modname = 0) (cl_banned_modules s) then s
      else s\<lparr>cl_banned_modules := cl_banned_modules s @ [modname]\<rparr>)"

definition add_cl_banned_module :: "string \<Rightarrow> sys \<Rightarrow> sys" where
  "add_cl_banned_module modname s = add_banned_module modname s"

text \<open>The names are pointers into the copy that \<open>strtok\<close> splits; the flag tells whether a name is at the
  start of that block.\<close>

definition add_banned_irqs_by_names :: "string \<Rightarrow> sys \<Rightarrow> sys" where
  "add_banned_irqs_by_names name_list s =
     (let names = strtok CHR '','' name_list;
          starts = (name_list \<noteq> [] \<and> hd name_list \<noteq> CHR '','') # replicate (length names) False
      in s\<lparr>banned_irq_names := banned_irq_names s @ zip names starts\<rparr>)"

definition check_for_module_ban :: "string \<Rightarrow> sys \<Rightarrow> bool" where
  "check_for_module_ban name s = list_ex (\<lambda>a. substr_find a name = 0) (cl_banned_modules s)"

text \<open>\<open>proc_interrupts\<close> is the list the caller passes; the ban script is compiled out. A descriptor without
  a name is not compared when no module is banned.\<close>

definition check_for_irq_ban :: "int \<Rightarrow> irq_info list \<Rightarrow> sys \<Rightarrow> bool option" where
  "check_for_irq_ban n proc_interrupts s = do {
     entry \<leftarrow> find_custom (compare_ints s n) (cl_banned_irqs s);
     if entry \<noteq> None then Some True
     else case List.find (\<lambda>i. sint (of_int (irq i) - of_int n :: c_int) = 0) proc_interrupts of
       None \<Rightarrow> Some False
     | Some res \<Rightarrow> if cl_banned_modules s = [] then Some False
         else map_option (\<lambda>name. check_for_module_ban name s) (i_name res)
   }"


section \<open>User policies\<close>

record user_irq_policy =
  ban :: int
  pol_level :: int
  numa_node_set :: int
  pol_numa_node :: int
  hintpolicy :: hp_e

definition tolower :: "char \<Rightarrow> char" where
  "tolower c = (if 65 \<le> (of_char c :: nat) \<and> (of_char c :: nat) \<le> 90 then char_of (of_char c + 32 :: nat) else c)"

text \<open>\<open>!strcasecmp(a, b)\<close>.\<close>

definition strcaseeq :: "string \<Rightarrow> string \<Rightarrow> bool" where
  "strcaseeq a b \<longleftrightarrow> map tolower a = map tolower b"

definition levelvals :: "string list" where
  "levelvals = [''none'', ''package'', ''cache'', ''core'']"

primrec level_index :: "nat \<Rightarrow> string list \<Rightarrow> string \<Rightarrow> nat" where
  "level_index k [] v = k"
| "level_index k (l # ls) v = (if strcaseeq l v then k else level_index (Suc k) ls v)"

definition parse_user_policy_key :: "string \<Rightarrow> sys \<Rightarrow> user_irq_policy \<Rightarrow> user_irq_policy option" where
  "parse_user_policy_key buf s pol =
     (if CHR ''='' \<notin> set buf then Some pol
      else let key = takeWhile (\<lambda>c. c \<noteq> CHR ''='') buf;
               val = takeWhile (\<lambda>c. c \<noteq> newline) (tl (dropWhile (\<lambda>c. c \<noteq> CHR ''='') buf))
      in if strcaseeq ''ban'' key then
           Some (if strcaseeq ''false'' val then pol\<lparr>ban := 0\<rparr>
                 else if strcaseeq ''true'' val then pol\<lparr>ban := 1\<rparr> else pol)
         else if strcaseeq ''balance_level'' key then
           (let idx = level_index 0 levelvals val
            in Some (if 3 < idx then pol else pol\<lparr>pol_level := int idx\<rparr>))
         else if strcaseeq ''numa_node'' key then do {
           let idx = to_int (strtoul val);
           node \<leftarrow> get_numa_node idx s;
           Some (if node = NULL then pol else pol\<lparr>pol_numa_node := idx, numa_node_set := 1\<rparr>)
         }
         else if strcaseeq ''hintpolicy'' key then
           Some (if strcaseeq ''exact'' val then pol\<lparr>hintpolicy := HINT_POLICY_EXACT\<rparr>
                 else if strcaseeq ''subset'' val then pol\<lparr>hintpolicy := HINT_POLICY_SUBSET\<rparr>
                 else if strcaseeq ''ignore'' val then pol\<lparr>hintpolicy := HINT_POLICY_IGNORE\<rparr> else pol)
         else Some pol)"

definition SYSFS_DIR :: string where
  "SYSFS_DIR = ''/sys''"

definition get_irq_user_policy :: "world \<Rightarrow> string option \<Rightarrow> int \<Rightarrow> sys \<Rightarrow> user_irq_policy option" where
  "get_irq_user_policy w path n s =
     (let pol = \<lparr>ban = -1, pol_level = -1, numa_node_set = -1, pol_numa_node = -1, hintpolicy = global_hint_policy s\<rparr>
      in case polscript w of
           None \<Rightarrow> Some pol
         | Some run \<Rightarrow> (case run (case path of None \<Rightarrow> SYSFS_DIR | Some p \<Rightarrow> p) n of
             None \<Rightarrow> Some pol
           | Some bufs \<Rightarrow> for_each (\<lambda>buf pol. parse_user_policy_key (c_string buf) s pol) bufs pol))"


section \<open>The data base\<close>

text \<open>\<open>sprintf("%s")\<close> of a null pointer prints \<open>(null)\<close>.\<close>

definition devpath_text :: "string option \<Rightarrow> string" where
  "devpath_text devpath = (case devpath of None \<Rightarrow> ''(null)'' | Some p \<Rightarrow> p)"

text \<open>Class and level as \<open>add_one_irq_to_db\<close> sets them: a PCI device without a known class keeps
  \<open>IRQ_OTHER\<close> and the level of \<open>calloc\<close>. They are final for the irqs of devices; for an irq without device
  directory \<open>add_new_irq\<close> overwrites both (below).\<close>

definition new_class_level :: "world \<Rightarrow> string option \<Rightarrow> user_irq_policy \<Rightarrow> (int \<times> int) option" where
  "new_class_level w devpath pol =
     (let irq_class = (case devpath of None \<Rightarrow> IRQ_OTHER | Some p \<Rightarrow> get_irq_class w p)
      in if irq_class < 0 then Some (IRQ_OTHER, 0)
         else if 0 \<le> pol_level pol then Some (irq_class, pol_level pol)
         else map_option (Pair irq_class) (class_level irq_class))"

definition local_cpus :: "world \<Rightarrow> string option \<Rightarrow> cpumask_t" where
  "local_cpus w devpath = (case contents w (devpath_text devpath @ ''/local_cpus'') of
     None \<Rightarrow> cpus_setall CPU_MASK_NONE
   | Some c \<Rightarrow> (case getline c of None \<Rightarrow> cpus_setall CPU_MASK_NONE
       | Some l \<Rightarrow> snd (cpumask_parse_user l CPU_MASK_NONE)))"

definition read_affinity_hint :: "world \<Rightarrow> int \<Rightarrow> cpumask_t" where
  "read_affinity_hint w n = (case contents w (''/proc/irq/'' @ fmt_d n @ ''/affinity_hint'') of
     None \<Rightarrow> cpus_clear CPU_MASK_NONE
   | Some c \<Rightarrow> (case getline c of None \<Rightarrow> cpus_clear CPU_MASK_NONE
       | Some l \<Rightarrow> snd (cpumask_parse_user l (cpus_clear CPU_MASK_NONE))))"

definition device_node :: "world \<Rightarrow> string option \<Rightarrow> sys \<Rightarrow> int" where
  "device_node w devpath s =
     (if numa_avail s then (case contents w (devpath_text devpath @ ''/numa_node'') of
        None \<Rightarrow> -1 | Some c \<Rightarrow> (case scan_d c of None \<Rightarrow> -1 | Some n \<Rightarrow> n))
      else -1)"

text \<open>The result is \<open>NULL\<close> for an irq that is known already or banned.\<close>

definition add_one_irq_to_db ::
  "allocator \<Rightarrow> world \<Rightarrow> string option \<Rightarrow> int \<Rightarrow> user_irq_policy \<Rightarrow> sys \<Rightarrow> (addr \<times> sys) option" where
  "add_one_irq_to_db alloc w devpath n pol s = do {
     entry \<leftarrow> find_custom (compare_ints s n) (interrupts_db s);
     if entry \<noteq> None then Some (NULL, s)
     else do {
       b \<leftarrow> is_banned_irq n s;
       let new = alloc s;
       if b \<or> new = NULL then Some (NULL, s)
       else do {
         (c, l) \<leftarrow> new_class_level w devpath pol;
         node \<leftarrow> get_numa_node (if numa_node_set pol = 1 then pol_numa_node pol else device_node w devpath s) s;
         let i = zero_irq\<lparr>irq := n, i_class := c, hint_policy := hintpolicy pol, level := l, numa_node := node,
                   cpumask := local_cpus w devpath, affinity_hint := read_affinity_hint w n\<rparr>;
         Some (new, s\<lparr>irqs := (irqs s)(new \<mapsto> i), interrupts_db := interrupts_db s @ [new]\<rparr>)
       }
     }
   }"

definition SYSDEV_DIR :: string where
  "SYSDEV_DIR = ''/sys/bus/pci/devices''"

text \<open>One irq of a device, the same steps for an MSI and a legacy irq.\<close>

definition dev_irq :: "allocator \<Rightarrow> world \<Rightarrow> string \<Rightarrow> int \<Rightarrow> irq_info list \<Rightarrow> int \<Rightarrow> sys \<Rightarrow> sys option" where
  "dev_irq alloc w devpath ty tmp_irqs n s = do {
     new \<leftarrow> get_irq_info n s;
     if new \<noteq> None then Some s
     else do {
       pol \<leftarrow> get_irq_user_policy w (Some devpath) n s;
       b \<leftarrow> (if ban pol = 1 then Some True else check_for_irq_ban n tmp_irqs s);
       if b then add_banned_irq alloc n Banned s
       else do {
         (new, s) \<leftarrow> add_one_irq_to_db alloc w (Some devpath) n pol s;
         if new = NULL then Some s else upd_irq new (\<lambda>i. i\<lparr>i_type := ty\<rparr>) s
       }
     }
   }"

text \<open>\<open>fscanf\<close> returns a negative number only at the end of the file; text that is not a number leaves
  \<open>irqnum\<close> uninitialised.\<close>

definition build_one_dev_entry :: "allocator \<Rightarrow> world \<Rightarrow> irq_info list \<Rightarrow> string \<Rightarrow> sys \<Rightarrow> sys option" where
  "build_one_dev_entry alloc w tmp_irqs dirname s =
     (let devpath = SYSDEV_DIR @ ''/'' @ dirname
      in case entries w (devpath @ ''/msi_irqs'') of
           Some es \<Rightarrow> for_each (\<lambda>(d_name, _) s.
             let n = strtol_int d_name
             in if n \<noteq> 0 then dev_irq alloc w devpath IRQ_TYPE_MSIX tmp_irqs n s else Some s) es s
         | None \<Rightarrow> (case contents w (devpath @ ''/irq'') of
             None \<Rightarrow> Some s
           | Some c \<Rightarrow>
               if dropWhile isspace c = [] then Some s
               else case scan_d c of None \<Rightarrow> None
                 | Some n \<Rightarrow> if n \<noteq> 0 then dev_irq alloc w devpath IRQ_TYPE_LEGACY tmp_irqs n s else Some s))"

definition free_irq_db :: "sys \<Rightarrow> sys option" where
  "free_irq_db s = do {
     s \<leftarrow> for_each_irq [] free_irq s;
     let s = s\<lparr>interrupts_db := []\<rparr>;
     s \<leftarrow> for_each_irq (banned_irqs s) free_irq s;
     Some (s\<lparr>banned_irqs := [], rebalance_irq_list := []\<rparr>)
   }"

text \<open>
  At the end of the program; a name that is not at the start of its block must not be passed to \<open>free\<close>.
  The variables keep their dangling pointers.
\<close>

definition free_cl_opts :: "sys \<Rightarrow> sys option" where
  "free_cl_opts s = do {
     s \<leftarrow> for_each free_irq (cl_banned_irqs s) s;
     if list_all snd (banned_irq_names s) then Some s else None
   }"

definition add_new_irq :: "allocator \<Rightarrow> world \<Rightarrow> int \<Rightarrow> irq_info \<Rightarrow> irq_info list \<Rightarrow> sys \<Rightarrow> sys option" where
  "add_new_irq alloc w n hint proc_interrupts s = do {
     new \<leftarrow> get_irq_info n s;
     if new \<noteq> None then Some s
     else do {
       name \<leftarrow> i_name hint;
       if is_banned_irq_name name s then Some s
       else do {
         pol \<leftarrow> get_irq_user_policy w None n s;
         b \<leftarrow> (if ban pol = 1 then Some True else check_for_irq_ban n proc_interrupts s);
         (new, s) \<leftarrow> (if b then do {
              s \<leftarrow> add_banned_irq alloc n Banned s;
              e \<leftarrow> get_irq_info n s;
              Some (case e of None \<Rightarrow> NULL | Some a \<Rightarrow> a, s)
            }
            else add_one_irq_to_db alloc w None n pol s);
         if new = NULL then Some s
         else do {
           s \<leftarrow> upd_irq new (\<lambda>i. i\<lparr>i_type := i_type hint, i_class := i_class hint\<rparr>) s;
           i \<leftarrow> irqs s new;
           lv \<leftarrow> class_level (i_class i);
           upd_irq new (\<lambda>i. i\<lparr>level := lv\<rparr>) s
         }
       }
     }
   }"

definition add_missing_irq :: "allocator \<Rightarrow> world \<Rightarrow> irq_info list \<Rightarrow> irq_info \<Rightarrow> sys \<Rightarrow> sys option" where
  "add_missing_irq alloc w proc_interrupts i s = do {
     lookup \<leftarrow> get_irq_info (irq i) s;
     if lookup = None then add_new_irq alloc w (irq i) i proc_interrupts s else Some s
   }"

text \<open>
  The traversal of \<open>tmp_irqs\<close> with \<open>add_missing_irq\<close>: an empty list makes \<open>for_each_irq\<close> traverse
  the data base. The argument of the handler is \<open>interrupts_db\<close>, so a handler sees the descriptors
  that are in the data base when it runs, or none if the data base was empty at the start.
\<close>

definition add_missing_irqs :: "allocator \<Rightarrow> world \<Rightarrow> irq_info list \<Rightarrow> sys \<Rightarrow> sys option" where
  "add_missing_irqs alloc w tmp_irqs s =
     (let db = (\<lambda>t. if interrupts_db s = [] then Some [] else those (map (irqs t) (interrupts_db t)))
      in if tmp_irqs \<noteq> [] then for_each (\<lambda>i t. do { p \<leftarrow> db t; add_missing_irq alloc w p i t }) tmp_irqs s
         else for_each (\<lambda>a t. do { p \<leftarrow> db t; i \<leftarrow> irqs t a; add_missing_irq alloc w p i t }) (interrupts_db s) s)"

definition rebuild_irq_db :: "allocator \<Rightarrow> world \<Rightarrow> sys \<Rightarrow> sys option" where
  "rebuild_irq_db alloc w s = do {
     s \<leftarrow> free_irq_db s;
     tmp_irqs \<leftarrow> collect_full_irq_list w (global_hint_policy s);
     case entries w SYSDEV_DIR of
       None \<Rightarrow> Some s
     | Some es \<Rightarrow> do {
         s \<leftarrow> for_each (\<lambda>(d_name, _). build_one_dev_entry alloc w tmp_irqs d_name) es s;
         add_missing_irqs alloc w tmp_irqs s
       }
   }"

end
