(* ===== verification/Irqdb.thy ===== *)
theory Irqdb
  imports Classify
begin

text \<open>
  Proofs about \<open>classify.c\<close>: classes and levels stay in range, the invariant of the data base while it is
  built, and what \<open>rebuild_irq_db\<close> leaves in it, for a system without numa support.
\<close>

section \<open>Classes and levels are in range\<close>

lemma code_tables:
  "n < length major_class_codes \<Longrightarrow> -1 \<le> major_class_codes ! n \<and> major_class_codes ! n < 8"
  "n < length serial_sub_codes \<Longrightarrow> -1 \<le> serial_sub_codes ! n \<and> serial_sub_codes ! n < 8"
proof -
  have "\<forall>c \<in> set major_class_codes. -1 \<le> c \<and> c < 8" "\<forall>c \<in> set serial_sub_codes. -1 \<le> c \<and> c < 8"
    by (auto simp: major_class_codes_def serial_sub_codes_def irq_classes)
  then show "n < length major_class_codes \<Longrightarrow> -1 \<le> major_class_codes ! n \<and> major_class_codes ! n < 8"
    "n < length serial_sub_codes \<Longrightarrow> -1 \<le> serial_sub_codes ! n \<and> serial_sub_codes ! n < 8"
    using nth_mem by blast+
qed

lemma map_pci_irq_class_range: "-1 \<le> map_pci_irq_class c \<and> map_pci_irq_class c < 8"
proof -
  have "unat (drop_bit 16 c) < length major_class_codes" if "\<not> 0x14 \<le> drop_bit 16 c"
    using that by (simp add: major_class_codes_def word_le_nat_alt)
  moreover have "unat (drop_bit 8 (c AND 0xFF00)) < length serial_sub_codes" if "\<not> 0x81 \<le> drop_bit 8 (c AND 0xFF00)"
    using that by (simp add: serial_sub_codes_def word_le_nat_alt)
  ultimately show ?thesis using code_tables by (auto simp: map_pci_irq_class_def Let_def IRQ_NODEF_def)
qed

lemma get_irq_class_range: "get_irq_class w p = -1 \<or> class_ok (get_irq_class w p)"
proof (cases "get_pci_info w p")
  case None
  then show ?thesis by (simp add: get_irq_class_def IRQ_NODEF_def)
next
  case (Some pci)
  then show ?thesis using map_pci_irq_class_range [of "pci_class pci"]
    by (auto simp: get_irq_class_def apply_pci_quirks_def Let_def class_ok_def IRQ_NODEF_def IRQ_SCSI_def)
qed

lemma class_level_ok: "class_ok c \<Longrightarrow> \<exists>l. class_level c = Some l \<and> 1 \<le> l \<and> l \<le> 3"
proof -
  assume "class_ok c"
  then have c: "0 \<le> c" "nat c < length map_class_to_level" by (auto simp: class_ok_def map_class_to_level_def nat_less_iff)
  have "\<forall>l \<in> set map_class_to_level. 1 \<le> l \<and> l \<le> 3" by (simp add: map_class_to_level_def)
  with nth_mem [OF c(2)] \<open>class_ok c\<close> show ?thesis by (simp add: class_level_def class_ok_def)
qed

definition policy_ok :: "hp_e set \<Rightarrow> user_irq_policy \<Rightarrow> bool" where
  "policy_ok H pol \<longleftrightarrow> -1 \<le> pol_level pol \<and> pol_level pol \<le> 3 \<and> hintpolicy pol \<in> H"

text \<open>A line of the policy script that sets no hint policy outside \<open>H\<close>, and a script that prints only such lines.\<close>

definition hint_line :: "hp_e set \<Rightarrow> string \<Rightarrow> bool" where
  "hint_line H buf \<longleftrightarrow> (strcaseeq ''hintpolicy'' (takeWhile (\<lambda>c. c \<noteq> CHR ''='') buf) \<longrightarrow>
     (let val = takeWhile (\<lambda>c. c \<noteq> newline) (tl (dropWhile (\<lambda>c. c \<noteq> CHR ''='') buf))
      in (strcaseeq ''exact'' val \<longrightarrow> HINT_POLICY_EXACT \<in> H) \<and> (strcaseeq ''subset'' val \<longrightarrow> HINT_POLICY_SUBSET \<in> H)
         \<and> (strcaseeq ''ignore'' val \<longrightarrow> HINT_POLICY_IGNORE \<in> H)))"

definition script_ok :: "hp_e set \<Rightarrow> world \<Rightarrow> bool" where
  "script_ok H w \<longleftrightarrow> (\<forall>run p n bufs. polscript w = Some run \<longrightarrow> run p n = Some bufs \<longrightarrow> (\<forall>buf \<in> set bufs. hint_line H (c_string buf)))"

lemma script_ok_UNIV [simp]: "script_ok UNIV w"
  by (simp add: script_ok_def hint_line_def Let_def)

lemma script_ok_None [simp]: "polscript w = None \<Longrightarrow> script_ok H w"
  by (simp add: script_ok_def)

lemma parse_user_policy_key_ok:
  assumes "policy_ok H pol" "\<not> numa_avail s" "hint_line H buf"
  shows "\<exists>pol'. parse_user_policy_key buf s pol = Some pol' \<and> policy_ok H pol'"
  using assms by (auto simp: parse_user_policy_key_def hint_line_def Let_def get_numa_node_def policy_ok_def)

lemma get_irq_user_policy_ok:
  assumes "global_hint_policy s \<in> H" "script_ok H w" "\<not> numa_avail s"
  shows "\<exists>pol. get_irq_user_policy w p n s = Some pol \<and> policy_ok H pol"
proof -
  let ?p = "\<lparr>ban = -1, pol_level = -1, numa_node_set = -1, pol_numa_node = -1, hintpolicy = global_hint_policy s\<rparr>"
  have p: "policy_ok H ?p" using assms(1) by (simp add: policy_ok_def)
  have run: "\<exists>pol. for_each (\<lambda>buf pol. parse_user_policy_key (c_string buf) s pol) bufs ?p = Some pol \<and> policy_ok H pol"
    if "polscript w = Some run" "run q n = Some bufs" for run q bufs
    by (rule for_each_total_inv [of "policy_ok H", OF p]) (use parse_user_policy_key_ok assms(2,3) that in \<open>auto simp: script_ok_def\<close>)
  show ?thesis
  proof (cases "polscript w")
    case (Some script)
    then show ?thesis using p run
      by (cases "script (case p of None \<Rightarrow> SYSFS_DIR | Some p \<Rightarrow> p) n") (simp_all add: get_irq_user_policy_def)
  qed (use p in \<open>simp add: get_irq_user_policy_def\<close>)
qed

lemma new_class_level_ok:
  assumes "policy_ok H pol"
  shows "\<exists>c l. new_class_level w p pol = Some (c, l) \<and> 0 \<le> l \<and> l \<le> 3 \<and> class_ok c"
proof -
  let ?c = "case p of None \<Rightarrow> IRQ_OTHER | Some p \<Rightarrow> get_irq_class w p"
  have "?c < 0 \<or> class_ok ?c"
  proof (cases p)
    case None
    then show ?thesis by (simp add: class_ok_def IRQ_OTHER_def)
  next
    case (Some q)
    then show ?thesis using get_irq_class_range [of w q] by auto
  qed
  then show ?thesis
  proof
    assume "?c < 0"
    then show ?thesis by (simp add: new_class_level_def Let_def class_ok_def IRQ_OTHER_def)
  next
    assume c: "class_ok ?c"
    then have "\<not> ?c < 0" by (simp add: class_ok_def)
    with class_level_ok [OF c] assms c show ?thesis by (fastforce simp: new_class_level_def Let_def policy_ok_def)
  qed
qed

section \<open>The invariant of the data base\<close>

definition nums :: "sys \<Rightarrow> addr list \<Rightarrow> int set" where
  "nums s xs = {n. \<exists>a \<in> set xs. map_option irq (irqs s a) = Some n}"

definition int32 :: "int \<Rightarrow> bool" where
  "int32 n \<longleftrightarrow> - (2 ^ 31) \<le> n \<and> n < 2 ^ 31"

definition irqs_valid :: "sys \<Rightarrow> addr list \<Rightarrow> bool" where
  "irqs_valid s xs \<longleftrightarrow> (\<forall>a \<in> set xs. \<exists>i. irqs s a = Some i \<and> int32 (irq i))"

lemma find_num:
  assumes "irqs_valid s xs" "int32 n"
  shows "\<exists>r. find_custom (compare_ints s n) xs = Some r
    \<and> (case r of None \<Rightarrow> n \<notin> nums s xs | Some a \<Rightarrow> a \<in> set xs \<and> map_option irq (irqs s a) = Some n)"
  using assms(1)
proof (induction xs)
  case Nil
  show ?case by (simp add: nums_def)
next
  case (Cons a xs)
  then obtain i where i: "irqs s a = Some i" "int32 (irq i)" by (auto simp: irqs_valid_def)
  have z: "sint (of_int (irq i) - of_int n :: c_int) = 0 \<longleftrightarrow> irq i = n"
    using int32_diff_zero i(2) assms(2) by (simp add: int32_def)
  have "irqs_valid s xs" using Cons.prems by (simp add: irqs_valid_def)
  with Cons.IH obtain r where r: "find_custom (compare_ints s n) xs = Some r"
    "case r of None \<Rightarrow> n \<notin> nums s xs | Some a \<Rightarrow> a \<in> set xs \<and> map_option irq (irqs s a) = Some n" by blast
  have ca: "compare_ints s n a = Some (sint (of_int (irq i) - of_int n :: c_int))" using i(1) by (simp add: compare_ints_def)
  show ?case
  proof (cases "irq i = n")
    case True
    with ca z i(1) show ?thesis by simp
  next
    case False
    with ca z have "find_custom (compare_ints s n) (a # xs) = Some r" using r(1) by simp
    with r(2) False i(1) show ?thesis by (cases r) (auto simp: nums_def)
  qed
qed

text \<open>
  The data base while it is built, on a system without numa support: the three lists hold distinct
  valid descriptors; an irq of the data base is unassigned, has a level and one of the hint policies \<open>H\<close>,
  its number is the number of no other irq of the data base and of no banned irq.
\<close>

definition db_irq_ok :: "hp_e set \<Rightarrow> irq_info \<Rightarrow> bool" where
  "db_irq_ok H i \<longleftrightarrow> numa_node i = unspecified_node \<and> assigned_obj i = NULL \<and> 0 \<le> level i \<and> level i \<le> 3
     \<and> i_irq_count i = 0 \<and> last_irq_count i = 0 \<and> hint_policy i \<in> H \<and> class_ok (i_class i)"

definition db_ok :: "hp_e set \<Rightarrow> nat \<Rightarrow> sys \<Rightarrow> bool" where
  "db_ok H k s \<longleftrightarrow> finite (dom (objs s)) \<and> finite (dom (irqs s)) \<and> irqs s NULL = None
     \<and> \<not> numa_avail s \<and> objs s unspecified_node \<noteq> None
     \<and> distinct (interrupts_db s @ banned_irqs s @ cl_banned_irqs s)
     \<and> irqs_valid s (interrupts_db s @ banned_irqs s @ cl_banned_irqs s)
     \<and> (\<forall>a \<in> set (interrupts_db s). \<forall>i. irqs s a = Some i \<longrightarrow> db_irq_ok H i)
     \<and> inj_on (\<lambda>a. map_option irq (irqs s a)) (set (interrupts_db s))
     \<and> nums s (interrupts_db s) \<inter> nums s (banned_irqs s @ cl_banned_irqs s) = {}
     \<and> length (interrupts_db s) \<le> k \<and> counts_ok s"

text \<open>What building the data base leaves alone.\<close>

definition no_db :: "sys \<Rightarrow> sys" where
  "no_db s = s\<lparr>irqs := Map.empty, interrupts_db := [], banned_irqs := []\<rparr>"

lemma no_db_eqD:
  assumes "no_db s' = no_db s"
  shows "objs s' = objs s" "cl_banned_irqs s' = cl_banned_irqs s" "global_hint_policy s' = global_hint_policy s"
    "numa_avail s' = numa_avail s" "banned_irq_names s' = banned_irq_names s"
proof -
  have "objs (no_db s') = objs (no_db s)" "cl_banned_irqs (no_db s') = cl_banned_irqs (no_db s)"
    "global_hint_policy (no_db s') = global_hint_policy (no_db s)" "numa_avail (no_db s') = numa_avail (no_db s)"
    "banned_irq_names (no_db s') = banned_irq_names (no_db s)"
    using assms by simp_all
  then show "objs s' = objs s" "cl_banned_irqs s' = cl_banned_irqs s" "global_hint_policy s' = global_hint_policy s"
    "numa_avail s' = numa_avail s" "banned_irq_names s' = banned_irq_names s"
    by (simp_all add: no_db_def)
qed

lemma db_fresh:
  assumes "sys_allocates alloc" "db_ok H k s"
  shows "alloc s \<noteq> NULL" "irqs s (alloc s) = None"
    "alloc s \<notin> set (interrupts_db s @ banned_irqs s @ cl_banned_irqs s)"
proof -
  show "alloc s \<noteq> NULL" and n: "irqs s (alloc s) = None" using assms unfolding sys_allocates_def db_ok_def by blast+
  have v: "irqs_valid s (interrupts_db s @ banned_irqs s @ cl_banned_irqs s)" using assms(2) by (simp add: db_ok_def)
  show "alloc s \<notin> set (interrupts_db s @ banned_irqs s @ cl_banned_irqs s)"
    using v n unfolding irqs_valid_def by fastforce
qed

lemma nums_upd [simp]: "a \<notin> set xs \<Longrightarrow> nums (s\<lparr>irqs := (irqs s)(a \<mapsto> i)\<rparr>) xs = nums s xs"
  by (auto simp: nums_def)

lemma nums_cong: "\<forall>b \<in> set xs. irqs s' b = irqs s b \<Longrightarrow> nums s' xs = nums s xs"
  by (simp add: nums_def)

lemma nums_Nil [simp]: "nums s [] = {}"
  by (simp add: nums_def)

lemma nums_Cons [simp]: "nums s (a # xs) = (case irqs s a of None \<Rightarrow> nums s xs | Some i \<Rightarrow> insert (irq i) (nums s xs))"
  by (auto simp: nums_def split: option.split)

lemma nums_append [simp]: "nums s (xs @ ys) = nums s xs \<union> nums s ys"
  by (auto simp: nums_def)

lemma irqs_valid_alt: "irqs_valid s xs \<longleftrightarrow> (\<forall>a \<in> set xs. \<exists>n. map_option irq (irqs s a) = Some n \<and> int32 n)"
  by (auto simp: irqs_valid_def)

lemma irqs_valid_append [simp]: "irqs_valid s (xs @ ys) \<longleftrightarrow> irqs_valid s xs \<and> irqs_valid s ys"
  by (auto simp: irqs_valid_def)

lemma irqs_valid_upd: "irqs_valid s xs \<Longrightarrow> int32 (irq i) \<Longrightarrow> irqs_valid (s\<lparr>irqs := (irqs s)(a \<mapsto> i)\<rparr>) xs"
  by (auto simp: irqs_valid_def)

lemma counts_ok_upd:
  assumes "counts_ok s" "last_irq_count i \<le> i_irq_count i" "irqs s' = (irqs s)(a \<mapsto> i)"
  shows "counts_ok s'"
  using assms by (auto simp: counts_ok_def split: if_splits)

text \<open>A new descriptor at a fresh address, for the data base or for the banned irqs.\<close>

lemma db_add:
  assumes d: "db_ok H k s" and f: "a \<noteq> NULL" "a \<notin> set (interrupts_db s @ banned_irqs s @ cl_banned_irqs s)"
    and i: "int32 (irq i)" "db_irq_ok H i" and n: "irq i \<notin> nums s (interrupts_db s @ banned_irqs s @ cl_banned_irqs s)"
  shows "db_ok H (Suc k) (s\<lparr>irqs := (irqs s)(a \<mapsto> i), interrupts_db := interrupts_db s @ [a]\<rparr>)"
proof -
  let ?s = "s\<lparr>irqs := (irqs s)(a \<mapsto> i), interrupts_db := interrupts_db s @ [a]\<rparr>"
  have nm: "nums ?s xs = nums s xs" if "a \<notin> set xs" for xs using that by (auto simp: nums_def)
  have na: "nums ?s [a] = {irq i}" by (auto simp: nums_def)
  have "inj_on (\<lambda>b. map_option irq (irqs ?s b)) (set (interrupts_db s))"
    using d f(2) by (auto simp: db_ok_def inj_on_def)
  moreover have "map_option irq (irqs ?s b) \<noteq> map_option irq (irqs ?s a)" if "b \<in> set (interrupts_db s)" for b
  proof -
    have "b \<noteq> a" using that f(2) by auto
    moreover have "map_option irq (irqs s b) \<noteq> Some (irq i)" using n that unfolding nums_append by (simp add: nums_def)
    ultimately show ?thesis by simp
  qed
  ultimately have inj: "inj_on (\<lambda>b. map_option irq (irqs ?s b)) (set (interrupts_db ?s))"
    unfolding inj_on_def by (simp del: fun_upd_apply) metis
  have iv: "irqs_valid ?s (interrupts_db ?s @ banned_irqs ?s @ cl_banned_irqs ?s)"
    using d i(1) unfolding db_ok_def irqs_valid_def by auto
  have co: "counts_ok ?s" by (rule counts_ok_upd [of s i _ a]) (use d i in \<open>simp_all add: db_ok_def db_irq_ok_def\<close>)
  show ?thesis
    using d f i inj iv n nm [of "interrupts_db s"] nm [of "banned_irqs s"] nm [of "cl_banned_irqs s"] na co
    unfolding db_ok_def by auto
qed

lemma db_ban:
  assumes d: "db_ok H k s" and f: "a \<noteq> NULL" "a \<notin> set (interrupts_db s @ banned_irqs s @ cl_banned_irqs s)"
    and i: "int32 (irq i)" "last_irq_count i \<le> i_irq_count i" and n: "irq i \<notin> nums s (interrupts_db s)"
  shows "db_ok H k (s\<lparr>irqs := (irqs s)(a \<mapsto> i), banned_irqs := banned_irqs s @ [a]\<rparr>)"
proof -
  let ?s = "s\<lparr>irqs := (irqs s)(a \<mapsto> i), banned_irqs := banned_irqs s @ [a]\<rparr>"
  have nm: "nums ?s xs = nums s xs" if "a \<notin> set xs" for xs using that by (auto simp: nums_def)
  have na: "nums ?s [a] = {irq i}" by (auto simp: nums_def)
  have inj: "inj_on (\<lambda>b. map_option irq (irqs ?s b)) (set (interrupts_db ?s))"
    using d f(2) by (auto simp: db_ok_def inj_on_def)
  have iv: "irqs_valid ?s (interrupts_db ?s @ banned_irqs ?s @ cl_banned_irqs ?s)"
    using d i unfolding db_ok_def irqs_valid_def by auto
  have co: "counts_ok ?s" by (rule counts_ok_upd [of s i _ a]) (use d i in \<open>simp_all add: db_ok_def\<close>)
  show ?thesis
    using d f i inj iv n nm [of "interrupts_db s"] nm [of "banned_irqs s"] nm [of "cl_banned_irqs s"] na co
    unfolding db_ok_def by auto
qed

text \<open>Changing a descriptor that keeps its number.\<close>

lemma db_upd:
  assumes d: "db_ok H k s" and a: "irqs s a = Some i" "irq i' = irq i" "last_irq_count i' = last_irq_count i" "i_irq_count i' = i_irq_count i"
    and i': "a \<in> set (interrupts_db s) \<Longrightarrow> db_irq_ok H i'"
  shows "db_ok H k (s\<lparr>irqs := (irqs s)(a \<mapsto> i')\<rparr>)"
proof -
  let ?s = "s\<lparr>irqs := (irqs s)(a \<mapsto> i')\<rparr>"
  have m: "map_option irq (irqs ?s b) = map_option irq (irqs s b)" for b using a by simp
  have nm: "nums ?s xs = nums s xs" for xs unfolding nums_def m ..
  have iv: "irqs_valid ?s xs \<longleftrightarrow> irqs_valid s xs" for xs unfolding irqs_valid_alt m ..
  have ne: "irqs ?s NULL = None" using d a by (auto simp: db_ok_def)
  have co: "counts_ok ?s" by (rule counts_ok_upd [of s i' _ a]) (use d a in \<open>simp_all add: db_ok_def counts_ok_def\<close>)
  show ?thesis using d i' ne co unfolding db_ok_def nm iv m by auto
qed

lemma db_mono: "db_ok H k s \<Longrightarrow> k \<le> l \<Longrightarrow> db_ok H l s"
  by (auto simp: db_ok_def)

lemma db_valid:
  assumes "db_ok H k s"
  shows "irqs_valid s (interrupts_db s)" "irqs_valid s (banned_irqs s)" "irqs_valid s (cl_banned_irqs s)"
  using assms by (simp_all add: db_ok_def)

text \<open>The numbers that are in the data base or banned.\<close>

definition known :: "sys \<Rightarrow> int set" where
  "known s = nums s (interrupts_db s @ banned_irqs s)"

lemma get_irq_info_known:
  assumes "db_ok H k s" "int32 n"
  shows "\<exists>r. get_irq_info n s = Some r \<and> (r = None \<longleftrightarrow> n \<notin> known s)
    \<and> (\<forall>a. r = Some a \<longrightarrow> a \<in> set (interrupts_db s @ banned_irqs s) \<and> map_option irq (irqs s a) = Some n)"
proof -
  note v = db_valid [OF assms(1)]
  have k: "n \<in> known s" if "a \<in> set (interrupts_db s @ banned_irqs s)" "map_option irq (irqs s a) = Some n" for a
    using that unfolding known_def nums_def by blast
  obtain r1 r2 where r: "find_custom (compare_ints s n) (interrupts_db s) = Some r1"
      "case r1 of None \<Rightarrow> n \<notin> nums s (interrupts_db s) | Some a \<Rightarrow> a \<in> set (interrupts_db s) \<and> map_option irq (irqs s a) = Some n"
      "find_custom (compare_ints s n) (banned_irqs s) = Some r2"
      "case r2 of None \<Rightarrow> n \<notin> nums s (banned_irqs s) | Some a \<Rightarrow> a \<in> set (banned_irqs s) \<and> map_option irq (irqs s a) = Some n"
    using find_num [OF v(1) assms(2)] find_num [OF v(2) assms(2)] by blast
  show ?thesis
  proof (cases r1)
    case (Some a)
    then show ?thesis using r k [of a] by (simp add: get_irq_info_def)
  next
    case None
    note n1 = this
    show ?thesis
    proof (cases r2)
      case None
      then show ?thesis using r n1 by (simp add: get_irq_info_def known_def)
    next
      case (Some a)
      then show ?thesis using r n1 k [of a] by (simp add: get_irq_info_def)
    qed
  qed
qed

lemma add_banned_irq_ok:
  assumes al: "sys_allocates alloc" and d: "db_ok H k s" and n: "int32 n" "n \<notin> known s"
  shows "\<exists>s'. add_banned_irq alloc n Banned s = Some s' \<and> db_ok H k s' \<and> no_db s' = no_db s \<and> known s' = insert n (known s)
    \<and> interrupts_db s' = interrupts_db s \<and> banned_irqs s' = banned_irqs s @ [alloc s]
    \<and> get_irq_info n s' = Some (Some (alloc s)) \<and> map_option irq (irqs s' (alloc s)) = Some n \<and> alloc s \<noteq> NULL"
proof -
  have nn: "n \<notin> nums s (banned_irqs s)" "n \<notin> nums s (interrupts_db s)" using n(2) by (simp_all add: known_def)
  note f = db_fresh [OF al d]
  obtain r where "find_custom (compare_ints s n) (banned_irqs s) = Some r"
    "case r of None \<Rightarrow> n \<notin> nums s (banned_irqs s) | Some a \<Rightarrow> a \<in> set (banned_irqs s) \<and> map_option irq (irqs s a) = Some n"
    using find_num [OF db_valid(2) [OF d] n(1)] by blast
  then have r: "find_custom (compare_ints s n) (banned_irqs s) = Some None"
    using nn(1) by (cases r) (auto simp: nums_def)
  let ?i = "zero_irq\<lparr>irq := n, flags := IRQ_FLAG_BANNED, hint_policy := HINT_POLICY_EXACT\<rparr>"
  let ?s = "s\<lparr>irqs := (irqs s)(alloc s \<mapsto> ?i), banned_irqs := banned_irqs s @ [alloc s]\<rparr>"
  have "db_ok H k ?s" by (rule db_ban [OF d f(1,3)]) (use n(1) nn(2) in \<open>simp_all add: zero_irq_def\<close>)
  moreover have "add_banned_irq alloc n Banned s = Some ?s"
    using r f(1) by (simp add: add_banned_irq_def ban_get_def ban_put_def Let_def)
  moreover have "known ?s = insert n (known s)"
  proof -
    have "nums ?s xs = nums s xs" if "alloc s \<notin> set xs" for xs using that by (intro nums_cong) auto
    then show ?thesis using f(3) by (simp add: known_def Un_commute)
  qed
  moreover have "get_irq_info n ?s = Some (Some (alloc s))"
  proof -
    obtain b where b: "get_irq_info n ?s = Some (Some b)" "b \<in> set (interrupts_db s @ banned_irqs s @ [alloc s])"
      "map_option irq (irqs ?s b) = Some n"
      using get_irq_info_known [OF \<open>db_ok H k ?s\<close> n(1)] unfolding \<open>known ?s = insert n (known s)\<close> by auto
    then have "b = alloc s" using nn f(3) by (auto simp: nums_def split: if_splits)
    with b(1) show ?thesis by simp
  qed
  ultimately show ?thesis using f(1) by (simp add: no_db_def)
qed

lemma check_for_irq_ban_ok:
  assumes d: "db_ok H k s" and n: "int32 n" and p: "\<forall>i \<in> set proc. int32 (irq i) \<and> (irq i = n \<longrightarrow> i_name i \<noteq> None)"
  shows "\<exists>b. check_for_irq_ban n proc s = Some b \<and> (\<not> b \<longrightarrow> n \<notin> nums s (cl_banned_irqs s))"
proof -
  obtain r where r: "find_custom (compare_ints s n) (cl_banned_irqs s) = Some r"
    "case r of None \<Rightarrow> n \<notin> nums s (cl_banned_irqs s) | Some a \<Rightarrow> a \<in> set (cl_banned_irqs s) \<and> map_option irq (irqs s a) = Some n"
    using find_num [OF db_valid(3) [OF d] n] by blast
  let ?f = "List.find (\<lambda>i. sint (of_int (irq i) - of_int n :: c_int) = 0) proc"
  have "i_name i \<noteq> None" if "?f = Some i" for i
  proof -
    have i: "i \<in> set proc" "sint (of_int (irq i) - of_int n :: c_int) = 0" using that by (auto simp: find_Some_iff)
    then have "irq i = n" using int32_diff_zero [of "irq i" n] n p by (auto simp: int32_def)
    with p i(1) show ?thesis by blast
  qed
  then have nm: "\<exists>m. i_name i = Some m" if "?f = Some i" for i using that by blast
  show ?thesis
  proof (cases "r = None \<and> ?f \<noteq> None")
    case True
    then obtain i m where "?f = Some i" "i_name i = Some m" using nm by blast
    with True r show ?thesis by (cases "cl_banned_modules s = []") (auto simp: check_for_irq_ban_def)
  next
    case False
    with r show ?thesis by (cases r) (auto simp: check_for_irq_ban_def)
  qed
qed

lemma add_one_irq_to_db_ok:
  assumes al: "sys_allocates alloc" and d: "db_ok H k s" and n: "int32 n" "n \<notin> known s" "n \<notin> nums s (cl_banned_irqs s)"
    and pol: "policy_ok H pol"
  shows "\<exists>a i s'. add_one_irq_to_db alloc w p n pol s = Some (a, s') \<and> db_ok H (Suc k) s' \<and> no_db s' = no_db s
    \<and> known s' = insert n (known s) \<and> a \<noteq> NULL \<and> irqs s' a = Some i \<and> db_irq_ok H i \<and> irq i = n
    \<and> interrupts_db s' = interrupts_db s @ [a] \<and> banned_irqs s' = banned_irqs s \<and> new_class_level w p pol = Some (i_class i, level i)"
proof -
  have nn: "n \<notin> nums s (banned_irqs s)" "n \<notin> nums s (interrupts_db s)" using n(2) by (simp_all add: known_def)
  note f = db_fresh [OF al d]
  have none: "find_custom (compare_ints s n) xs = Some None" if "irqs_valid s xs" "n \<notin> nums s xs" for xs
    using find_num [OF that(1) n(1)] that(2) by (auto simp: nums_def split: option.splits)
  have fn: "find_custom (compare_ints s n) (interrupts_db s) = Some None" "is_banned_irq n s = Some False"
    using none [OF db_valid(1) [OF d] nn(2)] none [OF db_valid(2) [OF d] nn(1)] by (simp_all add: is_banned_irq_def)
  obtain c l where cl: "new_class_level w p pol = Some (c, l)" "0 \<le> l" "l \<le> 3" "class_ok c" using new_class_level_ok [OF pol] by blast
  have nd: "get_numa_node m s = Some unspecified_node" for m using d by (simp add: get_numa_node_def db_ok_def)
  let ?i = "zero_irq\<lparr>irq := n, i_class := c, hint_policy := hintpolicy pol, level := l, numa_node := unspecified_node,
    cpumask := local_cpus w p, affinity_hint := read_affinity_hint w n\<rparr>"
  let ?s = "s\<lparr>irqs := (irqs s)(alloc s \<mapsto> ?i), interrupts_db := interrupts_db s @ [alloc s]\<rparr>"
  have i: "db_irq_ok H ?i" using cl pol by (simp add: db_irq_ok_def policy_ok_def zero_irq_def)
  have "db_ok H (Suc k) ?s" by (rule db_add [OF d f(1,3) _ i]) (use n nn in simp_all)
  moreover have "add_one_irq_to_db alloc w p n pol s = Some (alloc s, ?s)"
    using fn f(1) cl nd by (simp add: add_one_irq_to_db_def Let_def)
  moreover have "known ?s = insert n (known s)"
  proof -
    have "nums ?s xs = nums s xs" if "alloc s \<notin> set xs" for xs using that by (intro nums_cong) auto
    then show ?thesis using f(3) by (auto simp: known_def)
  qed
  ultimately show ?thesis using i f(1) cl(1) by (simp add: no_db_def)
qed

lemma db_upd_known:
  assumes "irqs s a = Some i" "irq i' = irq i"
  shows "known (s\<lparr>irqs := (irqs s)(a \<mapsto> i')\<rparr>) = known s"
proof -
  have "map_option irq (irqs (s\<lparr>irqs := (irqs s)(a \<mapsto> i')\<rparr>) b) = map_option irq (irqs s b)" for b using assms by simp
  then show ?thesis unfolding known_def nums_def by (simp del: fun_upd_apply)
qed

text \<open>The conditions on the policies and the list of irqs that all steps share.\<close>

definition policies_ok :: "hp_e set \<Rightarrow> world \<Rightarrow> sys \<Rightarrow> bool" where
  "policies_ok H w s \<longleftrightarrow> global_hint_policy s \<in> H \<and> script_ok H w"

lemma user_policy_ok: "db_ok H k s \<Longrightarrow> policies_ok H w s \<Longrightarrow> \<exists>pol. get_irq_user_policy w p n s = Some pol \<and> policy_ok H pol"
  by (rule get_irq_user_policy_ok) (simp_all add: policies_ok_def db_ok_def)

lemma db_irq_ok_upd [simp]: "db_irq_ok H (i\<lparr>i_type := t\<rparr>) = db_irq_ok H i"
  by (simp add: db_irq_ok_def)

lemma dev_irq_ok:
  assumes al: "sys_allocates alloc" and d: "db_ok H k s" and h: "policies_ok H w s" and n: "int32 n"
    and t: "\<forall>i \<in> set tmp. hint_ok i"
  shows "\<exists>s'. dev_irq alloc w p ty tmp n s = Some s' \<and> db_ok H (Suc k) s' \<and> no_db s' = no_db s \<and> known s' = insert n (known s)"
proof -
  obtain r where r: "get_irq_info n s = Some r" "r = None \<longleftrightarrow> n \<notin> known s" using get_irq_info_known [OF d n] by blast
  show ?thesis
  proof (cases "n \<in> known s")
    case True
    then show ?thesis using r db_mono [OF d] by (auto simp: dev_irq_def)
  next
    case False
    obtain pol where pol: "get_irq_user_policy w (Some p) n s = Some pol" "policy_ok H pol" using user_policy_ok [OF d h] by blast
    have "\<forall>i \<in> set tmp. int32 (irq i) \<and> (irq i = n \<longrightarrow> i_name i \<noteq> None)" using t by (auto simp: hint_ok_def int32_def)
    from check_for_irq_ban_ok [OF d n this] obtain b where b: "check_for_irq_ban n tmp s = Some b"
      "\<not> b \<longrightarrow> n \<notin> nums s (cl_banned_irqs s)" by blast
    show ?thesis
    proof (cases "ban pol = 1 \<or> b")
      case True
      obtain s' where "add_banned_irq alloc n Banned s = Some s'" "db_ok H k s'" "no_db s' = no_db s" "known s' = insert n (known s)"
        using add_banned_irq_ok [OF al d n False] by blast
      then show ?thesis using True r False pol(1) b(1) db_mono [of H k s' "Suc k"] by (auto simp: dev_irq_def)
    next
      case nb: False
      then obtain a i s' where s': "add_one_irq_to_db alloc w (Some p) n pol s = Some (a, s')" "db_ok H (Suc k) s'"
        "no_db s' = no_db s" "known s' = insert n (known s)" "a \<noteq> NULL" "irqs s' a = Some i" "db_irq_ok H i"
        using add_one_irq_to_db_ok [OF al d n False _ pol(2), of w "Some p"] b(2) by blast
      let ?s = "s'\<lparr>irqs := (irqs s')(a \<mapsto> i\<lparr>i_type := ty\<rparr>)\<rparr>"
      have "dev_irq alloc w p ty tmp n s = Some ?s" using nb r False pol(1) b(1) s' by (simp add: dev_irq_def upd_irq_def)
      moreover have "db_ok H (Suc k) ?s" by (rule db_upd [OF s'(2,6)]) (use s'(7) in simp_all)
      moreover have "known ?s = known s'" by (rule db_upd_known [OF s'(6)]) simp
      ultimately show ?thesis using s'(3,4) by (auto simp: no_db_def)
    qed
  qed
qed

text \<open>The descriptor of a new irq of a device: its class is that of the device, and the level the policy
  sets has precedence over the level of the class, except for a device without a known class.\<close>

lemma dev_irq_new:
  assumes al: "sys_allocates alloc" and d: "db_ok H k s" and h: "policies_ok H w s" and n: "int32 n" "n \<notin> known s"
    and t: "\<forall>i \<in> set tmp. hint_ok i"
  shows "\<exists>s' pol b. dev_irq alloc w p ty tmp n s = Some s' \<and> get_irq_user_policy w (Some p) n s = Some pol
    \<and> check_for_irq_ban n tmp s = Some b
    \<and> (if ban pol = 1 \<or> b then interrupts_db s' = interrupts_db s \<and> (\<exists>a. banned_irqs s' = banned_irqs s @ [a])
       else \<exists>a i. interrupts_db s' = interrupts_db s @ [a] \<and> banned_irqs s' = banned_irqs s \<and> irqs s' a = Some i \<and> irq i = n \<and> i_type i = ty
         \<and> (if get_irq_class w p < 0 then i_class i = IRQ_OTHER \<and> level i = BALANCE_NONE
            else i_class i = get_irq_class w p
              \<and> Some (level i) = (if 0 \<le> pol_level pol then Some (pol_level pol) else class_level (get_irq_class w p))))"
proof -
  have r: "get_irq_info n s = Some None" using get_irq_info_known [OF d n(1)] n(2) by auto
  obtain pol where pol: "get_irq_user_policy w (Some p) n s = Some pol" "policy_ok H pol" using user_policy_ok [OF d h] by blast
  have "\<forall>i \<in> set tmp. int32 (irq i) \<and> (irq i = n \<longrightarrow> i_name i \<noteq> None)" using t by (auto simp: hint_ok_def int32_def)
  from check_for_irq_ban_ok [OF d n(1) this] obtain b where b: "check_for_irq_ban n tmp s = Some b"
    "\<not> b \<longrightarrow> n \<notin> nums s (cl_banned_irqs s)" by blast
  show ?thesis
  proof (cases "ban pol = 1 \<or> b")
    case True
    obtain s' where "add_banned_irq alloc n Banned s = Some s'" "interrupts_db s' = interrupts_db s" "banned_irqs s' = banned_irqs s @ [alloc s]"
      using add_banned_irq_ok [OF al d n] by blast
    then show ?thesis using True r pol(1) b(1) by (auto simp: dev_irq_def)
  next
    case False
    then obtain a i s' where s': "add_one_irq_to_db alloc w (Some p) n pol s = Some (a, s')" "a \<noteq> NULL" "irqs s' a = Some i" "irq i = n"
      "interrupts_db s' = interrupts_db s @ [a]" "banned_irqs s' = banned_irqs s" "new_class_level w (Some p) pol = Some (i_class i, level i)"
      using add_one_irq_to_db_ok [OF al d n _ pol(2), of w "Some p"] b(2) by blast
    let ?s = "s'\<lparr>irqs := (irqs s')(a \<mapsto> i\<lparr>i_type := ty\<rparr>)\<rparr>"
    have "dev_irq alloc w p ty tmp n s = Some ?s" using False r pol(1) b(1) s' by (simp add: dev_irq_def upd_irq_def)
    moreover have "if get_irq_class w p < 0 then i_class i = IRQ_OTHER \<and> level i = BALANCE_NONE
        else i_class i = get_irq_class w p
          \<and> Some (level i) = (if 0 \<le> pol_level pol then Some (pol_level pol) else class_level (get_irq_class w p))"
      using s'(7) by (auto simp: new_class_level_def Let_def BALANCE_NONE_def split: if_splits)
    ultimately show ?thesis using False pol(1) b(1) s'(4-6) by auto
  qed
qed

text \<open>The irqs of a device; \<open>None\<close> for a file \<open>irq\<close> that does not hold a number.\<close>

definition dev_irqs :: "world \<Rightarrow> string \<Rightarrow> int list option" where
  "dev_irqs w dirname = (let devpath = SYSDEV_DIR @ ''/'' @ dirname
     in case entries w (devpath @ ''/msi_irqs'') of
          Some es \<Rightarrow> Some (filter (\<lambda>n. n \<noteq> 0) (map (strtol_int \<circ> fst) es))
        | None \<Rightarrow> (case contents w (devpath @ ''/irq'') of None \<Rightarrow> Some []
          | Some c \<Rightarrow> if dropWhile isspace c = [] then Some []
              else map_option (\<lambda>n. if n \<noteq> 0 then [n] else []) (scan_d c)))"

lemma scan_d_int32: "scan_d c = Some n \<Longrightarrow> int32 n"
  using sint_ge [where 'a = 32] sint_lt [where 'a = 32]
  by (auto simp: scan_d_def int32_def Let_def split: prod.splits if_splits) (force+)?

lemma strtol_int32: "int32 (strtol_int s)"
  using scan_d_int32 by (auto simp: strtol_int_def int32_def split: option.split)

lemma dev_irqs_int32: "dev_irqs w d = Some ns \<Longrightarrow> n \<in> set ns \<Longrightarrow> int32 n"
  by (auto simp: dev_irqs_def Let_def strtol_int32 split: option.splits if_splits dest: scan_d_int32)

lemma for_each_Nil_fun: "for_each cb [] = Some"
  by (rule ext) simp

lemma build_one_dev_entry_eq:
  "\<exists>ty. build_one_dev_entry alloc w tmp d s = Option.bind (dev_irqs w d)
     (\<lambda>ns. for_each (dev_irq alloc w (SYSDEV_DIR @ ''/'' @ d) ty tmp) ns s)"
proof -
  have msi: "for_each (\<lambda>(d_name, _) s. let n = strtol_int d_name in if n \<noteq> 0 then f n s else Some s) es s
      = for_each f (filter (\<lambda>n. n \<noteq> 0) (map (strtol_int \<circ> fst) es)) s" for f :: "int \<Rightarrow> sys \<Rightarrow> sys option" and es s
    unfolding Let_def
  proof (induction es arbitrary: s)
    case (Cons e es)
    obtain n x where e: "e = (n, x)" by (cases e)
    have "for_each f (filter (\<lambda>n. n \<noteq> 0) (map (strtol_int \<circ> fst) (e # es))) s
        = Option.bind (if strtol_int n \<noteq> 0 then f (strtol_int n) s else Some s)
            (for_each f (filter (\<lambda>n. n \<noteq> 0) (map (strtol_int \<circ> fst) es)))"
      by (simp add: e)
    moreover have "for_each (\<lambda>(d_name, _) s. if strtol_int d_name \<noteq> 0 then f (strtol_int d_name) s else Some s) es
        = for_each f (filter (\<lambda>n. n \<noteq> 0) (map (strtol_int \<circ> fst) es))"
      by (rule ext) (rule Cons)
    ultimately show ?case by (simp only: for_each.simps e prod.case)
  qed simp
  show ?thesis
  proof (cases "entries w ((SYSDEV_DIR @ ''/'' @ d) @ ''/msi_irqs'')")
    case (Some es)
    then show ?thesis by (intro exI [of _ IRQ_TYPE_MSIX]) (simp add: build_one_dev_entry_def dev_irqs_def msi)
  next
    case None
    then show ?thesis
      by (intro exI [of _ IRQ_TYPE_LEGACY])
        (auto simp: build_one_dev_entry_def dev_irqs_def for_each_Nil_fun split: option.split)
  qed
qed

lemma dev_irqs_list_ok:
  assumes al: "sys_allocates alloc" and "db_ok H k s" "policies_ok H w s" and ns: "\<forall>n \<in> set ns. int32 n"
    and t: "\<forall>i \<in> set tmp. hint_ok i"
  shows "\<exists>s'. for_each (dev_irq alloc w p ty tmp) ns s = Some s' \<and> db_ok H (k + length ns) s' \<and> no_db s' = no_db s
    \<and> known s' = known s \<union> set ns"
  using assms(2-4)
proof (induction ns arbitrary: k s)
  case Nil
  then show ?case by simp
next
  case (Cons n ns)
  obtain u where u: "dev_irq alloc w p ty tmp n s = Some u" "db_ok H (Suc k) u" "no_db u = no_db s" "known u = insert n (known s)"
    using dev_irq_ok [OF al Cons.prems(1,2) _ t, of n p ty] Cons.prems(3) by auto
  have "policies_ok H w u" using Cons.prems(2) no_db_eqD(3) [OF u(3)] by (simp add: policies_ok_def)
  with Cons.IH [OF u(2)] Cons.prems(3) u show ?case by auto
qed


text \<open>All devices.\<close>

lemma build_one_dev_entry_ok:
  assumes al: "sys_allocates alloc" and "db_ok H k s" "policies_ok H w s" and ns: "dev_irqs w d = Some ns"
    and t: "\<forall>i \<in> set tmp. hint_ok i"
  shows "\<exists>s'. build_one_dev_entry alloc w tmp d s = Some s' \<and> db_ok H (k + length ns) s' \<and> no_db s' = no_db s
    \<and> known s' = known s \<union> set ns"
proof -
  obtain ty where ty: "build_one_dev_entry alloc w tmp d s = Option.bind (dev_irqs w d)
     (\<lambda>ns. for_each (dev_irq alloc w (SYSDEV_DIR @ ''/'' @ d) ty tmp) ns s)"
    using build_one_dev_entry_eq by blast
  have "\<forall>n \<in> set ns. int32 n" using dev_irqs_int32 [OF ns] by blast
  from dev_irqs_list_ok [OF al assms(2,3) this t] show ?thesis unfolding ty ns by simp
qed

lemma pci_devices_ok:
  assumes al: "sys_allocates alloc" and "db_ok H k s" "policies_ok H w s" and "those (map (dev_irqs w \<circ> fst) es) = Some nss"
    and t: "\<forall>i \<in> set tmp. hint_ok i"
  shows "\<exists>s'. for_each (\<lambda>(d_name, _). build_one_dev_entry alloc w tmp d_name) es s = Some s'
    \<and> db_ok H (k + sum_list (map length nss)) s' \<and> no_db s' = no_db s \<and> known s' = known s \<union> \<Union> (set ` set nss)"
  using assms(2-4)
proof (induction es arbitrary: k s nss)
  case Nil
  then show ?case by simp
next
  case (Cons e es)
  obtain d x where e: "e = (d, x)" by (cases e)
  obtain ns mss where ns: "dev_irqs w d = Some ns" "those (map (dev_irqs w \<circ> fst) es) = Some mss" "nss = ns # mss"
    using Cons.prems(3) e by (auto simp: comp_def split: option.splits)
  obtain u where u: "build_one_dev_entry alloc w tmp d s = Some u" "db_ok H (k + length ns) u" "no_db u = no_db s"
    "known u = known s \<union> set ns" using build_one_dev_entry_ok [OF al Cons.prems(1,2) ns(1) t] by blast
  have "policies_ok H w u" using Cons.prems(2) no_db_eqD(3) [OF u(3)] by (simp add: policies_ok_def)
  from Cons.IH [OF u(2) this ns(2)] u ns(3) e show ?case by (simp add: add.assoc Un_assoc)
qed

section \<open>The irqs of \<open>/proc/interrupts\<close>\<close>

lemma add_new_irq_tail:
  assumes d: "db_ok H k s" and a: "irqs s a = Some i" "a \<in> set (interrupts_db s) \<Longrightarrow> db_irq_ok H i" and h: "class_ok c"
  shows "\<exists>s'. do { s \<leftarrow> upd_irq a (\<lambda>i. i\<lparr>i_type := ty, i_class := c\<rparr>) s; i \<leftarrow> irqs s a; lv \<leftarrow> class_level (i_class i);
      upd_irq a (\<lambda>i. i\<lparr>level := lv\<rparr>) s } = Some s' \<and> db_ok H k s' \<and> no_db s' = no_db s \<and> known s' = known s"
proof -
  obtain lv where lv: "class_level c = Some lv" "1 \<le> lv" "lv \<le> 3" using class_level_ok [OF h] by blast
  let ?i = "i\<lparr>i_type := ty, i_class := c, level := lv\<rparr>"
  let ?s = "s\<lparr>irqs := (irqs s)(a \<mapsto> ?i)\<rparr>"
  have "db_ok H k ?s" by (rule db_upd [OF d a(1)]) (use a(2) lv h in \<open>simp_all add: db_irq_ok_def\<close>)
  moreover have "known ?s = known s" by (rule db_upd_known [OF a(1)]) simp
  ultimately show ?thesis using a(1) lv(1) by (simp add: upd_irq_def no_db_def)
qed

lemma add_new_irq_ok:
  assumes al: "sys_allocates alloc" and d: "db_ok H k s" and h: "policies_ok H w s" and i: "hint_ok i" "irq i \<notin> known s"
    and p: "\<forall>j \<in> set proc. int32 (irq j) \<and> irq j \<noteq> irq i"
  shows "\<exists>s'. add_new_irq alloc w (irq i) i proc s = Some s' \<and> db_ok H (Suc k) s' \<and> no_db s' = no_db s
    \<and> known s' = (if is_banned_irq_name (the (i_name i)) s then known s else insert (irq i) (known s))"
proof -
  have n: "int32 (irq i)" using i(1) by (simp add: hint_ok_def int32_def)
  obtain nm where nm: "i_name i = Some nm" using i(1) by (auto simp: hint_ok_def)
  have r: "get_irq_info (irq i) s = Some None" using get_irq_info_known [OF d n] i(2) by auto
  have c: "class_ok (i_class i)" using i(1) by (simp add: hint_ok_def)
  show ?thesis
  proof (cases "is_banned_irq_name nm s")
    case True
    then show ?thesis using r nm db_mono [OF d] by (simp add: add_new_irq_def)
  next
    case nb: False
    obtain pol where pol: "get_irq_user_policy w None (irq i) s = Some pol" "policy_ok H pol" using user_policy_ok [OF d h] by blast
    obtain b where b: "check_for_irq_ban (irq i) proc s = Some b" "\<not> b \<longrightarrow> irq i \<notin> nums s (cl_banned_irqs s)"
      using check_for_irq_ban_ok [OF d n] p by blast
    show ?thesis
    proof (cases "ban pol = 1 \<or> b")
      case True
      obtain s' where s': "add_banned_irq alloc (irq i) Banned s = Some s'" "db_ok H k s'" "no_db s' = no_db s"
        "known s' = insert (irq i) (known s)" using add_banned_irq_ok [OF al d n i(2)] by blast
      obtain a where a: "get_irq_info (irq i) s' = Some (Some a)" "a \<in> set (interrupts_db s' @ banned_irqs s')"
        using get_irq_info_known [OF s'(2) n] s'(4) by auto
      then obtain j where j: "irqs s' a = Some j" using db_valid(1,2) [OF s'(2)] unfolding irqs_valid_def by fastforce
      have a0: "a \<noteq> NULL" using j s'(2) by (auto simp: db_ok_def)
      have "db_irq_ok H j" if "a \<in> set (interrupts_db s')" using that j s'(2) by (simp add: db_ok_def)
      from add_new_irq_tail [OF s'(2) j this c] obtain u where u: "do { s \<leftarrow> upd_irq a (\<lambda>j. j\<lparr>i_type := i_type i, i_class := i_class i\<rparr>) s';
        j \<leftarrow> irqs s a; lv \<leftarrow> class_level (i_class j); upd_irq a (\<lambda>i. i\<lparr>level := lv\<rparr>) s } = Some u" "db_ok H k u" "no_db u = no_db s'" "known u = known s'" by blast
      have "add_new_irq alloc w (irq i) i proc s = Some u"
        using True r nm nb pol(1) b(1) s'(1) a(1) a0 u(1) by (auto simp: add_new_irq_def)
      then show ?thesis using u(2-4) s'(3,4) nb nm db_mono [OF u(2), of "Suc k"] by simp
    next
      case False
      then obtain a j s' where s': "add_one_irq_to_db alloc w None (irq i) pol s = Some (a, s')" "db_ok H (Suc k) s'"
        "no_db s' = no_db s" "known s' = insert (irq i) (known s)" "a \<noteq> NULL" "irqs s' a = Some j" "db_irq_ok H j"
        using add_one_irq_to_db_ok [OF al d n i(2) _ pol(2), of w None] b(2) by blast
      from add_new_irq_tail [OF s'(2,6) _ c] s'(7) obtain u where u: "do { s \<leftarrow> upd_irq a (\<lambda>j. j\<lparr>i_type := i_type i, i_class := i_class i\<rparr>) s';
        j \<leftarrow> irqs s a; lv \<leftarrow> class_level (i_class j); upd_irq a (\<lambda>i. i\<lparr>level := lv\<rparr>) s } = Some u" "db_ok H (Suc k) u" "no_db u = no_db s'" "known u = known s'" by blast
      have "add_new_irq alloc w (irq i) i proc s = Some u"
        using False r nm nb pol(1) b(1) s'(1,5) u(1) by (auto simp: add_new_irq_def)
      then show ?thesis using u(2-4) s'(3,4) nb nm by simp
    qed
  qed
qed

text \<open>The descriptor of an irq without device directory: type and class are those of the hint and the level
  is the level of that class, whatever the policy says, also for a banned irq.\<close>

lemma add_new_irq_new:
  assumes al: "sys_allocates alloc" and d: "db_ok H k s" and h: "policies_ok H w s" and i: "hint_ok i" "irq i \<notin> known s"
    and p: "\<forall>j \<in> set proc. int32 (irq j) \<and> irq j \<noteq> irq i" and nm: "\<not> is_banned_irq_name (the (i_name i)) s"
  shows "\<exists>s' pol b a j. add_new_irq alloc w (irq i) i proc s = Some s' \<and> get_irq_user_policy w None (irq i) s = Some pol
    \<and> check_for_irq_ban (irq i) proc s = Some b
    \<and> (if ban pol = 1 \<or> b then interrupts_db s' = interrupts_db s \<and> banned_irqs s' = banned_irqs s @ [a]
       else interrupts_db s' = interrupts_db s @ [a] \<and> banned_irqs s' = banned_irqs s)
    \<and> irqs s' a = Some j \<and> irq j = irq i \<and> i_type j = i_type i \<and> i_class j = i_class i \<and> class_level (i_class i) = Some (level j)"
proof -
  have n: "int32 (irq i)" using i(1) by (simp add: hint_ok_def int32_def)
  obtain nm' where nm': "i_name i = Some nm'" using i(1) by (auto simp: hint_ok_def)
  have r: "get_irq_info (irq i) s = Some None" using get_irq_info_known [OF d n] i(2) by auto
  obtain lv where lv: "class_level (i_class i) = Some lv" using class_level_ok i(1) by (auto simp: hint_ok_def)
  obtain pol where pol: "get_irq_user_policy w None (irq i) s = Some pol" "policy_ok H pol" using user_policy_ok [OF d h] by blast
  obtain b where b: "check_for_irq_ban (irq i) proc s = Some b" "\<not> b \<longrightarrow> irq i \<notin> nums s (cl_banned_irqs s)"
    using check_for_irq_ban_ok [OF d n] p by blast
  let ?j = "\<lambda>j. j\<lparr>i_type := i_type i, i_class := i_class i, level := lv\<rparr>"
  show ?thesis
  proof (cases "ban pol = 1 \<or> b")
    case True
    obtain s' where s': "add_banned_irq alloc (irq i) Banned s = Some s'" "interrupts_db s' = interrupts_db s"
      "banned_irqs s' = banned_irqs s @ [alloc s]" "get_irq_info (irq i) s' = Some (Some (alloc s))"
      "map_option irq (irqs s' (alloc s)) = Some (irq i)" "alloc s \<noteq> NULL"
      using add_banned_irq_ok [OF al d n i(2)] by blast
    then obtain j where j: "irqs s' (alloc s) = Some j" "irq j = irq i" by blast
    let ?u = "s'\<lparr>irqs := (irqs s')(alloc s \<mapsto> ?j j)\<rparr>"
    have "add_new_irq alloc w (irq i) i proc s = Some ?u"
      using True r nm nm' pol(1) b(1) s'(1,4,6) j(1) lv by (auto simp: add_new_irq_def upd_irq_def)
    moreover have "interrupts_db ?u = interrupts_db s" "banned_irqs ?u = banned_irqs s @ [alloc s]"
      "irqs ?u (alloc s) = Some (?j j)" using s'(2,3) by simp_all
    ultimately show ?thesis using True pol(1) b(1) lv j(2)
      by (intro exI [of _ ?u] exI [of _ pol] exI [of _ b] exI [of _ "alloc s"] exI [of _ "?j j"]) simp
  next
    case False
    then obtain a j s' where s': "add_one_irq_to_db alloc w None (irq i) pol s = Some (a, s')" "a \<noteq> NULL" "irqs s' a = Some j"
      "irq j = irq i" "interrupts_db s' = interrupts_db s @ [a]" "banned_irqs s' = banned_irqs s"
      using add_one_irq_to_db_ok [OF al d n i(2) _ pol(2), of w None] b(2) by blast
    let ?u = "s'\<lparr>irqs := (irqs s')(a \<mapsto> ?j j)\<rparr>"
    have "add_new_irq alloc w (irq i) i proc s = Some ?u"
      using False r nm nm' pol(1) b(1) s'(1-3) lv by (auto simp: add_new_irq_def upd_irq_def)
    moreover have "interrupts_db ?u = interrupts_db s @ [a]" "banned_irqs ?u = banned_irqs s"
      "irqs ?u a = Some (?j j)" using s'(5,6) by simp_all
    ultimately show ?thesis using False pol(1) b(1) lv s'(4)
      by (intro exI [of _ ?u] exI [of _ pol] exI [of _ b] exI [of _ a] exI [of _ "?j j"]) simp
  qed
qed

lemma add_missing_irq_ok:
  assumes al: "sys_allocates alloc" and d: "db_ok H k s" and h: "policies_ok H w s" and i: "hint_ok i"
    and p: "\<forall>j \<in> set proc. int32 (irq j) \<and> irq j \<in> known s"
  shows "\<exists>s'. add_missing_irq alloc w proc i s = Some s' \<and> db_ok H (Suc k) s' \<and> no_db s' = no_db s
    \<and> known s' = known s \<union> (if is_banned_irq_name (the (i_name i)) s then {} else {irq i})"
proof (cases "irq i \<in> known s")
  case True
  have n: "int32 (irq i)" using i(1) by (simp add: hint_ok_def int32_def)
  obtain a where "get_irq_info (irq i) s = Some (Some a)" using get_irq_info_known [OF d n] True by auto
  then show ?thesis using True db_mono [OF d] by (auto simp: add_missing_irq_def)
next
  case False
  have n: "int32 (irq i)" using i(1) by (simp add: hint_ok_def int32_def)
  have r: "get_irq_info (irq i) s = Some None" using get_irq_info_known [OF d n] False by auto
  have "\<forall>j \<in> set proc. int32 (irq j) \<and> irq j \<noteq> irq i" using p False by auto
  from add_new_irq_ok [OF al d h i False this] r
  show ?thesis by (cases "is_banned_irq_name (the (i_name i)) s") (auto simp: add_missing_irq_def)
qed

lemma db_irqs_known:
  assumes d: "db_ok H k s"
  shows "\<exists>p. those (map (irqs s) (interrupts_db s)) = Some p \<and> (\<forall>j \<in> set p. int32 (irq j) \<and> irq j \<in> known s)"
proof -
  have "irqs_valid s xs \<Longrightarrow> \<exists>p. those (map (irqs s) xs) = Some p \<and> (\<forall>j \<in> set p. int32 (irq j) \<and> irq j \<in> nums s xs)" for xs
  proof (induction xs)
    case (Cons a xs)
    then show ?case by (fastforce simp: irqs_valid_def)
  qed simp
  from this [OF db_valid(1) [OF d]] show ?thesis by (fastforce simp: known_def)
qed

text \<open>The irqs of \<open>/proc/interrupts\<close> whose name is not banned.\<close>

definition listed_irqs :: "sys \<Rightarrow> irq_info list \<Rightarrow> int set" where
  "listed_irqs s tmp = {irq i |i. i \<in> set tmp \<and> \<not> is_banned_irq_name (the (i_name i)) s}"

lemma add_missing_list_ok:
  assumes al: "sys_allocates alloc" and "db_ok H k s" "policies_ok H w s" and "\<forall>i \<in> set tmp. hint_ok i"
  shows "\<exists>s'. for_each (\<lambda>i t. do { p \<leftarrow> if c then Some [] else those (map (irqs t) (interrupts_db t)); add_missing_irq alloc w p i t }) tmp s = Some s'
    \<and> db_ok H (k + length tmp) s' \<and> no_db s' = no_db s \<and> known s' = known s \<union> listed_irqs s tmp"
  using assms(2-4)
proof (induction tmp arbitrary: k s)
  case Nil
  then show ?case by (simp add: listed_irqs_def)
next
  case (Cons i tmp)
  obtain p where p: "(if c then Some [] else those (map (irqs s) (interrupts_db s))) = Some p"
    "\<forall>j \<in> set p. int32 (irq j) \<and> irq j \<in> known s"
    using db_irqs_known [OF Cons.prems(1)] by (cases c) auto
  obtain u where u: "add_missing_irq alloc w p i s = Some u" "db_ok H (Suc k) u" "no_db u = no_db s"
    "known u = known s \<union> (if is_banned_irq_name (the (i_name i)) s then {} else {irq i})"
    using add_missing_irq_ok [OF al Cons.prems(1,2) _ p(2), of i] Cons.prems(3) by (metis list.set_intros(1))
  have pk: "policies_ok H w u" using Cons.prems(2) no_db_eqD(3) [OF u(3)] by (simp add: policies_ok_def)
  have l: "listed_irqs u tmp = listed_irqs s tmp"
    using no_db_eqD(5) [OF u(3)] by (simp add: listed_irqs_def is_banned_irq_name_def)
  have "(if is_banned_irq_name (the (i_name i)) s then {} else {irq i}) \<union> listed_irqs s tmp = listed_irqs s (i # tmp)"
    unfolding listed_irqs_def by auto
  then have kn: "known u \<union> listed_irqs u tmp = known s \<union> listed_irqs s (i # tmp)" 
    unfolding u(4) l by (simp only: Un_assoc)
  from Cons.IH [OF u(2) pk] Cons.prems(3) obtain v where v: "for_each (\<lambda>i t. do { p \<leftarrow> if c then Some [] else those (map (irqs t) (interrupts_db t));
      add_missing_irq alloc w p i t }) tmp u = Some v" "db_ok H (Suc k + length tmp) v" "no_db v = no_db u"
      "known v = known u \<union> listed_irqs u tmp" by auto
  have "for_each (\<lambda>i t. do { p \<leftarrow> if c then Some [] else those (map (irqs t) (interrupts_db t));
      add_missing_irq alloc w p i t }) (i # tmp) s = Some v" using p(1) u(1) v(1) by (simp del: if_split)
  moreover have "no_db v = no_db s" using v(3) u(3) by (rule trans)
  moreover have "known v = known s \<union> listed_irqs s (i # tmp)" using v(4) kn by (rule trans)
  moreover have "db_ok H (k + length (i # tmp)) v" using v(2) by simp
  ultimately show ?case by blast
qed

lemma add_missing_irqs_ok:
  assumes al: "sys_allocates alloc" and d: "db_ok H k s" "policies_ok H w s" and t: "\<forall>i \<in> set tmp. hint_ok i"
  shows "\<exists>s'. add_missing_irqs alloc w tmp s = Some s'
    \<and> db_ok H (k + length tmp) s' \<and> no_db s' = no_db s \<and> known s' = known s \<union> listed_irqs s tmp"
proof (cases "tmp = []")
  case False
  then show ?thesis using add_missing_list_ok [OF al d t, of "interrupts_db s = []"] by (simp add: add_missing_irqs_def Let_def)
next
  case True
  obtain p where p: "those (map (irqs s) (interrupts_db s)) = Some p" using db_irqs_known [OF d(1)] by blast
  have "add_missing_irq alloc w p i s = Some s" if "a \<in> set (interrupts_db s)" "irqs s a = Some i" for a i
  proof -
    have "irq i \<in> known s" using that unfolding known_def nums_def by force
    moreover have "int32 (irq i)" using that db_valid(1) [OF d(1)] by (auto simp: irqs_valid_def)
    ultimately show ?thesis using get_irq_info_known [OF d(1), of "irq i"] by (auto simp: add_missing_irq_def)
  qed
  then have one: "do { q \<leftarrow> if interrupts_db s = [] then Some [] else those (map (irqs s) (interrupts_db s)); i \<leftarrow> irqs s a; add_missing_irq alloc w q i s } = Some s"
    if "a \<in> set (interrupts_db s)" for a
    using that p db_valid(1) [OF d(1)] unfolding irqs_valid_def by (cases "interrupts_db s = []") auto
  have "for_each (\<lambda>a t. do { q \<leftarrow> if interrupts_db s = [] then Some [] else those (map (irqs t) (interrupts_db t)); i \<leftarrow> irqs t a; add_missing_irq alloc w q i t }) xs s = Some s"
    if "set xs \<subseteq> set (interrupts_db s)" for xs
    using that by (induction xs) (simp_all add: one)
  then show ?thesis using True d by (simp add: add_missing_irqs_def listed_irqs_def)
qed

section \<open>Rebuilding the data base\<close>

text \<open>What \<open>free_irq_db\<close> needs of the state, whatever happened to the irqs since they were added.\<close>

definition lists_ok :: "sys \<Rightarrow> bool" where
  "lists_ok s \<longleftrightarrow> finite (dom (irqs s)) \<and> irqs s NULL = None
     \<and> distinct (interrupts_db s @ banned_irqs s @ cl_banned_irqs s)
     \<and> irqs_valid s (interrupts_db s @ banned_irqs s @ cl_banned_irqs s)"

definition db_lists :: "sys \<Rightarrow> bool" where
  "db_lists s \<longleftrightarrow> lists_ok s \<and> finite (dom (objs s)) \<and> \<not> numa_avail s \<and> objs s unspecified_node \<noteq> None"

lemma free_irqs_ok:
  "distinct xs \<Longrightarrow> \<forall>a \<in> set xs. irqs s a \<noteq> None \<Longrightarrow>
     for_each free_irq xs s = Some (s\<lparr>irqs := irqs s |` (- set xs)\<rparr>)"
proof (induction xs arbitrary: s)
  case Nil
  then show ?case by (simp add: restrict_map_def)
next
  case (Cons a xs)
  then obtain i where i: "irqs s a = Some i" by auto
  let ?s = "s\<lparr>irqs := (irqs s)(a := None)\<rparr>"
  have "for_each free_irq xs ?s = Some (?s\<lparr>irqs := irqs ?s |` (- set xs)\<rparr>)"
    by (rule Cons.IH) (use Cons.prems in auto)
  moreover have "irqs ?s |` (- set xs) = irqs s |` (- set (a # xs))" by (auto simp: restrict_map_def)
  moreover have "free_irq a s = Some ?s" using i by (simp add: free_irq_def)
  ultimately show ?case by simp
qed

lemma free_irq_db_lists:
  assumes "lists_ok s" "counts_ok s"
  shows "\<exists>s'. free_irq_db s = Some s' \<and> lists_ok s' \<and> counts_ok s' \<and> no_db s' = no_db (s\<lparr>rebalance_irq_list := []\<rparr>)
    \<and> interrupts_db s' = [] \<and> banned_irqs s' = [] \<and> irqs s' = irqs s |` (- set (interrupts_db s @ banned_irqs s))"
proof -
  have l: "distinct (interrupts_db s @ banned_irqs s @ cl_banned_irqs s)"
    "\<forall>a \<in> set (interrupts_db s). irqs s a \<noteq> None" "\<forall>a \<in> set (banned_irqs s). irqs s a \<noteq> None"
    using assms(1) unfolding lists_ok_def irqs_valid_def by fastforce+
  define u where "u = s\<lparr>irqs := irqs s |` (- set (interrupts_db s)), interrupts_db := []\<rparr>"
  define v where "v = u\<lparr>irqs := irqs u |` (- set (banned_irqs s)), banned_irqs := [], rebalance_irq_list := []\<rparr>"
  have u: "for_each_irq [] free_irq s = Some (s\<lparr>irqs := irqs s |` (- set (interrupts_db s))\<rparr>)"
    using free_irqs_ok [of "interrupts_db s" s] l by (simp add: for_each_irq_def)
  have "\<forall>a \<in> set (banned_irqs s). irqs u a \<noteq> None" using l by (auto simp: u_def restrict_map_def)
  with free_irqs_ok [of "banned_irqs s" u] l have b: "for_each_irq (banned_irqs s) free_irq u = Some (u\<lparr>irqs := irqs u |` (- set (banned_irqs s))\<rparr>)"
    by (auto simp: for_each_irq_def u_def)
  have fv: "free_irq_db s = Some v" using u b by (simp add: free_irq_db_def v_def u_def Let_def)
  have iv: "irqs v = irqs s |` (- set (interrupts_db s @ banned_irqs s))"
    by (auto simp: v_def u_def restrict_map_def)
  have "irqs v a = irqs s a" if "a \<in> set (cl_banned_irqs s)" for a
    using that l(1) by (auto simp: iv restrict_map_def)
  then have "irqs_valid v (cl_banned_irqs s)" using assms(1) by (simp add: lists_ok_def irqs_valid_def)
  moreover have "irqs v NULL = None" using assms(1) by (simp add: iv restrict_map_def lists_ok_def)
  ultimately have "lists_ok v" using assms(1) unfolding lists_ok_def by (simp add: iv) (simp add: v_def u_def irqs_valid_def)
  moreover have "counts_ok v" using assms(2) by (auto simp: counts_ok_def iv restrict_map_def split: if_splits)
  moreover have "no_db v = no_db (s\<lparr>rebalance_irq_list := []\<rparr>)" by (simp add: no_db_def v_def u_def)
  moreover have "interrupts_db v = []" "banned_irqs v = []" by (simp_all add: v_def u_def)
  ultimately show ?thesis using fv iv by blast
qed

lemma free_irq_db_ok:
  assumes "db_lists s" "counts_ok s"
  shows "\<exists>s'. free_irq_db s = Some s' \<and> db_ok H 0 s' \<and> known s' = {} \<and> no_db s' = no_db (s\<lparr>rebalance_irq_list := []\<rparr>)"
proof -
  have "lists_ok s" using assms(1) by (simp add: db_lists_def)
  then obtain v where v: "free_irq_db s = Some v" "lists_ok v" "counts_ok v" "no_db v = no_db (s\<lparr>rebalance_irq_list := []\<rparr>)"
    "interrupts_db v = []" "banned_irqs v = []" using free_irq_db_lists [OF _ assms(2)] by blast
  have "db_ok H 0 v" using v(2,3,5,6) assms(1) no_db_eqD(1,4) [OF v(4)] by (simp add: db_ok_def lists_ok_def db_lists_def)
  moreover have "known v = {}" by (simp add: known_def v(5,6))
  ultimately show ?thesis using v by blast
qed

text \<open>The interrupt sources of a world, and the data base they give.\<close>

definition irq_sources :: "world \<Rightarrow> hp_e \<Rightarrow> (int list list \<times> irq_info list) option" where
  "irq_sources w hint = do {
     tmp \<leftarrow> collect_full_irq_list w hint;
     case entries w SYSDEV_DIR of None \<Rightarrow> Some ([], [])
     | Some es \<Rightarrow> do { nss \<leftarrow> those (map (dev_irqs w \<circ> fst) es); Some (nss, tmp) }
   }"

lemma rebuild_irq_db_db_ok:
  assumes al: "sys_allocates alloc" and d: "db_lists s" "counts_ok s" and h: "policies_ok H w s"
    and src: "irq_sources w (global_hint_policy s) = Some (nss, tmp)"
  shows "\<exists>s'. rebuild_irq_db alloc w s = Some s' \<and> db_ok H (sum_list (map length nss) + length tmp) s'
    \<and> no_db s' = no_db (s\<lparr>rebalance_irq_list := []\<rparr>) \<and> known s' = \<Union> (set ` set nss) \<union> listed_irqs s tmp"
proof -
  obtain u where u: "free_irq_db s = Some u" "db_ok H 0 u" "known u = {}" "no_db u = no_db (s\<lparr>rebalance_irq_list := []\<rparr>)"
    using free_irq_db_ok [OF d] by blast
  have gu: "global_hint_policy u = global_hint_policy s" "banned_irq_names u = banned_irq_names s"
    using no_db_eqD(3,5) [OF u(4)] by simp_all
  have hu: "policies_ok H w u" using h gu by (simp add: policies_ok_def)
  obtain tm where tm: "collect_full_irq_list w (global_hint_policy s) = Some tm"
    using src by (auto simp: irq_sources_def split: bind_splits)
  have t: "\<forall>i \<in> set tm. hint_ok i" using collect_ok [OF tm] by blast
  show ?thesis
  proof (cases "entries w SYSDEV_DIR")
    case None
    then have "nss = []" "tmp = []" using src tm by (simp_all add: irq_sources_def)
    then show ?thesis using u None tm gu by (simp add: rebuild_irq_db_def listed_irqs_def)
  next
    case (Some es)
    then have s2: "those (map (dev_irqs w \<circ> fst) es) = Some nss" "tmp = tm" using src tm by (auto simp: irq_sources_def split: bind_splits)
    obtain v where v: "for_each (\<lambda>(d_name, _). build_one_dev_entry alloc w tmp d_name) es u = Some v"
      "db_ok H (sum_list (map length nss)) v" "no_db v = no_db u" "known v = \<Union> (set ` set nss)"
      using pci_devices_ok [OF al u(2) hu s2(1), of tmp] t s2(2) u(3) by auto
    have gv: "global_hint_policy v = global_hint_policy u" "banned_irq_names v = banned_irq_names u"
      using no_db_eqD(3,5) [OF v(3)] by simp_all
    have hv: "policies_ok H w v" using hu gv by (simp add: policies_ok_def)
    have lv: "listed_irqs v tmp = listed_irqs s tmp" using gv gu by (simp add: listed_irqs_def is_banned_irq_name_def)
    show ?thesis using add_missing_irqs_ok [OF al v(2) hv, of tmp] t s2(2) u(1,4) v tm gu lv Some
      by (simp add: rebuild_irq_db_def)
  qed
qed

end
