(* ===== verification/Irqbalance.thy ===== *)
theory Irqbalance
  imports Irqdb
begin

text \<open>
  \<open>irqbalance.c\<close>: the command line, the start and the main loop.

  \<open>getopt_long\<close> is a function of the C library: the model takes the options it returns, each with its
  argument. What the loop reads from the system in one cycle is the record \<open>inputs\<close>. Signals only set
  flags; they are steps of their own between the cycles. Logging (but for the reports in \<open>Dump\<close>), \<open>daemon\<close>'s effects, the pid file and
  the capabilities are not part of the model.
\<close>

section \<open>The command line\<close>

text \<open>The variables that only \<open>irqbalance.c\<close> uses.\<close>

record config =
  foreground_mode :: bool
  journal_logging :: bool
  pidfile :: "string option"
  policy_script :: "string option"
  sleep_interval :: int

text \<open>
  The tables \<open>getopt_long\<close> is called with: the long options, each with its \<open>has_arg\<close> and the letter it stands
  for, and the string of the letters, in which a colon follows those with an argument.
\<close>

definition lopts :: "(string \<times> bool \<times> char) list" where
  "lopts = [(''oneshot'', False, CHR ''o''), (''debug'', False, CHR ''d''), (''foreground'', False, CHR ''f''),
     (''hintpolicy'', True, CHR ''h''), (''powerthresh'', True, CHR ''p''), (''banirq'', True, CHR ''i''),
     (''banscript'', True, CHR ''b''), (''deepestcache'', True, CHR ''c''), (''policyscript'', True, CHR ''l''),
     (''pid'', True, CHR ''s''), (''journal'', False, CHR ''j''), (''banmod'', True, CHR ''m''),
     (''interval'', True, CHR ''t''), (''banirqname'', True, CHR ''n'')]"

definition optstring :: string where
  "optstring = ''odfjh:i:p:s:c:b:l:m:t:n:''"

text \<open>\<open>!strncmp(a, b, strlen(a))\<close>.\<close>

definition abbreviates :: "string \<Rightarrow> string \<Rightarrow> bool" where
  "abbreviates a b \<longleftrightarrow> take (length a) b = a"

text \<open>One option: \<open>Inl\<close> is \<open>exit\<close> with its status. An argument is what \<open>optarg\<close> points to.\<close>

definition parse_option :: "allocator \<Rightarrow> char \<times> string \<Rightarrow> config \<times> sys \<Rightarrow> (int + config \<times> sys) option" where
  "parse_option alloc opt st = (case (opt, st) of ((o', optarg), (c, s)) \<Rightarrow>
     if o' = CHR ''?'' then Some (Inl 1)
     else if o' = CHR ''b'' then Some (Inl 1)
     else if o' = CHR ''c'' then
       (let v = strtoul optarg
        in if v = ULLONG_MAX \<or> v < 1 then Some (Inl 1) else Some (Inr (c, s\<lparr>deepest_cache := v\<rparr>)))
     else if o' = CHR ''d'' then Some (Inr (c\<lparr>foreground_mode := True\<rparr>, s\<lparr>debug_mode := True\<rparr>))
     else if o' = CHR ''f'' then Some (Inr (c\<lparr>foreground_mode := True\<rparr>, s))
     else if o' = CHR ''h'' then
       (if abbreviates optarg ''exact'' then Some (Inr (c, s\<lparr>global_hint_policy := HINT_POLICY_EXACT\<rparr>))
        else if abbreviates optarg ''subset'' then Some (Inr (c, s\<lparr>global_hint_policy := HINT_POLICY_SUBSET\<rparr>))
        else if abbreviates optarg ''ignore'' then Some (Inr (c, s\<lparr>global_hint_policy := HINT_POLICY_IGNORE\<rparr>))
        else Some (Inl 1))
     else if o' = CHR ''i'' then
       (let v = strtoul optarg
        in if v = ULLONG_MAX then Some (Inl 1)
           else map_option (\<lambda>s. Inr (c, s)) (add_cl_banned_irq alloc (to_int v) s))
     else if o' = CHR ''l'' then Some (Inr (c\<lparr>policy_script := Some optarg\<rparr>, s))
     else if o' = CHR ''m'' then Some (Inr (c, add_cl_banned_module optarg s))
     else if o' = CHR ''p'' then
       (if abbreviates optarg ''off'' then Some (Inr (c, s\<lparr>power_thresh := ULLONG_MAX\<rparr>))
        else let v = strtoul optarg
             in if v = ULLONG_MAX then Some (Inl 1) else Some (Inr (c, s\<lparr>power_thresh := v\<rparr>)))
     else if o' = CHR ''o'' then Some (Inr (c, s\<lparr>one_shot_mode := True\<rparr>))
     else if o' = CHR ''s'' then Some (Inr (c\<lparr>pidfile := Some optarg\<rparr>, s))
     else if o' = CHR ''j'' then Some (Inr (c\<lparr>journal_logging := True, foreground_mode := True\<rparr>, s))
     else if o' = CHR ''t'' then
       (let v = strtol_int optarg
        in if v < 1 then Some (Inl 1) else Some (Inr (c\<lparr>sleep_interval := v\<rparr>, s)))
     else if o' = CHR ''n'' then Some (Inr (c, add_banned_irqs_by_names optarg s))
     else Some (Inr (c, s)))"

primrec parse_command_line :: "allocator \<Rightarrow> (char \<times> string) list \<Rightarrow> config \<times> sys \<Rightarrow> (int + config \<times> sys) option" where
  "parse_command_line alloc [] st = Some (Inr st)"
| "parse_command_line alloc (opt # opts) st = do {
     r \<leftarrow> parse_option alloc opt st;
     case r of Inl status \<Rightarrow> Some (Inl status) | Inr st \<Rightarrow> parse_command_line alloc opts st
   }"


section \<open>Sleeping\<close>

text \<open>The loop of \<open>sleep_approx\<close> that brings \<open>tv_nsec\<close> into range, for \<open>gettimeofday\<close>'s microseconds.\<close>

function nsec_carry :: "int \<Rightarrow> int \<Rightarrow> int \<times> int" where
  "nsec_carry tv_sec tv_nsec = (if tv_nsec < 0 then nsec_carry (tv_sec - 1) (tv_nsec + 1000000000) else (tv_sec, tv_nsec))"
  by pat_completeness auto
termination
  by (relation "measure (\<lambda>(_, n). nat (- n))") auto

declare nsec_carry.simps [simp del]

definition sleep_approx :: "int \<Rightarrow> int \<Rightarrow> int \<times> int" where
  "sleep_approx seconds tv_usec = nsec_carry seconds (- tv_usec * 1000)"


section \<open>The object tree\<close>

definition build_object_tree :: "allocator \<Rightarrow> cpumask_t \<Rightarrow> world \<Rightarrow> sys \<Rightarrow> sys option" where
  "build_object_tree alloc junk w s = do {
     s \<leftarrow> build_numa_node_list alloc w s;
     s \<leftarrow> parse_cpu_tree alloc junk w s;
     rebuild_irq_db alloc w s
   }"

definition free_object_tree :: "sys \<Rightarrow> sys option" where
  "free_object_tree s = do {
     s \<leftarrow> free_numa_node_list s;
     s \<leftarrow> clear_cpu_tree s;
     free_irq_db s
   }"

definition force_rebalance_irq :: "addr \<Rightarrow> sys \<Rightarrow> sys option" where
  "force_rebalance_irq a s = do {
     i \<leftarrow> irqs s a;
     if level i = BALANCE_NONE then Some s
     else do {
       s \<leftarrow> (if assigned_obj i = NULL then Some (s\<lparr>rebalance_irq_list := rebalance_irq_list s @ [a]\<rparr>)
             else migrate_irq (ObjIrqs (assigned_obj i)) Rebalance a s);
       upd_irq a (\<lambda>i. i\<lparr>assigned_obj := NULL\<rparr>) s
     }
   }"


section \<open>The main loop\<close>

text \<open>
  What one cycle reads: the two files under \<open>/proc\<close>, and if the topology is scanned again the system it
  is read from and the two files twice more; the current affinity of each irq, and whether its file can
  be opened for writing.
\<close>

record inputs =
  ints :: "string list option"
  stats :: "string list option"
  rescan_world :: world
  ints2 :: "string list option"
  stats2 :: "string list option"
  ints3 :: "string list option"
  stats3 :: "string list option"
  rd_affinity :: "int \<Rightarrow> first_line"
  wr_affinity :: "int \<Rightarrow> bool"

text \<open>The constants of a run: the allocator, the uninitialised stack and \<open>HZ\<close>.\<close>

record machine =
  alloc :: allocator
  junk :: cpumask_t
  hz :: nat

definition measure_work :: "machine \<Rightarrow> string list option \<Rightarrow> string list option \<Rightarrow> sys \<Rightarrow> sys option" where
  "measure_work M int_file stat_file s = do {
     s \<leftarrow> parse_proc_interrupts int_file s;
     parse_proc_stat (hz M) stat_file s
   }"

text \<open>The body of \<open>if (need_rescan)\<close>.\<close>

definition rescan :: "machine \<Rightarrow> inputs \<Rightarrow> sys \<Rightarrow> sys option" where
  "rescan M x s = do {
     let s = s\<lparr>need_rescan := False, cycle_count := 0\<rparr>;
     s \<leftarrow> clear_work_stats s;
     s \<leftarrow> free_object_tree s;
     s \<leftarrow> build_object_tree (alloc M) (junk M) (rescan_world x) s;
     s \<leftarrow> for_each_irq [] force_rebalance_irq s;
     s \<leftarrow> measure_work M (ints2 x) (stats2 x) s;
     s \<leftarrow> clear_work_stats s;
     measure_work M (ints3 x) (stats3 x) s
   }"

definition gather :: "machine \<Rightarrow> inputs \<Rightarrow> sys \<Rightarrow> sys option" where
  "gather M x s = do {
     s \<leftarrow> clear_work_stats s;
     s \<leftarrow> measure_work M (ints x) (stats x) s;
     if need_rescan s then rescan M x s else Some s
   }"

definition balance :: "inputs \<Rightarrow> sys \<Rightarrow> sys option" where
  "balance x s = do {
     s \<leftarrow> (if cycle_count s \<noteq> 0 then update_migration_status s else Some s);
     (s, _) \<leftarrow> calculate_placement s;
     activate_mappings (rd_affinity x) (wr_affinity x) s
   }"

text \<open>One round of \<open>while (keep_going)\<close>, with the new value of \<open>keep_going\<close>.\<close>

definition main_cycle :: "machine \<Rightarrow> inputs \<Rightarrow> sys \<Rightarrow> (bool \<times> sys) option" where
  "main_cycle M x s = do {
     s \<leftarrow> gather M x s;
     s \<leftarrow> balance x s;
     Some (\<not> one_shot_mode s, s\<lparr>cycle_count := cycle_count s + 1\<rparr>)
   }"

definition handler :: "bool \<times> sys \<Rightarrow> bool \<times> sys" where
  "handler st = (False, snd st)"

definition force_rescan :: "bool \<times> sys \<Rightarrow> bool \<times> sys" where
  "force_rescan st = (fst st, if cycle_count (snd st) \<noteq> 0 then (snd st)\<lparr>need_rescan := True\<rparr> else snd st)"

text \<open>The steps of the running program: a cycle on inputs that satisfy \<open>ok\<close>, or a signal.\<close>

inductive main_step :: "machine \<Rightarrow> (inputs \<Rightarrow> sys \<Rightarrow> bool) \<Rightarrow> bool \<times> sys \<Rightarrow> bool \<times> sys \<Rightarrow> bool" for M ok where
  cycle: "ok x s \<Longrightarrow> main_cycle M x s = Some st \<Longrightarrow> main_step M ok (True, s) st"
| terminate_signal: "main_step M ok st (handler st)"
| hangup_signal: "main_step M ok st (force_rescan st)"

inductive_cases main_stepE: "main_step M ok st st'"

text \<open>From the start of \<open>main\<close> to the loop. \<open>detached\<close> is the success of \<open>daemon\<close>; \<open>numa_available\<close> is
  \<open>-1\<close> in this build.\<close>

definition main_start ::
  "machine \<Rightarrow> world \<Rightarrow> bool \<Rightarrow> string list option \<Rightarrow> string list option \<Rightarrow> (char \<times> string) list \<Rightarrow> config \<times> sys
   \<Rightarrow> (int + config \<times> sys) option" where
  "main_start M w detached int_file stat_file opts st = do {
     r \<leftarrow> parse_command_line (alloc M) opts st;
     case r of
       Inl status \<Rightarrow> Some (Inl status)
     | Inr (c, s) \<Rightarrow> do {
         let s = (if environ w ''IRQBALANCE_ONESHOT'' \<noteq> None then s\<lparr>one_shot_mode := True\<rparr> else s);
         let (c, s) = (if environ w ''IRQBALANCE_DEBUG'' \<noteq> None then (c\<lparr>foreground_mode := True\<rparr>, s\<lparr>debug_mode := True\<rparr>)
                       else (c, s));
         s \<leftarrow> build_object_tree (alloc M) (junk M) (if policy_script c = None then w\<lparr>polscript := None\<rparr> else w) s;
         if core_count s < 2 then Some (Inl 0)
         else if \<not> foreground_mode c \<and> \<not> detached then Some (Inl 1)
         else do {
           s \<leftarrow> for_each_irq [] force_rebalance_irq s;
           s \<leftarrow> measure_work M int_file stat_file s;
           Some (Inr (c, s))
         }
       }
   }"

text \<open>After the loop.\<close>

definition main_exit :: "sys \<Rightarrow> sys option" where
  "main_exit s = do {
     s \<leftarrow> free_object_tree s;
     free_cl_opts s
   }"

text \<open>The variables as the program starts.\<close>

definition initial :: "config \<times> sys" where
  "initial = (\<lparr>foreground_mode = False, journal_logging = False, pidfile = None, policy_script = None, sleep_interval = 10\<rparr>,
     \<lparr>objs = Map.empty, irqs = Map.empty, numa_nodes = [], packages = [], cache_domains = [], cpus = [],
      interrupts_db = [], banned_irqs = [], cl_banned_irqs = [], cl_banned_modules = [], banned_irq_names = [],
      rebalance_irq_list = [], banned_cpus = CPU_MASK_NONE, unbanned_cpus = CPU_MASK_NONE, numa_avail = False,
      debug_mode = False, one_shot_mode = False, need_rescan = False, global_hint_policy = HINT_POLICY_IGNORE,
      power_thresh = ULLONG_MAX, deepest_cache = 2, cycle_count = 0, package_count = 0, cache_domain_count = 0,
      core_count = 0, cpu_possible_map = CPU_MASK_NONE, proc_int_has_msi = False, msi_found_in_sysfs = False,
      smp_affinity_log = []\<rparr>)"

end
