(* ===== verification/Loop.thy ===== *)
theory Loop
  imports Irqbalance
begin

text \<open>
  The invariant of the main loop of \<open>irqbalance.c\<close>: what a cycle leaves alone, what holds of the tree
  and the data base until the next rescan, and that a balancing step keeps it and writes no banned cpu.
\<close>

section \<open>What a cycle leaves alone\<close>

text \<open>A state with everything blanked that a cycle without rescan may change.\<close>

definition frozen_obj :: "topo_obj \<Rightarrow> topo_obj" where
  "frozen_obj d = d\<lparr>load := 0, last_load := 0, irq_count := 0, powersave_mode := False, interrupts := []\<rparr>"

definition frozen_irq :: "irq_info \<Rightarrow> irq_info" where
  "frozen_irq i = i\<lparr>i_irq_count := 0, last_irq_count := 0, i_load := 0, moved := False, assigned_obj := NULL, warned := False\<rparr>"

definition frozen :: "sys \<Rightarrow> sys" where
  "frozen s = s\<lparr>objs := map_option frozen_obj \<circ> objs s, irqs := map_option frozen_irq \<circ> irqs s, rebalance_irq_list := [],
     need_rescan := False, cycle_count := 0, proc_int_has_msi := False, msi_found_in_sysfs := False, smp_affinity_log := []\<rparr>"

lemma frozen_absorb:
  "frozen_obj (skel_obj d) = frozen_obj d" "frozen_irq (skel_irq i) = frozen_irq i"
  "frozen_obj (obj_shape d) = frozen_obj d" "frozen_irq (irq_shape i) = frozen_irq i"
  "frozen_obj (d\<lparr>powersave_mode := b\<rparr>) = frozen_obj d"
  by (simp_all add: frozen_obj_def frozen_irq_def skel_obj_def skel_irq_def obj_shape_def irq_shape_def)

lemma frozen_skel: "frozen (skel s) = frozen s"
  by (simp add: frozen_def skel_def frozen_absorb option.map_comp comp_def)

lemma frozen_shape: "frozen (sys_shape s) = frozen s"
  by (simp add: frozen_def sys_shape_def frozen_absorb option.map_comp comp_def)

lemma frozen_core: "frozen (core_shape s) = frozen s"
  unfolding core_shape_def frozen_shape
  by (simp add: frozen_def frozen_absorb option.map_comp comp_def)

lemma frozen_cong:
  "same_skel s s' \<Longrightarrow> frozen s' = frozen s" "sys_shape s' = sys_shape s \<Longrightarrow> frozen s' = frozen s"
  "core_shape s' = core_shape s \<Longrightarrow> frozen s' = frozen s"
  by (metis same_skel_def frozen_skel, metis frozen_shape, metis frozen_core)

text \<open>The facts about the tree and the data base that hold until the next rescan.\<close>

definition static :: "hp_e set \<Rightarrow> sys \<Rightarrow> bool" where
  "static H s \<longleftrightarrow> global_hint_policy s \<in> H \<and> 1 \<le> unat (deepest_cache s) \<and> unat (deepest_cache s) < 2 ^ 32 \<and> ok_levels s \<and> ok_parents s \<and> listed s \<and> db_lists s \<and> numa_nodes s = [unspecified_node]
     \<and> full_but {} s \<and> has_package s \<and> hung {} s
     \<and> (\<forall>a d. objs s a = Some d \<longrightarrow>
          (obj_type d \<noteq> OBJ_TYPE_NODE \<longrightarrow> cpus_of (mask d) \<inter> cpus_of (banned_cpus s) = {})
          \<and> (obj_type d = OBJ_TYPE_NODE \<longrightarrow> cpus_of (mask d) \<inter> cpus_of (unbanned_cpus s) \<noteq> {})
          \<and> (\<forall>c \<in> set (children d). \<forall>e. objs s c = Some e \<longrightarrow> depth (obj_type e) = depth (obj_type d) + 1))
     \<and> (\<forall>a \<in> set (interrupts_db s). \<forall>i. irqs s a = Some i \<longrightarrow>
          numa_node i = unspecified_node \<and> 0 \<le> level i \<and> level i \<le> 3 \<and> hint_policy i \<in> H \<and> class_ok (i_class i))"

lemma frozen_fields:
  "objs (frozen s) a = map_option frozen_obj (objs s a)" "irqs (frozen s) a = map_option frozen_irq (irqs s a)"
  "numa_nodes (frozen s) = numa_nodes s" "packages (frozen s) = packages s" "cache_domains (frozen s) = cache_domains s"
  "cpus (frozen s) = cpus s" "interrupts_db (frozen s) = interrupts_db s" "banned_irqs (frozen s) = banned_irqs s"
  "cl_banned_irqs (frozen s) = cl_banned_irqs s" "banned_cpus (frozen s) = banned_cpus s"
  "unbanned_cpus (frozen s) = unbanned_cpus s" "numa_avail (frozen s) = numa_avail s" "group (frozen s) = group s"
  "global_hint_policy (frozen s) = global_hint_policy s" "deepest_cache (frozen s) = deepest_cache s"
  "dom (objs (frozen s)) = dom (objs s)" "dom (irqs (frozen s)) = dom (irqs s)"
  by (auto simp: frozen_def group_def dom_def fun_eq_iff split: obj_type_e.split)

lemma frozen_obj_fields [simp]:
  "obj_type (frozen_obj d) = obj_type d" "children (frozen_obj d) = children d" "parent (frozen_obj d) = parent d"
  "mask (frozen_obj d) = mask d"
  by (simp_all add: frozen_obj_def)

lemma frozen_irq_fields [simp]:
  "irq (frozen_irq i) = irq i" "numa_node (frozen_irq i) = numa_node i" "level (frozen_irq i) = level i"
  "hint_policy (frozen_irq i) = hint_policy i" "i_class (frozen_irq i) = i_class i"
  by (simp_all add: frozen_irq_def)

lemma map_option_quant:
  "(\<forall>d. map_option f x = Some d \<longrightarrow> P d) \<longleftrightarrow> (\<forall>z. x = Some z \<longrightarrow> P (f z))"
  "(\<exists>d. map_option f x = Some d \<and> Q d) \<longleftrightarrow> (\<exists>z. x = Some z \<and> Q (f z))"
  by auto

lemma frozen_predicates:
  "ok_levels (frozen s) = ok_levels s" "ok_parents (frozen s) = ok_parents s" "listed (frozen s) = listed s"
  "db_lists (frozen s) = db_lists s" "full_but X (frozen s) = full_but X s" "has_package (frozen s) = has_package s"
  "hung X (frozen s) = hung X s"
  unfolding hung_def ok_levels_def ok_parents_def listed_def db_lists_def lists_ok_def irqs_valid_def full_but_def has_package_def frozen_fields map_option_quant
  by simp_all

lemma static_frozen: "static H (frozen s) = static H s"
  unfolding static_def frozen_predicates frozen_fields map_option_quant by simp

lemma static_cong: "frozen s' = frozen s \<Longrightarrow> static H s \<Longrightarrow> static H s'"
  by (metis static_frozen)

section \<open>The invariant of the main loop\<close>

text \<open>
  \<open>\<beta>\<close> chooses between two invariants. Without it: no irq is on a numa node, and only cpus are in
  powersave mode. With it, for a system where powersave is off: every assigned irq is on an object of
  its own level, and nothing is in powersave mode.
\<close>

definition target :: "bool \<Rightarrow> int" where
  "target \<beta> = (if \<beta> then 2 else 0)"

definition quiet :: "bool \<Rightarrow> sys \<Rightarrow> bool" where
  "quiet \<beta> s \<longleftrightarrow> (\<beta> \<longrightarrow> power_thresh s = ULLONG_MAX)
     \<and> (\<forall>a d. objs s a = Some d \<longrightarrow> \<beta> \<or> obj_type d \<noteq> OBJ_TYPE_CPU \<longrightarrow> \<not> powersave_mode d)"

definition homed :: "bool \<Rightarrow> sys \<Rightarrow> bool" where
  "homed \<beta> s \<longleftrightarrow> (\<forall>a \<in> set (interrupts_db s). \<forall>i d. irqs s a = Some i \<longrightarrow> objs s (assigned_obj i) = Some d \<longrightarrow>
     0 < depth (obj_type d) \<and> (\<beta> \<longrightarrow> depth (obj_type d) = level i))"

definition loop_inv :: "bool \<Rightarrow> hp_e set \<Rightarrow> sys \<Rightarrow> bool" where
  "loop_inv \<beta> H s \<longleftrightarrow> wf_sys s \<and> counts_ok s \<and> static H s \<and> quiet \<beta> s \<and> homed \<beta> s"

lemma depth_bounds: "0 \<le> depth t" "depth t \<le> 3" "depth t = 0 \<longleftrightarrow> t = OBJ_TYPE_NODE" "depth t = 3 \<longleftrightarrow> t = OBJ_TYPE_CPU"
  by (cases t; simp add: depth_def)+

lemma static_obj:
  assumes "static H s" "objs s a = Some d"
  shows "obj_type d \<noteq> OBJ_TYPE_NODE \<Longrightarrow> cpus_of (mask d) \<inter> cpus_of (banned_cpus s) = {}"
    "obj_type d = OBJ_TYPE_NODE \<Longrightarrow> cpus_of (mask d) \<inter> cpus_of (unbanned_cpus s) \<noteq> {}"
    "c \<in> set (children d) \<Longrightarrow> \<exists>e. objs s c = Some e \<and> depth (obj_type e) = depth (obj_type d) + 1"
    "a \<in> set (group s t) \<longleftrightarrow> obj_type d = t" "depth (obj_type d) < 3 \<Longrightarrow> children d \<noteq> []"
proof -
  note s = assms(1) [unfolded static_def]
  have o: "(obj_type d \<noteq> OBJ_TYPE_NODE \<longrightarrow> cpus_of (mask d) \<inter> cpus_of (banned_cpus s) = {})
      \<and> (obj_type d = OBJ_TYPE_NODE \<longrightarrow> cpus_of (mask d) \<inter> cpus_of (unbanned_cpus s) \<noteq> {})
      \<and> (\<forall>c \<in> set (children d). \<forall>e. objs s c = Some e \<longrightarrow> depth (obj_type e) = depth (obj_type d) + 1)"
    using s assms(2) by blast
  then show "obj_type d \<noteq> OBJ_TYPE_NODE \<Longrightarrow> cpus_of (mask d) \<inter> cpus_of (banned_cpus s) = {}"
    "obj_type d = OBJ_TYPE_NODE \<Longrightarrow> cpus_of (mask d) \<inter> cpus_of (unbanned_cpus s) \<noteq> {}" by blast+
  have "ok_levels s" using s by blast
  note v = ok_levelsD(2) [OF this assms(2)]
  show "\<exists>e. objs s c = Some e \<and> depth (obj_type e) = depth (obj_type d) + 1" if c: "c \<in> set (children d)"
  proof -
    obtain e where "objs s c = Some e" using v [OF c] by blast
    with o c show ?thesis by blast
  qed
  have l: "listed s" using s by blast
  show g: "a \<in> set (group s t) \<longleftrightarrow> obj_type d = t" for t
    using l assms(2) unfolding listed_def by (metis option.inject)
  show "children d \<noteq> []" if dd: "depth (obj_type d) < 3"
  proof (cases "obj_type d = OBJ_TYPE_NODE")
    case True
    then have "a = unspecified_node" using g [of OBJ_TYPE_NODE] s by (simp add: group_def)
    then show ?thesis using s assms(2) by (auto simp: has_package_def)
  next
    case False
    then have "obj_type d = OBJ_TYPE_CACHE \<or> obj_type d = OBJ_TYPE_PACKAGE" using dd by (cases "obj_type d") (simp_all add: depth_def)
    then show ?thesis using s assms(2) by (auto simp: full_but_def)
  qed
qed

lemma static_node:
  assumes "static H s"
  shows "\<exists>d. objs s unspecified_node = Some d \<and> obj_type d = OBJ_TYPE_NODE"
proof -
  have "unspecified_node \<in> set (group s OBJ_TYPE_NODE)" "listed s" using assms by (simp_all add: static_def group_def)
  then show ?thesis unfolding listed_def by blast
qed

lemma static_irq:
  assumes "static H s" "a \<in> set (interrupts_db s)" "irqs s a = Some i"
  shows "numa_node i = unspecified_node" "0 \<le> level i" "level i \<le> 3" "hint_policy i \<in> H"
  using assms unfolding static_def by blast+

lemma ready_static:
  assumes s: "static H s" and H: "HINT_POLICY_SUBSET \<notin> H" and q: "quiet \<beta> s"
  shows "ready (target \<beta>) s"
  unfolding ready_def
proof (intro conjI allI impI ballI)
  fix a d assume a: "objs s a = Some d"
  show "a \<in> set (numa_nodes s) \<longleftrightarrow> obj_type d = OBJ_TYPE_NODE" "a \<in> set (packages s) \<longleftrightarrow> obj_type d = OBJ_TYPE_PACKAGE"
    "a \<in> set (cache_domains s) \<longleftrightarrow> obj_type d = OBJ_TYPE_CACHE"
    using static_obj(4) [OF s a, of OBJ_TYPE_NODE] static_obj(4) [OF s a, of OBJ_TYPE_PACKAGE]
      static_obj(4) [OF s a, of OBJ_TYPE_CACHE] by (simp_all add: group_def)
  show "depth (obj_type e) = depth (obj_type d) + 1" if "c \<in> set (children d)" "objs s c = Some e" for c e
    using static_obj(3) [OF s a that(1)] that(2) by auto
next
  fix a i assume a: "a \<in> set (interrupts_db s)" "irqs s a = Some i"
  note si = static_irq [OF s a]
  show "0 \<le> level i" "level i \<le> 3" using si by blast+
  have nn: "numa_nodes s = [unspecified_node]" "\<not> numa_avail s" using s by (simp_all add: static_def db_lists_def)
  then show "numa_node i \<in> set (numa_nodes s)" using si(1) by simp
  have el: "eligible s i d" if "objs s x = Some d" "obj_type d = OBJ_TYPE_NODE \<or> \<beta> \<or> obj_type d \<noteq> OBJ_TYPE_CPU" for x d
    using that nn(2) si(4) H q static_obj(2) [OF s that(1)] unfolding eligible_def quiet_def by auto
  obtain d where d: "objs s unspecified_node = Some d" "obj_type d = OBJ_TYPE_NODE" using static_node [OF s] by blast
  then show "\<exists>n \<in> set (numa_nodes s). \<exists>d. objs s n = Some d \<and> eligible s i d" using el nn(1) by auto
  fix x d assume x: "objs s x = Some d" "depth (obj_type d) \<le> target \<beta>"
  then have "depth (obj_type d) < 3" by (simp add: target_def split: if_splits)
  then obtain c where c: "c \<in> set (children d)" using static_obj(5) [OF s x(1)] by (cases "children d") auto
  then obtain e where e: "objs s c = Some e" "depth (obj_type e) = depth (obj_type d) + 1" using static_obj(3) [OF s x(1)] by blast
  have "\<beta> \<or> obj_type e \<noteq> OBJ_TYPE_CPU" using e(2) x(2) depth_bounds(4) [of "obj_type e"] by (auto simp: target_def split: if_splits)
  then show "\<exists>c \<in> set (children d). \<exists>e. objs s c = Some e \<and> eligible s i e" using c e(1) el by blast
qed

lemma settled_homed:
  assumes w: "wf_sys s" and h: "homed \<beta> s"
  shows "settled \<beta> (target \<beta>) {} (set (rebalance_irq_list s)) s"
  unfolding settled_def
proof (intro ballI allI impI)
  fix a i assume a: "a \<in> set (interrupts_db s)" "irqs s a = Some i"
  have "ok_lists s" using w by (simp add: wf_sys_def)
  note l = ok_listsD(5) [OF this a]
  have "0 < depth (obj_type d) \<and> (\<beta> \<longrightarrow> depth (obj_type d) = level i)" if "objs s (assigned_obj i) = Some d" for d
    using h a that unfolding homed_def by blast
  then show "irq_settled \<beta> (target \<beta>) {} (set (rebalance_irq_list s)) s a i"
    using l unfolding irq_settled_def target_def by auto
qed

lemma homed_settled:
  assumes w: "wf_sys s" and st: "settled \<beta> (target \<beta>) {} {} s" and s: "static H s"
  shows "homed \<beta> s"
  unfolding homed_def
proof (intro ballI allI impI)
  fix a i d assume a: "a \<in> set (interrupts_db s)" "irqs s a = Some i" "objs s (assigned_obj i) = Some d"
  have ok: "ok_lists s" "objs s NULL = None" using w by (simp_all add: wf_sys_def ok_irqs_def)
  then have "assigned_obj i \<noteq> NULL" using a(3) by (cases "assigned_obj i = NULL") auto
  then have lv: "level i \<noteq> 0" using ok_listsD(4) [OF ok(1) a(1,2)] by auto
  have "irq_settled \<beta> (target \<beta>) {} {} s a i" by (rule settled_irq [OF st a(1,2)])
  then show "0 < depth (obj_type d) \<and> (\<beta> \<longrightarrow> depth (obj_type d) = level i)"
    using a(3) lv static_irq(2,3) [OF s a(1,2)] depth_bounds [of "obj_type d"]
    unfolding irq_settled_def target_def by (auto split: if_splits)
qed

lemma skel_lookup:
  assumes "same_skel s s'" "objs s' x = Some d'"
  shows "\<exists>d. objs s x = Some d \<and> obj_type d' = obj_type d \<and> powersave_mode d' = powersave_mode d"
proof -
  obtain d where d: "objs s x = Some d" "skel_obj d' = skel_obj d"
    using same_skel_store(1) [OF assms(1), of x] assms(2) by (cases "objs s x") auto
  then show ?thesis using skel_objD(3,6) [OF d(2)] by blast
qed

lemma homed_skel:
  assumes "same_skel s s'" "homed \<beta> s"
  shows "homed \<beta> s'"
  unfolding homed_def same_skelD(5) [OF assms(1)]
proof (intro ballI allI impI)
  fix a i' d' assume a: "a \<in> set (interrupts_db s)" "irqs s' a = Some i'" "objs s' (assigned_obj i') = Some d'"
  obtain i where i: "irqs s a = Some i" "assigned_obj i' = assigned_obj i" "level i' = level i"
    by (rule same_skel_irq [OF assms(1) a(2)])
  obtain d where "objs s (assigned_obj i') = Some d" "obj_type d' = obj_type d" using skel_lookup [OF assms(1) a(3)] by blast
  then show "0 < depth (obj_type d') \<and> (\<beta> \<longrightarrow> depth (obj_type d') = level i')"
    using assms(2) a(1) i unfolding homed_def by simp
qed

lemma quiet_skel:
  assumes "same_skel s s'" "quiet \<beta> s"
  shows "quiet \<beta> s'"
proof -
  have "power_thresh (skel s') = power_thresh (skel s)" using assms(1) by (simp add: same_skel_def)
  then have "power_thresh s' = power_thresh s" by (simp add: skel_def)
  then show ?thesis using assms(2) skel_lookup [OF assms(1)] unfolding quiet_def by metis
qed

lemma loop_inv_skel:
  assumes "same_skel s s'" "counts_ok s'" "loop_inv \<beta> H s"
  shows "loop_inv \<beta> H s'"
  using assms wf_sys_skel [OF assms(1)] static_cong [OF frozen_cong(1) [OF assms(1)]] quiet_skel [OF assms(1)] homed_skel [OF assms(1)]
  unfolding loop_inv_def by blast

lemma shape_counts:
  assumes "sys_shape s' = sys_shape s" "counts_ok s"
  shows "counts_ok s'"
  unfolding counts_ok_def
proof (intro allI impI)
  fix a i' assume "irqs s' a = Some i'"
  then obtain i where i: "irqs s a = Some i" "irq_shape i' = irq_shape i" using shape_orig(2) [OF assms(1)] by blast
  then have "last_irq_count i' = last_irq_count i" "i_irq_count i' = i_irq_count i" by (cases i; cases i'; simp add: irq_shape_def)+
  then show "last_irq_count i' \<le> i_irq_count i'" using assms(2) i(1) by (simp add: counts_ok_def)
qed

lemma core_counts:
  assumes "core_shape s' = core_shape s" "counts_ok s"
  shows "counts_ok s'"
proof -
  have "counts_ok (s'\<lparr>objs := f'\<rparr>)" if "sys_shape (s'\<lparr>objs := f'\<rparr>) = sys_shape (s\<lparr>objs := f\<rparr>)" for f f'
    by (rule shape_counts [OF that]) (use assms(2) in \<open>simp add: counts_ok_def\<close>)
  from this [OF assms(1) [unfolded core_shape_def]] show ?thesis by (simp add: counts_ok_def)
qed

text \<open>No load can reach \<open>ULLONG_MAX\<close> in the next placement round.\<close>

definition loads_fit :: "sys \<Rightarrow> bool" where
  "loads_fit s \<longleftrightarrow> (\<exists>B. irq_loads_lt s B \<and> loads_le s B \<and> B + round_steps s * B < 2 ^ 64 - 1)"

text \<open>
  What the invariant of the loop needs of a step that keeps the shape of the state and only takes irqs off
  their objects: the places of the irqs left, the powersave mode, and the bound on the loads.
\<close>

lemma core_obj_type:
  assumes "core_shape s' = core_shape s" "objs s' x = Some d'"
  shows "\<exists>d. objs s x = Some d \<and> obj_type d' = obj_type d"
proof -
  have "objs (frozen s') x = objs (frozen s) x" using frozen_cong(3) [OF assms(1)] by simp
  then obtain d where d: "objs s x = Some d" "frozen_obj d' = frozen_obj d"
    using assms(2) by (cases "objs s x") (auto simp: frozen_fields)
  then have "obj_type d' = obj_type d" by (metis frozen_obj_fields(1))
  with d(1) show ?thesis by blast
qed

lemma eases_homed:
  assumes e: "eases s s'" "core_shape s' = core_shape s" and n: "objs s' NULL = None" and h: "homed \<beta> s"
  shows "homed \<beta> s'"
  unfolding homed_def core_shapeD(5) [OF e(2)]
proof (intro ballI allI impI)
  fix a i d' assume a: "a \<in> set (interrupts_db s)" "irqs s' a = Some i" "objs s' (assigned_obj i) = Some d'"
  have "assigned_obj i \<noteq> NULL" using n a(3) by (cases "assigned_obj i = NULL") auto
  then have i: "irqs s a = Some i" using e(1) a(2) unfolding eases_def by blast
  obtain d where "objs s (assigned_obj i) = Some d" "obj_type d' = obj_type d" using core_obj_type [OF e(2) a(3)] by blast
  then show "0 < depth (obj_type d') \<and> (\<beta> \<longrightarrow> depth (obj_type d') = level i)" using h a(1) i unfolding homed_def by simp
qed

lemma eases_quiet:
  assumes e: "eases s s'" "core_shape s' = core_shape s" "power_thresh s = ULLONG_MAX \<longrightarrow> sys_shape s' = sys_shape s"
    and st: "static H s" and q: "quiet \<beta> s"
  shows "quiet \<beta> s'"
  unfolding quiet_def
proof (intro conjI allI impI)
  have "power_thresh (frozen s') = power_thresh (frozen s)" using frozen_cong(3) [OF e(2)] by simp
  then have pt: "power_thresh s' = power_thresh s" by (simp add: frozen_def)
  then show "\<beta> \<Longrightarrow> power_thresh s' = ULLONG_MAX" using q by (simp add: quiet_def)
  fix a d' assume a: "objs s' a = Some d'" "\<beta> \<or> obj_type d' \<noteq> OBJ_TYPE_CPU"
  obtain d where d: "objs s a = Some d" "obj_type d' = obj_type d" using core_obj_type [OF e(2) a(1)] by blast
  have "powersave_mode d' = powersave_mode d"
  proof (cases \<beta>)
    case True
    then have "sys_shape s' = sys_shape s" using q e(3) by (simp add: quiet_def)
    from shape_orig(1) [OF this a(1)] d(1) have "obj_shape d' = obj_shape d" by simp
    then show ?thesis by (rule obj_shapeD(5))
  next
    case False
    then have "a \<notin> set (cpus s)" using static_obj(4) [OF st d(1), of OBJ_TYPE_CPU] a(2) d(2) by (simp add: group_def)
    then have "map_option powersave_mode (objs s' a) = map_option powersave_mode (objs s a)" using e(1) unfolding eases_def by blast
    then show ?thesis using a(1) d(1) by simp
  qed
  then show "\<not> powersave_mode d'" using q d a(2) unfolding quiet_def by auto
qed

lemma eases_loads_fit:
  assumes e: "eases s s'" "core_shape s' = core_shape s" and f: "loads_fit s"
  shows "loads_fit s'"
proof -
  note cs = core_shapeD [OF e(2)]
  obtain B where B: "irq_loads_lt s B" "loads_le s B" "B + round_steps s * B < 2 ^ 64 - 1" using f by (auto simp: loads_fit_def)
  have "unat (load d') \<le> B" if a: "objs s' a = Some d'" for a d'
  proof -
    have "map_option load (objs s' a) = map_option load (objs s a)" using e(1) unfolding eases_def by blast
    then obtain d where "objs s a = Some d" "load d' = load d" using a by (cases "objs s a") auto
    then show ?thesis using B(2) by (simp add: loads_le_def)
  qed
  then have "loads_le s' B" by (simp add: loads_le_def)
  moreover have "irq_loads_lt s' B" unfolding irq_loads_lt_def cs(5)
  proof (intro ballI allI impI)
    fix a i' assume a: "a \<in> set (interrupts_db s)" "irqs s' a = Some i'"
    obtain i where "irqs s a = Some i" "irq_shape i' = irq_shape i"
      using shape_orig(2) [OF e(2) [unfolded core_shape_def], of a i'] a(2) by auto
    then show "unat (i_load i') < B" using B(1) a(1) irq_shapeD(2) [of i' i] by (auto simp: irq_loads_lt_def)
  qed
  moreover have "round_steps s' = round_steps s" by (simp add: round_steps_def cs)
  ultimately show ?thesis using B(3) by (auto simp: loads_fit_def)
qed

lemma update_migration_loop:
  assumes li: "loop_inv \<beta> H s" and f: "loads_fit s"
  shows "\<exists>s'. update_migration_status s = Some s' \<and> loop_inv \<beta> H s' \<and> loads_fit s' \<and> frozen s' = frozen s
    \<and> smp_affinity_log s' = smp_affinity_log s"
proof -
  have w: "wf_sys s" and c: "counts_ok s" and st: "static H s" and q: "quiet \<beta> s" and h: "homed \<beta> s"
    using li by (simp_all add: loop_inv_def)
  obtain s' where s': "update_migration_status s = Some s'" "wf_sys s'" "core_shape s' = core_shape s" "eases s s'"
    "power_thresh s = ULLONG_MAX \<longrightarrow> sys_shape s' = sys_shape s" using update_migration_status_ok [OF w] by blast
  note fr = frozen_cong(3) [OF s'(3)]
  have "objs s' NULL = None" using s'(2) by (simp add: wf_sys_def ok_irqs_def)
  then have "loop_inv \<beta> H s'"
    using s'(2) static_cong [OF fr st] core_counts [OF s'(3) c] eases_quiet [OF s'(4,3,5) st q] eases_homed [OF s'(4,3) _ h]
    by (simp add: loop_inv_def)
  moreover have "smp_affinity_log (core_shape s') = smp_affinity_log (core_shape s)" using s'(3) by simp
  then have "smp_affinity_log s' = smp_affinity_log s" by (simp add: core_shape_def sys_shape_def)
  ultimately show ?thesis using s'(1) fr eases_loads_fit [OF s'(4,3) f] by blast
qed

section \<open>One balancing step\<close>

text \<open>Every irq that is to be balanced is on an object of its level.\<close>

definition all_placed :: "sys \<Rightarrow> bool" where
  "all_placed s \<longleftrightarrow> (\<forall>a \<in> set (interrupts_db s). \<forall>i. irqs s a = Some i \<longrightarrow> level i \<noteq> BALANCE_NONE \<longrightarrow>
     (\<exists>d. objs s (assigned_obj i) = Some d \<and> depth (obj_type d) = level i \<and> a \<in> set (interrupts d)))"

lemma all_placedI:
  assumes li: "loop_inv True H s" and un: "\<forall>a \<in> set (interrupts_db s). \<forall>i. irqs s a = Some i \<longrightarrow> level i \<noteq> BALANCE_NONE \<longrightarrow> assigned_obj i \<noteq> NULL"
  shows "all_placed s"
  unfolding all_placed_def
proof (intro ballI allI impI)
  fix a i assume a: "a \<in> set (interrupts_db s)" "irqs s a = Some i" "level i \<noteq> BALANCE_NONE"
  have ok: "ok_lists s" and h: "homed True s" using li by (simp_all add: loop_inv_def wf_sys_def)
  have "assigned_obj i \<noteq> NULL" using un a by blast
  then obtain d where d: "objs s (assigned_obj i) = Some d" using ok_listsD(1) [OF ok a(1,2)] by blast
  then have "depth (obj_type d) = level i" using h a(1,2) unfolding homed_def by blast
  moreover have "get_list (ObjIrqs (assigned_obj i)) s = Some (interrupts d)" using d by (simp add: get_list_def)
  then have "a \<in> set (interrupts d)" using ok_listsD(2) [OF ok a(1,2)] by blast
  ultimately show "\<exists>d. objs s (assigned_obj i) = Some d \<and> depth (obj_type d) = level i \<and> a \<in> set (interrupts d)" using d by blast
qed

lemma homed_unbanned:
  assumes "static H s" "homed \<beta> s"
  shows "placed_unbanned s"
  unfolding placed_unbanned_def
proof (intro ballI allI impI)
  fix a i d assume a: "a \<in> set (interrupts_db s)" "irqs s a = Some i" "objs s (assigned_obj i) = Some d"
  then have "0 < depth (obj_type d)" using assms(2) unfolding homed_def by blast
  then have "obj_type d \<noteq> OBJ_TYPE_NODE" using depth_bounds(3) [of "obj_type d"] by simp
  then show "cpus_of (mask d) \<inter> cpus_of (banned_cpus s) = {}" by (rule static_obj(1) [OF assms(1) a(3)])
qed

lemma activated_counts:
  assumes "activated s s'" "counts_ok s"
  shows "counts_ok s'"
  unfolding counts_ok_def
proof (intro allI impI)
  fix a i' assume a: "irqs s' a = Some i'"
  have "irqs (act_shape s') a = irqs (act_shape s) a" using assms(1) by (simp add: activated_def)
  then obtain i where i: "irqs s a = Some i" "irq_flags i' = irq_flags i"
    using a by (cases "irqs s a") (auto simp: act_shape_def)
  then have "last_irq_count i' = last_irq_count i" "i_irq_count i' = i_irq_count i" by (cases i; cases i'; simp add: irq_flags_def)+
  then show "last_irq_count i' \<le> i_irq_count i'" using assms(2) i(1) by (simp add: counts_ok_def)
qed

lemma loop_inv_log [simp]: "loop_inv \<beta> H (s\<lparr>smp_affinity_log := l\<rparr>) = loop_inv \<beta> H s"
proof -
  have "frozen (s\<lparr>smp_affinity_log := l\<rparr>) = frozen s" by (simp add: frozen_def)
  from static_frozen [of H s] static_frozen [of H "s\<lparr>smp_affinity_log := l\<rparr>"] this show ?thesis
    by (simp add: loop_inv_def quiet_def homed_def counts_ok_def)
qed

lemma activated_loop:
  assumes "activated s s'" "loop_inv \<beta> H s"
  shows "loop_inv \<beta> H s'" "frozen s' = frozen s"
proof -
  have "counts_ok (s'\<lparr>smp_affinity_log := []\<rparr>)"
    using activated_counts [OF assms(1)] assms(2) by (simp add: loop_inv_def counts_ok_def)
  then show "loop_inv \<beta> H s'" using loop_inv_skel [OF activated_skel [OF assms(1)]] assms(2) by simp
  show "frozen s' = frozen s" using frozen_cong(1) [OF activated_skel [OF assms(1)]] by (simp add: frozen_def)
qed

text \<open>A placement round in the loop.\<close>

lemma placement_loop:
  assumes li: "loop_inv \<beta> H s" and f: "loads_fit s" and H: "HINT_POLICY_SUBSET \<notin> H"
  shows "\<exists>s'. calculate_placement s = Some (s', []) \<and> loop_inv \<beta> H s' \<and> sys_shape s' = sys_shape s \<and> settled \<beta> (target \<beta>) {} {} s'"
proof -
  have w: "wf_sys s" and st: "static H s" and q: "quiet \<beta> s" and h: "homed \<beta> s" and c: "counts_ok s"
    using li by (simp_all add: loop_inv_def)
  obtain B where B: "irq_loads_lt s B" "loads_le s B" "B + round_steps s * B < 2 ^ 64 - 1" using f by (auto simp: loads_fit_def)
  have "0 \<le> target \<beta>" "target \<beta> \<le> 2" by (simp_all add: target_def)
  then obtain s' where s': "calculate_placement s = Some (s', [])" "wf_sys s'" "sys_shape s' = sys_shape s" "settled \<beta> (target \<beta>) {} {} s'"
    using calculate_placement_ok [OF w B, of "target \<beta>" \<beta>] ready_static [OF st H q] settled_homed [OF w h] by blast
  have st': "static H s'" by (rule static_cong [OF frozen_cong(2) [OF s'(3)] st])
  have "quiet \<beta> s'" unfolding quiet_def
  proof (intro conjI allI impI)
    show "\<beta> \<Longrightarrow> power_thresh s' = ULLONG_MAX" using q sys_shape_fields(12) [of s] sys_shape_fields(12) [of s'] s'(3) by (simp add: quiet_def)
    fix a d' assume a: "objs s' a = Some d'" "\<beta> \<or> obj_type d' \<noteq> OBJ_TYPE_CPU"
    obtain d where d: "objs s a = Some d" "obj_shape d' = obj_shape d" using shape_orig(1) [OF s'(3) a(1)] by blast
    show "\<not> powersave_mode d'" using q d(1) a(2) obj_shapeD(3,5) [OF d(2)] unfolding quiet_def by auto
  qed
  then have "loop_inv \<beta> H s'"
    using s'(2) st' homed_settled [OF s'(2,4) st'] shape_counts [OF s'(3) c] by (simp add: loop_inv_def)
  with s' show ?thesis by blast
qed

lemma settled_all_placed:
  assumes "settled True (target True) {} {} s" "activated s s'" "loop_inv True H s'"
  shows "all_placed s'"
proof (rule all_placedI [OF assms(3)], intro ballI allI impI)
  fix a i' assume a: "a \<in> set (interrupts_db s')" "irqs s' a = Some i'" "level i' \<noteq> BALANCE_NONE"
  note sk = activated_skel [OF assms(2)]
  obtain i where i: "irqs s a = Some i" "assigned_obj i' = assigned_obj i" "level i' = level i"
    using same_skel_irq [OF sk, of a i'] a(2) by auto
  have "a \<in> set (interrupts_db s)" using a(1) same_skelD(5) [OF sk] by simp
  from settled_irq [OF assms(1) this i(1)] show "assigned_obj i' \<noteq> NULL" using a(3) i(2,3) by (auto simp: irq_settled_def)
qed

lemma balance_ok:
  assumes li: "loop_inv \<beta> H s" and f: "loads_fit s" and H: "HINT_POLICY_SUBSET \<notin> H" and rd: "\<And>n. rd_affinity x n \<noteq> NoLine"
  shows "\<exists>s' out. balance x s = Some s' \<and> loop_inv \<beta> H s' \<and> frozen s' = frozen s
    \<and> smp_affinity_log s' = smp_affinity_log s @ out \<and> (\<forall>y \<in> set out. safe_write s y) \<and> (\<beta> \<longrightarrow> all_placed s')"
proof -
  obtain s1 where s1: "(if cycle_count s \<noteq> 0 then update_migration_status s else Some s) = Some s1" "loop_inv \<beta> H s1" "loads_fit s1"
    "frozen s1 = frozen s" "smp_affinity_log s1 = smp_affinity_log s"
    using update_migration_loop [OF li f] li f by (cases "cycle_count s = 0") auto
  obtain s2 where s2: "calculate_placement s1 = Some (s2, [])" "loop_inv \<beta> H s2" "sys_shape s2 = sys_shape s1" "settled \<beta> (target \<beta>) {} {} s2"
    using placement_loop [OF s1(2,3) H] by blast
  have "wf_sys s2" "static H s2" "homed \<beta> s2" using s2(2) by (simp_all add: loop_inv_def)
  then obtain s3 out where s3: "activate_mappings (rd_affinity x) (wr_affinity x) s2 = Some s3" "activated s2 s3"
    "smp_affinity_log s3 = smp_affinity_log s2 @ out" "\<forall>y \<in> set out. safe_write s2 y"
    using activate_mappings_ok [OF _ homed_unbanned, of s2 H \<beta> "rd_affinity x" "wr_affinity x"] rd by blast
  have fr2: "frozen s2 = frozen s" using frozen_cong(2) [OF s2(3)] s1(4) by simp
  then have li3: "loop_inv \<beta> H s3" and fr: "frozen s3 = frozen s" using activated_loop [OF s3(2) s2(2)] by simp_all
  have "smp_affinity_log s2 = smp_affinity_log s1" using sys_shape_fields(11) [of s1] sys_shape_fields(11) [of s2] s2(3) by simp
  then have "smp_affinity_log s3 = smp_affinity_log s @ out" using s3(3) s1(5) by simp
  moreover have "banned_cpus (frozen s2) = banned_cpus (frozen s)" using fr2 by simp
  then have "safe_write s2 = safe_write s" by (simp add: frozen_fields safe_write_def)
  moreover have "\<beta> \<longrightarrow> all_placed s3" using settled_all_placed [OF _ s3(2), of H] s2(4) li3 by auto
  moreover have "balance x s = Some s3" using s1(1) s2(1) s3(1) by (simp add: balance_def)
  ultimately show ?thesis using li3 fr s3(4) by auto
qed

end
