(* ===== verification/Cycle.thy ===== *)
theory Cycle
  imports Loop
begin

text \<open>
  A whole cycle of the main loop: measuring, building and freeing the tree and the data base, the rescan,
  and the cycle itself, which keeps the invariant of \<open>Loop\<close>, writes no banned cpu and puts every irq on
  an object of its level.
\<close>

section \<open>Measuring\<close>

definition stat_file_ok :: "string list option \<Rightarrow> bool" where
  "stat_file_ok f \<longleftrightarrow> (\<forall>ls. f = Some ls \<longrightarrow> stat_lines_ok ls)"

lemma loop_invD:
  assumes "loop_inv \<beta> H s"
  shows "ok_sys s" "ok_parents s" "counts_ok s" "\<forall>a \<in> set (banned_irqs s). irqs s a \<noteq> None" "lists_ok s" "static H s"
proof -
  show "ok_sys s" "ok_parents s" "counts_ok s" "static H s" and l: "lists_ok s"
    using assms by (simp_all add: loop_inv_def static_def ok_sys_def db_lists_def)
  show "\<forall>a \<in> set (banned_irqs s). irqs s a \<noteq> None" using l by (auto simp: lists_ok_def irqs_valid_def)
qed

lemma measure_work_ok:
  assumes li: "loop_inv \<beta> H s" and f: "stat_file_ok f2"
  shows "\<exists>s'. measure_work M f1 f2 s = Some s' \<and> loop_inv \<beta> H s' \<and> same_skel s s' \<and> (need_rescan s \<longrightarrow> need_rescan s')"
proof -
  note d = loop_invD [OF li]
  have w: "wf_sys s" using li by (simp add: loop_inv_def)
  obtain s1 where s1: "parse_proc_interrupts f1 s = Some s1" "same_skel s s1" "counts_ok s1" "need_rescan s \<longrightarrow> need_rescan s1"
    using parse_proc_interrupts_ok [OF w d(3,4)] by blast
  have li1: "loop_inv \<beta> H s1" by (rule loop_inv_skel [OF s1(2,3) li])
  note d1 = loop_invD [OF this]
  obtain s2 where s2: "parse_proc_stat (hz M) f2 s1 = Some s2" "same_skel s1 s2" "counts_ok s2" "need_rescan s2 = need_rescan s1"
    using parse_proc_stat_ok [OF d1(1,2,3), of f2 "hz M"] f by (auto simp: stat_file_ok_def)
  have "loop_inv \<beta> H s2" by (rule loop_inv_skel [OF s2(2,3) li1])
  moreover have "same_skel s s2" using s1(2) s2(2) by (simp add: same_skel_def)
  ultimately show ?thesis using s1(1,4) s2(1,4) by (simp add: measure_work_def)
qed

lemma clear_work_stats_loop:
  assumes li: "loop_inv \<beta> H s"
  shows "\<exists>s'. clear_work_stats s = Some s' \<and> loop_inv \<beta> H s' \<and> same_skel s s' \<and> need_rescan s' = need_rescan s"
proof -
  obtain s' where s': "clear_work_stats s = Some s'" "zeroed s s'"
    using clear_work_stats_ok [OF loop_invD(1) [OF li]] by blast
  note z = zeroed_skel [OF s'(2)]
  have "loop_inv \<beta> H s'" by (rule loop_inv_skel [OF z(1) counts_ok_only_loads [OF z(3) loop_invD(3) [OF li]] li])
  moreover have "need_rescan s' = need_rescan s" using z(3) by (simp add: only_loads_def)
  ultimately show ?thesis using s'(1) z(1) by blast
qed

section \<open>Building and freeing\<close>

text \<open>A state without a tree and without a data base: the state at the start, and the one \<open>free_object_tree\<close>
  leaves. The options are part of it.\<close>

definition options_ok :: "bool \<Rightarrow> hp_e set \<Rightarrow> sys \<Rightarrow> bool" where
  "options_ok \<beta> H s \<longleftrightarrow> global_hint_policy s \<in> H \<and> 1 \<le> unat (deepest_cache s) \<and> unat (deepest_cache s) < 2 ^ 32
     \<and> (\<beta> \<longrightarrow> power_thresh s = ULLONG_MAX) \<and> \<not> numa_avail s"

definition blank :: "bool \<Rightarrow> hp_e set \<Rightarrow> sys \<Rightarrow> bool" where
  "blank \<beta> H s \<longleftrightarrow> cleared s \<and> lists_ok s \<and> counts_ok s \<and> options_ok \<beta> H s
     \<and> interrupts_db s = [] \<and> banned_irqs s = [] \<and> rebalance_irq_list s = []"

text \<open>What the program relies on in the system it scans: cpu directories as the kernel makes them, at least
  one online cpu that is not banned, readable irq sources, and a policy script, if any, that sets no hint
  policy outside \<open>H\<close>.\<close>

definition world_ok :: "hp_e set \<Rightarrow> world \<Rightarrow> bool" where
  "world_ok H w \<longleftrightarrow> cpu_sysfs_ok w False \<and> script_ok H w
     \<and> (\<forall>s m. setup_banned_cpus w s = Some (s\<lparr>banned_cpus := m\<rparr>) \<longrightarrow> usable_cpus w (cpu_paths w) (cpus_of m) \<noteq> [])
     \<and> (\<forall>h \<in> H. \<exists>nss tmp. irq_sources w h = Some (nss, tmp) \<and> sum_list (map length nss) + length tmp < 2 ^ 32)"

text \<open>Without its policy script a world reads the same.\<close>

lemma no_script_reads:
  fixes w :: world
  defines "w' \<equiv> w\<lparr>polscript := None\<rparr>"
  shows "read_cpulist w' = read_cpulist w" "cpu_paths w' = cpu_paths w" "cpu_online w' = cpu_online w" "cpu_dir_ok w' = cpu_dir_ok w"
    "setup_banned_cpus w' = setup_banned_cpus w" "guess_arm_irq_hints w' = guess_arm_irq_hints w" "dev_irqs w' = dev_irqs w"
proof -
  have sel: "contents w' = contents w" "entries w' = entries w" "environ w' = environ w" "regexec w' = regexec w"
    by (simp_all add: w'_def)
  show rc: "read_cpulist w' = read_cpulist w" unfolding read_cpulist_def sel ..
  show "cpu_paths w' = cpu_paths w" unfolding cpu_paths_def sel ..
  show "cpu_online w' = cpu_online w" unfolding cpu_online_def file_first_line_def sel ..
  show "cpu_dir_ok w' = cpu_dir_ok w" unfolding cpu_dir_ok_def sel ..
  show "dev_irqs w' = dev_irqs w" unfolding dev_irqs_def sel ..
  show "setup_banned_cpus w' = setup_banned_cpus w" unfolding setup_banned_cpus_def rc sel ..
  have "check_platform_device w' = check_platform_device w" unfolding check_platform_device_def sel ..
  then have "guess_step w' = guess_step w" unfolding guess_step_def sel by (rule arg_cong)
  then show "guess_arm_irq_hints w' = guess_arm_irq_hints w" unfolding guess_arm_irq_hints_def by (rule arg_cong)
qed

lemma world_ok_no_script:
  assumes "world_ok H w"
  shows "world_ok H (w\<lparr>polscript := None\<rparr>)"
proof -
  have "irq_line (w\<lparr>polscript := None\<rparr>) = irq_line w" unfolding irq_line_def no_script_reads ..
  then have "irq_lines (w\<lparr>polscript := None\<rparr>) h ls = irq_lines w h ls" for h ls by (induction ls) (simp_all cong: if_cong)
  then have "irq_sources (w\<lparr>polscript := None\<rparr>) h = irq_sources w h" for h
    unfolding irq_sources_def collect_full_irq_list_def no_script_reads by (simp cong: option.case_cong)
  then show ?thesis using assms by (simp add: world_ok_def cpu_sysfs_ok_def usable_cpus_def no_script_reads)
qed

text \<open>A tree and a data base just built: no irq is assigned.\<close>

definition fresh :: "hp_e set \<Rightarrow> sys \<Rightarrow> bool" where
  "fresh H s \<longleftrightarrow> (\<exists>K k. built {} K s \<and> db_ok H k s \<and> K < 2 ^ 32 \<and> k < 2 ^ 32) \<and> full_but {} s \<and> has_package s \<and> hung {} s
     \<and> numa_nodes s = [unspecified_node] \<and> rebalance_irq_list s = []
     \<and> (\<exists>d. objs s unspecified_node = Some d \<and> cpus_of (mask d) \<inter> cpus_of (unbanned_cpus s) \<noteq> {})"

lemma no_db_fields:
  assumes "no_db s' = no_db (s\<lparr>rebalance_irq_list := []\<rparr>)"
  shows "objs s' = objs s" "banned_cpus s' = banned_cpus s" "unbanned_cpus s' = unbanned_cpus s"
    "numa_nodes s' = numa_nodes s" "packages s' = packages s" "cache_domains s' = cache_domains s" "cpus s' = cpus s"
    "rebalance_irq_list s' = []" "deepest_cache s' = deepest_cache s" "power_thresh s' = power_thresh s"
    "smp_affinity_log s' = smp_affinity_log s" "group s' = group s"
proof -
  show f: "objs s' = objs s" "banned_cpus s' = banned_cpus s" "unbanned_cpus s' = unbanned_cpus s"
    "numa_nodes s' = numa_nodes s" "packages s' = packages s" "cache_domains s' = cache_domains s" "cpus s' = cpus s"
    "rebalance_irq_list s' = []" "deepest_cache s' = deepest_cache s" "power_thresh s' = power_thresh s"
    "smp_affinity_log s' = smp_affinity_log s"
    using assms by (cases s; cases s'; simp add: no_db_def)+
  show "group s' = group s" by (auto simp: group_def f fun_eq_iff split: obj_type_e.split)
qed

lemma no_db_built:
  assumes "no_db s' = no_db (s\<lparr>rebalance_irq_list := []\<rparr>)" "finite (dom (irqs s'))" "built X k s"
  shows "built X k s'"
  using assms(2,3) unfolding built_def obj_ok_def no_db_fields [OF assms(1)] by blast

lemma usable_number:
  assumes "cpu_sysfs_ok w b" "n \<in> set (usable_cpus w (cpu_paths w) X)"
  shows "nat n < NR_CPUS" "nat n \<notin> X"
  using assms by (auto simp: usable_cpus_def cpu_sysfs_ok_def cpu_dir_ok_def)

text \<open>The first half of \<open>build_object_tree\<close>: the nodes and the tree.\<close>

lemma build_topology_ok:
  assumes ac: "sys_allocates al" and b: "blank \<beta> H s" and w: "world_ok H w"
  shows "\<exists>s1 s2. build_numa_node_list al w s = Some s1 \<and> parse_cpu_tree al jk w s1 = Some s2
    \<and> built {} (3 * length (cpu_paths w)) s2 \<and> full_but {} s2 \<and> has_package s2 \<and> hung {} s2
    \<and> cpu_numbers s2 = map Some (usable_cpus w (cpu_paths w) (cpus_of (banned_cpus s2)))
    \<and> core_count s2 = length (filter (\<lambda>p. cpu_online w p = Some True) (cpu_paths w))
    \<and> no_tree s2 = no_tree (s\<lparr>numa_nodes := [unspecified_node], banned_cpus := banned_cpus s2, unbanned_cpus := unbanned_cpus s2\<rparr>)
    \<and> (\<exists>d. objs s2 unspecified_node = Some d \<and> cpus_of (mask d) \<inter> cpus_of (unbanned_cpus s2) \<noteq> {})"
proof -
  have c: "cleared s" "options_ok \<beta> H s" using b by (simp_all add: blank_def)
  have o: "\<not> numa_avail s" "1 \<le> unat (deepest_cache s)" "unat (deepest_cache s) < 2 ^ 32"
    using c(2) by (simp_all add: options_ok_def)
  define s1 where "s1 = s\<lparr>objs := (objs s)(unspecified_node \<mapsto> unspecified_node_template), numa_nodes := [unspecified_node]\<rparr>"
  have b1: "build_numa_node_list al w s = Some s1"
    using o(1) c(1) by (simp add: build_numa_node_list_def Let_def s1_def cleared_def)
  have on: "only_nodes s1" using build_numa_node_list_ok [OF ac c(1), of w] b1 by auto
  have cw: "cpu_sysfs_ok w (numa_avail s1)" using w o(1) by (simp add: s1_def world_ok_def)
  obtain s2 m where s2: "parse_cpu_tree al jk w s1 = Some s2" "setup_banned_cpus w s1 = Some (s1\<lparr>banned_cpus := m\<rparr>)"
    "built {} (3 * length (cpu_paths w)) s2" "kept (s1\<lparr>banned_cpus := m, unbanned_cpus := cpus_complement (unbanned_cpus s1) m\<rparr>) s2"
    "grown s2" "cpu_numbers s2 = map Some (usable_cpus w (cpu_paths w) (cpus_of (banned_cpus s2)))"
    "core_count s2 = length (filter (\<lambda>p. cpu_online w p = Some True) (cpu_paths w))"
    using parse_cpu_tree_ok [OF ac on cw, of jk] o(2,3) by (auto simp: s1_def)
  have nt: "no_tree s2 = no_tree (s1\<lparr>banned_cpus := m, unbanned_cpus := cpus_complement (unbanned_cpus s1) m\<rparr>)"
    using s2(4) by (simp add: kept_def)
  have bc: "banned_cpus s2 = m" "unbanned_cpus s2 = cpus_complement (unbanned_cpus s1) m" "numa_avail s2 = numa_avail s"
    "numa_nodes s2 = [unspecified_node]" using no_tree_eqD [OF nt] by (simp_all add: s1_def)
  have "objs s1 unspecified_node = Some unspecified_node_template" by (simp add: s1_def)
  then obtain d where d: "objs s2 unspecified_node = Some d" "ident d = ident unspecified_node_template"
    using s2(4) unfolding kept_def by auto
  have us: "usable_cpus w (cpu_paths w) (cpus_of m) \<noteq> []" using w s2(2) by (simp add: world_ok_def)
  then have "cpus s2 \<noteq> []" using s2(6) by (auto simp: cpu_numbers_def bc(1))
  then have "full_but {} s2" "has_package s2" "hung {} s2" using s2(5) bc(3,4) o(1) by (simp_all add: grown_def)
  moreover obtain n where n: "n \<in> set (usable_cpus w (cpu_paths w) (cpus_of m))" using us by (cases "usable_cpus w (cpu_paths w) (cpus_of m)") auto
  have "cpus_of (unbanned_cpus s2) = {..<NR_CPUS} - cpus_of m" using s2(3) bc(1) by (simp add: built_def)
  then have "nat n \<in> cpus_of (mask d) \<inter> cpus_of (unbanned_cpus s2)"
    using usable_number [OF cw n] d(2) by (simp add: ident_def unspecified_node_template_def cpus_of_ALL)
  moreover have "no_tree s2 = no_tree (s\<lparr>numa_nodes := [unspecified_node], banned_cpus := banned_cpus s2, unbanned_cpus := unbanned_cpus s2\<rparr>)"
    unfolding nt bc by (simp add: s1_def no_tree_def)
  ultimately show ?thesis using b1 s2(1,3,6,7) d(1) by blast
qed

lemma build_object_tree_ok:
  assumes ac: "sys_allocates al" and b: "blank \<beta> H s" and w: "world_ok H w"
  shows "\<exists>s'. build_object_tree al jk w s = Some s' \<and> fresh H s' \<and> options_ok \<beta> H s' \<and> smp_affinity_log s' = smp_affinity_log s
    \<and> core_count s' = length (filter (\<lambda>p. cpu_online w p = Some True) (cpu_paths w))
    \<and> cpu_numbers s' = map Some (usable_cpus w (cpu_paths w) (cpus_of (banned_cpus s')))"
proof -
  have c: "cleared s" "lists_ok s" "counts_ok s" "options_ok \<beta> H s" using b by (simp_all add: blank_def)
  have o: "\<not> numa_avail s" "global_hint_policy s \<in> H" using c(4) by (simp_all add: options_ok_def)
  obtain s1 s2 d where s2: "build_numa_node_list al w s = Some s1" "parse_cpu_tree al jk w s1 = Some s2"
    "built {} (3 * length (cpu_paths w)) s2" "full_but {} s2" "has_package s2" "hung {} s2"
    "cpu_numbers s2 = map Some (usable_cpus w (cpu_paths w) (cpus_of (banned_cpus s2)))"
    "core_count s2 = length (filter (\<lambda>p. cpu_online w p = Some True) (cpu_paths w))"
    and nt: "no_tree s2 = no_tree (s\<lparr>numa_nodes := [unspecified_node], banned_cpus := banned_cpus s2, unbanned_cpus := unbanned_cpus s2\<rparr>)"
    and d: "objs s2 unspecified_node = Some d" "cpus_of (mask d) \<inter> cpus_of (unbanned_cpus s2) \<noteq> {}"
    using build_topology_ok [OF assms, of jk] by blast
  have f2: "irqs s2 = irqs s" "interrupts_db s2 = []" "banned_irqs s2 = []" "cl_banned_irqs s2 = cl_banned_irqs s"
    "numa_avail s2 = numa_avail s" "numa_nodes s2 = [unspecified_node]" "deepest_cache s2 = deepest_cache s"
    using no_tree_eqD [OF nt] b by (simp_all add: blank_def)
  have f3: "global_hint_policy s2 = global_hint_policy s" "power_thresh s2 = power_thresh s" "smp_affinity_log s2 = smp_affinity_log s"
    using nt by (cases s; cases s2; simp add: no_tree_def)+
  have dl: "db_lists s2" "counts_ok s2"
    using c(2,3) d(1) o(1) s2(3) b f2 by (auto simp: db_lists_def lists_ok_def counts_ok_def built_def irqs_valid_def blank_def)
  obtain nss tmp where src: "irq_sources w (global_hint_policy s2) = Some (nss, tmp)" "sum_list (map length nss) + length tmp < 2 ^ 32"
    using w o(2) f3(1) unfolding world_ok_def by metis
  have "policies_ok H w s2" using w o(2) f3(1) by (simp add: policies_ok_def world_ok_def)
  then obtain s3 where s3: "rebuild_irq_db al w s2 = Some s3" "db_ok H (sum_list (map length nss) + length tmp) s3"
    "no_db s3 = no_db (s2\<lparr>rebalance_irq_list := []\<rparr>)" using rebuild_irq_db_db_ok [OF ac dl _ src(1)] by blast
  note f = no_db_fields [OF s3(3)]
  have "finite (dom (irqs s3))" using s3(2) by (simp add: db_ok_def)
  then have "built {} (3 * length (cpu_paths w)) s3" by (rule no_db_built [OF s3(3) _ s2(3)])
  moreover have "3 * length (cpu_paths w) < 2 ^ 32" using w by (simp add: cpu_sysfs_ok_def world_ok_def)
  moreover have "full_but {} s3" "has_package s3" "hung {} s3"
    using s2(4-6) by (simp_all add: full_but_def has_package_def hung_def f)
  ultimately have "fresh H s3" using s3(2) src(2) d f2(6) unfolding fresh_def f by blast
  moreover have "options_ok \<beta> H s3" using c(4) no_db_eqD(3,4) [OF s3(3)] by (simp add: options_ok_def f f2 f3)
  moreover have "build_object_tree al jk w s = Some s3" using s2(1,2) s3(1) by (simp add: build_object_tree_def)
  moreover have "core_count s3 = core_count s2" using s3(3) by (cases s2; cases s3; simp add: no_db_def)
  moreover have "cpu_numbers s3 = cpu_numbers s2" by (simp add: cpu_numbers_def f)
  ultimately show ?thesis using f(2,11) f3(3) s2(7,8) by (intro exI [of _ s3]) simp
qed

lemma force_rebalance_irqs_ok:
  "\<forall>a \<in> set xs. \<exists>i. irqs s a = Some i \<and> assigned_obj i = NULL \<Longrightarrow>
   for_each force_rebalance_irq xs s = Some (s\<lparr>rebalance_irq_list := rebalance_irq_list s
     @ filter (\<lambda>a. \<exists>i. irqs s a = Some i \<and> level i \<noteq> BALANCE_NONE) xs\<rparr>)"
proof (induction xs arbitrary: s)
  case (Cons a xs)
  then obtain i where i: "irqs s a = Some i" "assigned_obj i = NULL" by auto
  have id: "(irqs s)(a \<mapsto> i\<lparr>assigned_obj := NULL\<rparr>) = irqs s" using i by (auto simp: fun_eq_iff)
  define t where "t = (if level i = BALANCE_NONE then s else s\<lparr>rebalance_irq_list := rebalance_irq_list s @ [a]\<rparr>)"
  have "force_rebalance_irq a s = Some t"
    using i id by (simp add: force_rebalance_irq_def upd_irq_def t_def)
  moreover have "irqs t = irqs s" by (simp add: t_def)
  moreover have "\<forall>b \<in> set xs. \<exists>i. irqs t b = Some i \<and> assigned_obj i = NULL" using Cons.prems by (simp add: t_def)
  ultimately show ?case using Cons.IH [of t] i(1) by (simp add: t_def)
qed simp

text \<open>A state that has just been built satisfies the parts of the invariant.\<close>

lemma fresh_object:
  assumes f: "fresh H s" and a: "objs s a = Some d"
  shows "(obj_type d \<noteq> OBJ_TYPE_NODE \<longrightarrow> cpus_of (mask d) \<inter> cpus_of (banned_cpus s) = {})
      \<and> (obj_type d = OBJ_TYPE_NODE \<longrightarrow> cpus_of (mask d) \<inter> cpus_of (unbanned_cpus s) \<noteq> {})
      \<and> (\<forall>c \<in> set (children d). \<forall>e. objs s c = Some e \<longrightarrow> depth (obj_type e) = depth (obj_type d) + 1)"
proof (intro conjI impI ballI allI)
  obtain K where K: "built {} K s" using f by (auto simp: fresh_def)
  note ob = built_obj [OF K a]
  have dep: "depth t = 3 - int (tree_level t)" for t by (cases t; simp add: depth_def tree_level_def)
  show "obj_type d \<noteq> OBJ_TYPE_NODE \<Longrightarrow> cpus_of (mask d) \<inter> cpus_of (banned_cpus s) = {}" using ob by (simp add: obj_ok_def)
  show "cpus_of (mask d) \<inter> cpus_of (unbanned_cpus s) \<noteq> {}" if "obj_type d = OBJ_TYPE_NODE"
  proof -
    have "a \<in> set (group s (obj_type d))" using built_listed [OF K] a unfolding listed_def by blast
    then have "a = unspecified_node" using that f by (simp add: group_def fresh_def)
    then show ?thesis using f a by (auto simp: fresh_def)
  qed
  fix c e assume "c \<in> set (children d)" "objs s c = Some e"
  then have "tree_level (obj_type d) = Suc (tree_level (obj_type e))" using ob by (fastforce simp: obj_ok_def)
  then show "depth (obj_type e) = depth (obj_type d) + 1" by (simp add: dep)
qed

lemma fresh_links:
  assumes f: "fresh H s"
  shows "ok_levels s" "ok_parents s" "ok_tree s" "listed s"
    and "objs s x = Some d \<Longrightarrow> interrupts d = [] \<and> \<not> powersave_mode d"
proof -
  obtain K where K: "built {} K s" "K < 2 ^ 32" using f by (auto simp: fresh_def)
  note ob = built_obj [OF K(1)]
  show "objs s x = Some d \<Longrightarrow> interrupts d = [] \<and> \<not> powersave_mode d" for x d using ob by (auto simp: obj_ok_def)
  show lv: "ok_levels s" unfolding ok_levels_def
  proof (intro allI impI)
    fix a d assume "objs s a = Some d"
    from ob [OF this] K(2) show "length (children d) < 2 ^ 32 \<and>
       (\<forall>c \<in> set (children d). \<exists>e. objs s c = Some e \<and> tree_level (obj_type e) < tree_level (obj_type d))"
      unfolding obj_ok_def by fastforce
  qed
  show "ok_parents s" using ob unfolding ok_parents_def obj_ok_def by blast
  show "listed s" by (rule built_listed [OF K(1)])
  have g: "\<forall>a \<in> set (group s t). objs s a \<noteq> None" for t using built_group [OF K(1)] by blast
  show "ok_tree s" unfolding ok_tree_def
    using g [of OBJ_TYPE_NODE] g [of OBJ_TYPE_PACKAGE] g [of OBJ_TYPE_CACHE] g [of OBJ_TYPE_CPU] ok_levelsD(2) [OF lv]
    by (auto simp: group_def)
qed

lemma fresh_irq:
  assumes f: "fresh H s" and a: "a \<in> set (interrupts_db s)"
  shows "\<exists>i. irqs s a = Some i \<and> int32 (irq i) \<and> assigned_obj i = NULL \<and> numa_node i = unspecified_node \<and> 0 \<le> level i \<and> level i \<le> 3
    \<and> hint_policy i \<in> H \<and> class_ok (i_class i)"
proof -
  obtain k where k: "db_ok H k s" using f by (auto simp: fresh_def)
  obtain i where i: "irqs s a = Some i" "int32 (irq i)" using db_valid(1) [OF k] a unfolding irqs_valid_def by blast
  then have "db_irq_ok H i" using k a unfolding db_ok_def by blast
  with i show ?thesis by (simp add: db_irq_ok_def)
qed

lemma fresh_ok_irqs:
  assumes f: "fresh H s"
  shows "ok_irqs s"
  unfolding ok_irqs_def
proof (intro conjI ballI allI impI)
  obtain K k where K: "built {} K s" "db_ok H k s" "k < 2 ^ 32" using f by (auto simp: fresh_def)
  show "irqs s NULL = None" "distinct (interrupts_db s)" "length (interrupts_db s) < 2 ^ 32"
    using K(2,3) by (auto simp: db_ok_def)
  show "objs s NULL = None" using K(1) by (simp add: built_def)
  have "objs s unspecified_node \<noteq> None" using f by (auto simp: fresh_def)
  then show "\<exists>i. irqs s a = Some i \<and> - (2 ^ 31) \<le> irq i \<and> irq i < 2 ^ 31 \<and> objs s (numa_node i) \<noteq> None" if "a \<in> set (interrupts_db s)" for a
    using fresh_irq [OF f that] by (auto simp: int32_def)
  have inj: "inj_on (\<lambda>a. map_option irq (irqs s a)) (set (interrupts_db s))" using K(2) by (simp add: db_ok_def)
  show "a = b" if "a \<in> set (interrupts_db s)" "b \<in> set (interrupts_db s)" "irqs s a = Some i" "irqs s b = Some j" "irq i = irq j" for a b i j
    by (rule inj_onD [OF inj]) (use that in simp_all)
qed

lemma fresh_static:
  assumes f: "fresh H s" and o: "options_ok \<beta> H s"
  shows "static H s" "quiet \<beta> s" "ok_tree s" "ok_irqs s" "counts_ok s"
    "objs s x = Some d \<Longrightarrow> interrupts d = []"
    "a \<in> set (interrupts_db s) \<Longrightarrow> \<exists>i. irqs s a = Some i \<and> assigned_obj i = NULL"
proof -
  obtain k where k: "db_ok H k s" using f by (auto simp: fresh_def)
  note l = fresh_links [OF f]
  show "counts_ok s" using k by (simp add: db_ok_def)
  show "objs s x = Some d \<Longrightarrow> interrupts d = []" using l(5) by blast
  show "a \<in> set (interrupts_db s) \<Longrightarrow> \<exists>i. irqs s a = Some i \<and> assigned_obj i = NULL" using fresh_irq [OF f] by blast
  show "ok_tree s" "ok_irqs s" by (rule l(3), rule fresh_ok_irqs [OF f])
  have dl: "db_lists s" using k by (simp add: db_lists_def lists_ok_def db_ok_def)
  have ir: "\<forall>a \<in> set (interrupts_db s). \<forall>i. irqs s a = Some i \<longrightarrow>
          numa_node i = unspecified_node \<and> 0 \<le> level i \<and> level i \<le> 3 \<and> hint_policy i \<in> H \<and> class_ok (i_class i)"
    using fresh_irq [OF f] by fastforce
  have op: "global_hint_policy s \<in> H" "1 \<le> unat (deepest_cache s)" "unat (deepest_cache s) < 2 ^ 32" "\<beta> \<longrightarrow> power_thresh s = ULLONG_MAX"
    using o by (simp_all add: options_ok_def)
  have fp: "full_but {} s" "has_package s" "hung {} s" "numa_nodes s = [unspecified_node]" using f by (simp_all add: fresh_def)
  show "static H s" unfolding static_def using op l(1,2,4) dl fp fresh_object [OF f] ir by blast
  show "quiet \<beta> s" unfolding quiet_def using op(4) l(5) by blast
qed

lemma fresh_loop:
  assumes f: "fresh H s" and o: "options_ok \<beta> H s"
  shows "\<exists>s'. for_each_irq [] force_rebalance_irq s = Some s' \<and> loop_inv \<beta> H s' \<and> smp_affinity_log s' = smp_affinity_log s
    \<and> cpu_numbers s' = cpu_numbers s \<and> banned_cpus s' = banned_cpus s"
proof -
  note fs = fresh_static [OF f o]
  define s' where "s' = s\<lparr>rebalance_irq_list := filter (\<lambda>a. \<exists>i. irqs s a = Some i \<and> level i \<noteq> BALANCE_NONE) (interrupts_db s)\<rparr>"
  have r: "for_each_irq [] force_rebalance_irq s = Some s'"
    using force_rebalance_irqs_ok [of "interrupts_db s" s] fs(7) f by (simp add: for_each_irq_def s'_def fresh_def)
  have sh: "ok_tree s'" "ok_irqs s'" using fs(3,4) by (simp_all add: ok_tree_def ok_irqs_def s'_def)
  have d: "distinct (interrupts_db s)" "objs s NULL = None" using fs(4) by (simp_all add: ok_irqs_def)
  have gl: "get_list l s' = Some xs \<Longrightarrow> (case l of Rebalance \<Rightarrow> xs = rebalance_irq_list s' | ObjIrqs a \<Rightarrow> a \<noteq> NULL \<and> xs = [])" for l xs
    using fs(6) d(2) by (cases l) (auto simp: get_list_def s'_def intro: gr0I)
  have "ok_lists s'" unfolding ok_lists_def
  proof (intro conjI allI impI ballI)
    fix l xs assume l: "get_list l s' = Some xs"
    show "distinct xs" "set xs \<subseteq> set (interrupts_db s')" using gl [OF l] d(1) by (auto simp: s'_def split: list_loc.splits)
  next
    fix a i assume a: "a \<in> set (interrupts_db s')" "irqs s' a = Some i"
    then have n: "assigned_obj i = NULL" using fs(7) [of a] by (simp add: s'_def)
    then show "objs s' (assigned_obj i) \<noteq> None" if "assigned_obj i \<noteq> NULL" using that by simp
    show "a \<in> set xs \<longleftrightarrow> assigned_obj i = x" if "get_list (ObjIrqs x) s' = Some xs" for x xs using gl [OF that] n by simp
    show "a \<in> set (rebalance_irq_list s') \<longleftrightarrow> assigned_obj i = NULL \<and> level i \<noteq> BALANCE_NONE" using a n by (simp add: s'_def)
    show "assigned_obj i = NULL" by (rule n)
  qed
  then have "wf_sys s'" using sh by (simp add: wf_sys_def)
  moreover have "frozen s' = frozen s" by (simp add: frozen_def s'_def)
  then have "static H s'" by (rule static_cong [OF _ fs(1)])
  moreover have "homed \<beta> s'" unfolding homed_def using fs(7) d(2) by (fastforce simp: s'_def)
  moreover have "quiet \<beta> s'" "counts_ok s'" using fs(2,5) by (simp_all add: s'_def quiet_def counts_ok_def)
  ultimately have "loop_inv \<beta> H s'" by (simp add: loop_inv_def)
  with r show ?thesis by (simp add: s'_def cpu_numbers_def)
qed

lemma free_object_tree_ok:
  assumes li: "loop_inv \<beta> H s"
  shows "\<exists>s'. free_object_tree s = Some s' \<and> blank \<beta> H s' \<and> smp_affinity_log s' = smp_affinity_log s
    \<and> (\<forall>a \<in> set (interrupts_db s) \<union> set (banned_irqs s). irqs s' a = None)
    \<and> cl_banned_irqs s' = cl_banned_irqs s \<and> banned_irq_names s' = banned_irq_names s"
proof -
  note d = loop_invD [OF li]
  have l: "listed s" "finite (dom (irqs s))" "\<not> numa_avail s" using d(5,6) by (simp_all add: static_def lists_ok_def db_lists_def)
  obtain s1 s2 where s2: "free_numa_node_list s = Some s1" "clear_cpu_tree s1 = Some s2" "cleared s2"
    "no_tree (s2\<lparr>numa_nodes := []\<rparr>) = no_tree (s\<lparr>numa_nodes := []\<rparr>)" using free_tree_ok [OF l(1,2)] by blast
  have f: "irqs s2 = irqs s" "interrupts_db s2 = interrupts_db s" "banned_irqs s2 = banned_irqs s" "cl_banned_irqs s2 = cl_banned_irqs s"
    "global_hint_policy s2 = global_hint_policy s" "deepest_cache s2 = deepest_cache s" "power_thresh s2 = power_thresh s"
    "numa_avail s2 = numa_avail s" "smp_affinity_log s2 = smp_affinity_log s" "banned_irq_names s2 = banned_irq_names s"
    using s2(4) by (cases s; cases s2; simp add: no_tree_def)+
  have "lists_ok s2" "counts_ok s2" using d(3,5) by (simp_all add: lists_ok_def irqs_valid_def counts_ok_def f)
  then obtain s3 where s3: "free_irq_db s2 = Some s3" "lists_ok s3" "counts_ok s3" "no_db s3 = no_db (s2\<lparr>rebalance_irq_list := []\<rparr>)"
    "interrupts_db s3 = []" "banned_irqs s3 = []" "irqs s3 = irqs s2 |` (- set (interrupts_db s2 @ banned_irqs s2))"
    using free_irq_db_lists by blast
  note g = no_db_fields [OF s3(4)]
  have "core_count s3 = core_count s2" using s3(4) by (cases s2; cases s3; simp add: no_db_def)
  then have "cleared s3" using s2(3) s3(2) by (simp add: cleared_def lists_ok_def g)
  moreover have "options_ok \<beta> H s3" using d(6) li l(3) no_db_eqD(3,4) [OF s3(4)]
    by (simp add: options_ok_def static_def loop_inv_def quiet_def g f)
  ultimately have "blank \<beta> H s3" using s3 g(8) by (simp add: blank_def)
  moreover have "free_object_tree s = Some s3" using s2(1,2) s3(1) by (simp add: free_object_tree_def)
  moreover have "cl_banned_irqs s3 = cl_banned_irqs s" "banned_irq_names s3 = banned_irq_names s" using no_db_eqD(2,5) [OF s3(4)] f by simp_all
  ultimately show ?thesis using g(11) f(9) s3(7) by (intro exI [of _ s3]) (auto simp: f restrict_map_def)
qed

section \<open>The cycle\<close>

text \<open>The inputs of a cycle: numbers of cpus in \<open>/proc/stat\<close> within the mask, affinity files that are not
  empty, a system as above when it is scanned again.\<close>

definition inputs_ok :: "hp_e set \<Rightarrow> inputs \<Rightarrow> bool" where
  "inputs_ok H x \<longleftrightarrow> stat_file_ok (stats x) \<and> stat_file_ok (stats2 x) \<and> stat_file_ok (stats3 x)
     \<and> world_ok H (rescan_world x) \<and> (\<forall>n. rd_affinity x n \<noteq> NoLine)"

lemma loop_inv_flags: "loop_inv \<beta> H s \<Longrightarrow> loop_inv \<beta> H (s\<lparr>need_rescan := b, cycle_count := n\<rparr>)"
proof -
  assume li: "loop_inv \<beta> H s"
  have "same_skel s (s\<lparr>need_rescan := b, cycle_count := n\<rparr>)" by (simp add: same_skel_def skel_def)
  moreover have "counts_ok (s\<lparr>need_rescan := b, cycle_count := n\<rparr>)" using loop_invD(3) [OF li] by (simp add: counts_ok_def)
  ultimately show ?thesis using li by (rule loop_inv_skel)
qed

lemma cpu_numbers_skel:
  assumes "same_skel s s'"
  shows "cpu_numbers s' = cpu_numbers s" "banned_cpus s' = banned_cpus s"
proof -
  have "map_option number (objs s' a) = map_option number (objs s a)" for a
  proof -
    have "number (skel_obj d) = number d" for d by (simp add: skel_obj_def)
    then have "map_option number (objs t a) = map_option number (map_option skel_obj (objs t a))" for t
      by (simp add: option.map_comp comp_def)
    then show ?thesis using same_skel_store(1) [OF assms, of a] by metis
  qed
  moreover have "cpus (skel s') = cpus (skel s)" "banned_cpus (skel s') = banned_cpus (skel s)" using assms by (simp_all add: same_skel_def)
  ultimately show "cpu_numbers s' = cpu_numbers s" "banned_cpus s' = banned_cpus s" by (simp_all add: cpu_numbers_def skel_def)
qed

text \<open>The cpus of the tree are the usable cpus of a system.\<close>

definition reflects :: "world \<Rightarrow> sys \<Rightarrow> bool" where
  "reflects w s \<longleftrightarrow> cpu_numbers s = map Some (usable_cpus w (cpu_paths w) (cpus_of (banned_cpus s)))"

lemma reflects_skel: "same_skel s s' \<Longrightarrow> reflects w s \<Longrightarrow> reflects w s'"
  by (simp add: reflects_def cpu_numbers_skel)

lemma rescan_ok:
  assumes al: "sys_allocates (alloc M)" and x: "inputs_ok H x" and li: "loop_inv \<beta> H s"
  shows "\<exists>s'. rescan M x s = Some s' \<and> loop_inv \<beta> H s' \<and> smp_affinity_log s' = smp_affinity_log s \<and> reflects (rescan_world x) s'"
proof -
  define s0 where "s0 = s\<lparr>need_rescan := False, cycle_count := 0\<rparr>"
  have st: "stat_file_ok (stats2 x)" "stat_file_ok (stats3 x)" "world_ok H (rescan_world x)" using x by (simp_all add: inputs_ok_def)
  have "loop_inv \<beta> H s0" unfolding s0_def by (rule loop_inv_flags [OF li])
  then obtain s1 where s1: "clear_work_stats s0 = Some s1" "loop_inv \<beta> H s1" "same_skel s0 s1" using clear_work_stats_loop by blast
  then obtain s2 where s2: "free_object_tree s1 = Some s2" "blank \<beta> H s2" "smp_affinity_log s2 = smp_affinity_log s1"
    using free_object_tree_ok by blast
  obtain s3 where s3: "build_object_tree (alloc M) (junk M) (rescan_world x) s2 = Some s3" "fresh H s3" "options_ok \<beta> H s3"
    "smp_affinity_log s3 = smp_affinity_log s2" "reflects (rescan_world x) s3"
    using build_object_tree_ok [OF al s2(2) st(3)] unfolding reflects_def by blast
  obtain s4 where s4: "for_each_irq [] force_rebalance_irq s3 = Some s4" "loop_inv \<beta> H s4" "smp_affinity_log s4 = smp_affinity_log s3"
    "cpu_numbers s4 = cpu_numbers s3" "banned_cpus s4 = banned_cpus s3" using fresh_loop [OF s3(2,3)] by blast
  obtain s5 where s5: "measure_work M (ints2 x) (stats2 x) s4 = Some s5" "loop_inv \<beta> H s5" "same_skel s4 s5"
    using measure_work_ok [OF s4(2) st(1)] by blast
  obtain s6 where s6: "clear_work_stats s5 = Some s6" "loop_inv \<beta> H s6" "same_skel s5 s6" using clear_work_stats_loop [OF s5(2)] by blast
  obtain s7 where s7: "measure_work M (ints3 x) (stats3 x) s6 = Some s7" "loop_inv \<beta> H s7" "same_skel s6 s7"
    using measure_work_ok [OF s6(2) st(2)] by blast
  have "rescan M x s = Some s7" unfolding rescan_def Let_def s0_def [symmetric] using s1(1) s2(1) s3(1) s4(1) s5(1) s6(1) s7(1) by simp
  moreover have "smp_affinity_log s7 = smp_affinity_log s"
    using same_skel_log [OF s1(3)] same_skel_log [OF s5(3)] same_skel_log [OF s6(3)] same_skel_log [OF s7(3)] s2(3) s3(4) s4(3)
    by (simp add: s0_def)
  moreover have "reflects (rescan_world x) s4" using s3(5) s4(4,5) by (simp add: reflects_def)
  then have "reflects (rescan_world x) s7" using s5(3) s6(3) s7(3) by (blast intro: reflects_skel)
  ultimately show ?thesis using s7(2) by blast
qed

lemma gather_ok:
  assumes al: "sys_allocates (alloc M)" and x: "inputs_ok H x" and li: "loop_inv \<beta> H s"
  shows "\<exists>s'. gather M x s = Some s' \<and> loop_inv \<beta> H s' \<and> smp_affinity_log s' = smp_affinity_log s
    \<and> (need_rescan s \<longrightarrow> reflects (rescan_world x) s')"
proof -
  obtain s1 where s1: "clear_work_stats s = Some s1" "loop_inv \<beta> H s1" "same_skel s s1" "need_rescan s1 = need_rescan s"
    using clear_work_stats_loop [OF li] by blast
  obtain s2 where s2: "measure_work M (ints x) (stats x) s1 = Some s2" "loop_inv \<beta> H s2" "same_skel s1 s2" "need_rescan s1 \<longrightarrow> need_rescan s2"
    using measure_work_ok [OF s1(2), of "stats x" M "ints x"] x unfolding inputs_ok_def by blast
  have lg: "smp_affinity_log s2 = smp_affinity_log s" using same_skel_log [OF s1(3)] same_skel_log [OF s2(3)] by simp
  show ?thesis
  proof (cases "need_rescan s2")
    case False
    then have "gather M x s = Some s2" using s1(1) s2(1) by (simp add: gather_def)
    then show ?thesis using s2(2,4) lg s1(4) False by blast
  next
    case True
    obtain s3 where s3: "rescan M x s2 = Some s3" "loop_inv \<beta> H s3" "smp_affinity_log s3 = smp_affinity_log s2" "reflects (rescan_world x) s3"
      using rescan_ok [OF al x s2(2)] by blast
    have "gather M x s = Some s3" using s1(1) s2(1) s3(1) True by (simp add: gather_def)
    then show ?thesis using s3(2-4) lg by auto
  qed
qed

text \<open>A cycle whose loads fit returns; it keeps the invariant, writes no banned cpu, and if powersave is off,
  leaves every irq that is to be balanced on an object of its own level.\<close>

definition cycle_loads_fit :: "machine \<Rightarrow> inputs \<Rightarrow> sys \<Rightarrow> bool" where
  "cycle_loads_fit M x s \<longleftrightarrow> (\<forall>s'. gather M x s = Some s' \<longrightarrow> loads_fit s')"

lemma main_cycle_ok:
  assumes al: "sys_allocates (alloc M)" and H: "HINT_POLICY_SUBSET \<notin> H" and x: "inputs_ok H x" and li: "loop_inv \<beta> H s"
    and f: "cycle_loads_fit M x s"
  shows "\<exists>s' out. main_cycle M x s = Some (\<not> one_shot_mode s', s') \<and> loop_inv \<beta> H s' \<and> smp_affinity_log s' = smp_affinity_log s @ out
    \<and> (\<forall>y \<in> set out. safe_write s' y) \<and> (\<beta> \<longrightarrow> all_placed s') \<and> (need_rescan s \<longrightarrow> reflects (rescan_world x) s')"
proof -
  obtain s1 where s1: "gather M x s = Some s1" "loop_inv \<beta> H s1" "smp_affinity_log s1 = smp_affinity_log s"
    "need_rescan s \<longrightarrow> reflects (rescan_world x) s1" using gather_ok [OF al x li] by blast
  have lf: "loads_fit s1" using f s1(1) by (simp add: cycle_loads_fit_def)
  have rd: "rd_affinity x n \<noteq> NoLine" for n using x by (simp add: inputs_ok_def)
  obtain s2 out where s2: "balance x s1 = Some s2" "loop_inv \<beta> H s2" "frozen s2 = frozen s1"
    "smp_affinity_log s2 = smp_affinity_log s1 @ out" "\<forall>y \<in> set out. safe_write s1 y" "\<beta> \<longrightarrow> all_placed s2"
    using balance_ok [OF s1(2) lf H rd] by blast
  define s' where "s' = s2\<lparr>cycle_count := cycle_count s2 + 1\<rparr>"
  have "main_cycle M x s = Some (\<not> one_shot_mode s', s')" using s1(1) s2(1) by (simp add: main_cycle_def s'_def)
  moreover have "loop_inv \<beta> H s'" using loop_inv_flags [OF s2(2), of "cycle_count s2 + 1" "need_rescan s2"] by (simp add: s'_def)
  moreover have "banned_cpus (frozen s2) = banned_cpus (frozen s1)" using s2(3) by simp
  then have "safe_write s' = safe_write s1" by (simp add: s'_def safe_write_def frozen_fields)
  moreover have "\<beta> \<longrightarrow> all_placed s'" using s2(6) by (simp add: all_placed_def s'_def)
  moreover have "smp_affinity_log s' = smp_affinity_log s @ out" using s2(4) s1(3) by (simp add: s'_def)
  moreover have "cpu_numbers (frozen t) = cpu_numbers t" for t by (simp add: cpu_numbers_def frozen_fields option.map_comp comp_def frozen_obj_def)
  then have "cpu_numbers s2 = cpu_numbers s1" using s2(3) by metis
  then have "reflects w s' = reflects w s1" for w
    using \<open>banned_cpus (frozen s2) = banned_cpus (frozen s1)\<close> by (simp add: reflects_def s'_def frozen_fields cpu_numbers_def)
  ultimately show ?thesis using s2(5) s1(4) by auto
qed

end
