(* ===== verification/Run.thy ===== *)
theory Run
  imports Cycle
begin

text \<open>
  The program from its command line on: which options are accepted, what the start returns, and the
  invariant of the main loop over all runs of cycles and signals.
\<close>

section \<open>The command line\<close>

text \<open>Whether a letter is an option, and then whether it has an argument.\<close>

definition short_arg :: "char \<Rightarrow> bool option" where
  "short_arg c = (case dropWhile (\<lambda>x. x \<noteq> c) optstring of [] \<Rightarrow> None
     | _ # r \<Rightarrow> if c = CHR '':'' then None else Some (take 1 r = '':''))"

lemma short_arg_letter:
  assumes "short_arg c = Some b"
  shows "c \<in> set optstring" "c \<noteq> CHR '':''"
proof -
  show "c \<noteq> CHR '':''" using assms by (auto simp: short_arg_def split: list.splits)
  have "dropWhile (\<lambda>x. x \<noteq> c) optstring \<noteq> []" using assms by (cases "dropWhile (\<lambda>x. x \<noteq> c) optstring") (simp_all add: short_arg_def)
  then show "c \<in> set optstring" unfolding dropWhile_eq_Nil_conv by blast
qed

lemma option_letters:
  "list_all (\<lambda>c. c = CHR '':'' \<or> list_ex (\<lambda>x. snd (snd x) = c) lopts) optstring"
  "list_all (\<lambda>c. short_arg c = Some False \<longrightarrow> c = CHR ''o'' \<or> c = CHR ''d'' \<or> c = CHR ''f'' \<or> c = CHR ''j'') optstring"
  "list_all (\<lambda>(name, has_arg, c). short_arg c = Some has_arg) lopts"
  by code_simp+

lemma no_arg_ignored:
  assumes "short_arg c = Some False"
  shows "parse_option al (c, a) st = parse_option al (c, b) st"
proof -
  have "c = CHR ''o'' \<or> c = CHR ''d'' \<or> c = CHR ''f'' \<or> c = CHR ''j''"
    using short_arg_letter(1) [OF assms] option_letters(2) assms unfolding list_all_iff by blast
  then show ?thesis by (auto simp: parse_option_def)
qed

text \<open>
  The two tables of options agree: a letter and its long options both have an argument or both have none,
  and every letter has a long option. An option without argument, for which \<open>optarg\<close> is \<open>NULL\<close>, is handled
  without looking at the argument.
\<close>

lemma option_tables_agree:
  assumes "short_arg c = Some has_arg"
  shows "(\<exists>name. (name, has_arg, c) \<in> set lopts) \<and> (\<forall>name b. (name, b, c) \<in> set lopts \<longrightarrow> b = has_arg)
    \<and> (\<not> has_arg \<longrightarrow> parse_option al (c, a) st = parse_option al (c, b) st)"
proof -
  have l: "b = has_arg" if "(name, b, c) \<in> set lopts" for name b
    using option_letters(3) assms that unfolding list_all_iff by fastforce
  obtain x where x: "x \<in> set lopts" "snd (snd x) = c"
    using option_letters(1) short_arg_letter [OF assms] unfolding list_all_iff list_ex_iff by blast
  then have "(fst x, fst (snd x), c) \<in> set lopts" by (metis prod.collapse)
  moreover have "parse_option al (c, a) st = parse_option al (c, b) st" if "\<not> has_arg"
    by (rule no_arg_ignored) (use assms that in simp)
  ultimately show ?thesis using l by blast
qed

text \<open>What a correct option is, apart from the code that reads it.\<close>

definition hint_arg :: "string \<Rightarrow> hp_e option" where
  "hint_arg a = (if abbreviates a ''exact'' then Some HINT_POLICY_EXACT
     else if abbreviates a ''subset'' then Some HINT_POLICY_SUBSET
     else if abbreviates a ''ignore'' then Some HINT_POLICY_IGNORE else None)"

definition option_valid :: "char \<times> string \<Rightarrow> bool" where
  "option_valid opt = (case opt of (c, a) \<Rightarrow> c \<noteq> CHR ''?'' \<and> c \<noteq> CHR ''b''
     \<and> (c = CHR ''c'' \<longrightarrow> strtoul a \<noteq> ULLONG_MAX \<and> 1 \<le> strtoul a)
     \<and> (c = CHR ''h'' \<longrightarrow> hint_arg a \<noteq> None)
     \<and> (c = CHR ''i'' \<longrightarrow> strtoul a \<noteq> ULLONG_MAX)
     \<and> (c = CHR ''p'' \<longrightarrow> abbreviates a ''off'' \<or> strtoul a \<noteq> ULLONG_MAX)
     \<and> (c = CHR ''t'' \<longrightarrow> 1 \<le> strtol_int a))"

text \<open>Options the invariant of the loop is about: a cache depth that fits \<open>unsigned int\<close>, a hint policy of
  \<open>H\<close>, and with \<open>\<beta>\<close> no powersave threshold.\<close>

definition option_tame :: "bool \<Rightarrow> hp_e set \<Rightarrow> char \<times> string \<Rightarrow> bool" where
  "option_tame \<beta> H opt = (case opt of (c, a) \<Rightarrow> (c = CHR ''c'' \<longrightarrow> unat (strtoul a) < 2 ^ 32)
     \<and> (c = CHR ''h'' \<longrightarrow> (\<forall>h. hint_arg a = Some h \<longrightarrow> h \<in> H))
     \<and> (\<beta> \<longrightarrow> c = CHR ''p'' \<longrightarrow> abbreviates a ''off''))"

definition cl_nums :: "sys \<Rightarrow> int set" where
  "cl_nums s = nums s (cl_banned_irqs s)"

lemma add_cl_banned_irq_ok:
  assumes al: "sys_allocates al" and b: "blank \<beta> H s" and n: "int32 n"
  shows "\<exists>s'. add_cl_banned_irq al n s = Some s' \<and> blank \<beta> H s' \<and> cl_nums s' = insert n (cl_nums s)"
proof -
  have l: "lists_ok s" "finite (dom (objs s))" using b finite_subset by (fastforce simp: blank_def cleared_def)+
  have v: "irqs_valid s (cl_banned_irqs s)" "finite (dom (irqs s))" using l(1) by (simp_all add: lists_ok_def)
  obtain r where r: "find_custom (compare_ints s n) (cl_banned_irqs s) = Some r"
    "case r of None \<Rightarrow> n \<notin> nums s (cl_banned_irqs s) | Some a \<Rightarrow> a \<in> set (cl_banned_irqs s) \<and> map_option irq (irqs s a) = Some n"
    using find_num [OF v(1) n] by blast
  show ?thesis
  proof (cases r)
    case None
    have f: "al s \<noteq> NULL" "irqs s (al s) = None" using al l(2) v(2) unfolding sys_allocates_def by blast+
    then have fl: "al s \<notin> set (cl_banned_irqs s)" using v(1) by (auto simp: irqs_valid_def)
    define i where "i = zero_irq\<lparr>irq := n, flags := IRQ_FLAG_BANNED, hint_policy := HINT_POLICY_EXACT\<rparr>"
    define s' where "s' = s\<lparr>irqs := (irqs s)(al s \<mapsto> i), cl_banned_irqs := cl_banned_irqs s @ [al s]\<rparr>"
    have i: "irq i = n" "last_irq_count i \<le> i_irq_count i" by (simp_all add: i_def zero_irq_def)
    have "add_cl_banned_irq al n s = Some s'"
      using r(1) None f(1) by (simp add: add_cl_banned_irq_def add_banned_irq_def ban_get_def ban_put_def s'_def i_def Let_def)
    moreover have "irqs_valid s' (cl_banned_irqs s')"
      using irqs_valid_upd [OF v(1), of i "al s"] i(1) n by (simp add: s'_def irqs_valid_def)
    then have "lists_ok s'" using b l(1) fl f(1) by (simp add: lists_ok_def blank_def s'_def irqs_valid_def)
    then have "blank \<beta> H s'"
      using b counts_ok_upd [of s i s' "al s"] i(2) by (simp add: blank_def cleared_def options_ok_def s'_def)
    moreover have "cl_nums s' = insert n (cl_nums s)"
      using fl i(1) nums_cong [of "cl_banned_irqs s" s' s] by (simp add: cl_nums_def s'_def)
    ultimately show ?thesis by blast
  next
    case (Some a)
    then have "add_cl_banned_irq al n s = Some s" using r(1) by (simp add: add_cl_banned_irq_def add_banned_irq_def ban_get_def)
    moreover have "n \<in> cl_nums s" using Some r(2) by (auto simp: cl_nums_def nums_def)
    ultimately show ?thesis using b by (simp add: insert_absorb)
  qed
qed

lemma parse_option_simps:
  "parse_option al (CHR ''?'', a) (c, s) = Some (Inl 1)" "parse_option al (CHR ''b'', a) (c, s) = Some (Inl 1)"
  "parse_option al (CHR ''c'', a) (c, s) = (if strtoul a = ULLONG_MAX \<or> strtoul a < 1 then Some (Inl 1)
     else Some (Inr (c, s\<lparr>deepest_cache := strtoul a\<rparr>)))"
  "parse_option al (CHR ''h'', a) (c, s) = (case hint_arg a of None \<Rightarrow> Some (Inl 1) | Some h \<Rightarrow> Some (Inr (c, s\<lparr>global_hint_policy := h\<rparr>)))"
  "parse_option al (CHR ''i'', a) (c, s) = (if strtoul a = ULLONG_MAX then Some (Inl 1)
     else map_option (\<lambda>s. Inr (c, s)) (add_cl_banned_irq al (to_int (strtoul a)) s))"
  "parse_option al (CHR ''p'', a) (c, s) = (if abbreviates a ''off'' then Some (Inr (c, s\<lparr>power_thresh := ULLONG_MAX\<rparr>))
     else if strtoul a = ULLONG_MAX then Some (Inl 1) else Some (Inr (c, s\<lparr>power_thresh := strtoul a\<rparr>)))"
  "parse_option al (CHR ''t'', a) (c, s) = (if strtol_int a < 1 then Some (Inl 1) else Some (Inr (c\<lparr>sleep_interval := strtol_int a\<rparr>, s)))"
  by (simp_all add: parse_option_def Let_def hint_arg_def)

text \<open>The other letters never fail, and change nothing the invariant depends on.\<close>

lemma parse_option_other:
  assumes "k \<notin> {CHR ''?'', CHR ''b'', CHR ''c'', CHR ''h'', CHR ''i'', CHR ''p'', CHR ''t''}"
  shows "\<exists>c' d o' ms ns. parse_option al (k, a) (c, s) = Some (Inr (c', s\<lparr>debug_mode := d, one_shot_mode := o',
     cl_banned_modules := ms, banned_irq_names := ns\<rparr>)) \<and> sleep_interval c' = sleep_interval c"
proof -
  define t where "t = (\<lambda>d o' ms ns. s\<lparr>debug_mode := d, one_shot_mode := o', cl_banned_modules := ms, banned_irq_names := ns\<rparr>)"
  have r: "t (debug_mode s) (one_shot_mode s) (cl_banned_modules s) (banned_irq_names s) = s" by (simp add: t_def)
  have "\<exists>c' d o' ms ns. parse_option al (k, a) (c, s) = Some (Inr (c', t d o' ms ns)) \<and> sleep_interval c' = sleep_interval c"
  proof -
    consider "k = CHR ''d''" | "k = CHR ''m''" | "k = CHR ''o''" | "k = CHR ''n''" | "k \<notin> {CHR ''d'', CHR ''m'', CHR ''o'', CHR ''n''}" by blast
    then show ?thesis
    proof cases
      case 1
      have "parse_option al (k, a) (c, s) = Some (Inr (c\<lparr>foreground_mode := True\<rparr>, t True (one_shot_mode s) (cl_banned_modules s) (banned_irq_names s)))"
        by (simp add: 1 parse_option_def t_def)
      then show ?thesis by fastforce
    next
      case 2
      have "parse_option al (k, a) (c, s) = Some (Inr (c, t (debug_mode s) (one_shot_mode s) (cl_banned_modules (add_banned_module a s)) (banned_irq_names s)))"
        by (simp add: 2 parse_option_def t_def add_cl_banned_module_def add_banned_module_def)
      then show ?thesis by blast
    next
      case 3
      have "parse_option al (k, a) (c, s) = Some (Inr (c, t (debug_mode s) True (cl_banned_modules s) (banned_irq_names s)))"
        by (simp add: 3 parse_option_def t_def)
      then show ?thesis by blast
    next
      case 4
      have "parse_option al (k, a) (c, s) = Some (Inr (c, t (debug_mode s) (one_shot_mode s) (cl_banned_modules s)
         (banned_irq_names (add_banned_irqs_by_names a s))))"
        by (simp add: 4 parse_option_def t_def add_banned_irqs_by_names_def Let_def)
      then show ?thesis by blast
    next
      case 5
      have "\<exists>c'. parse_option al (k, a) (c, s) = Some (Inr (c', s)) \<and> sleep_interval c' = sleep_interval c"
        using assms 5 by (simp add: parse_option_def)
      then show ?thesis using r by metis
    qed
  qed
  then show ?thesis by (simp add: t_def)
qed

lemma parse_option_invalid: "\<not> option_valid opt \<Longrightarrow> parse_option al opt (c, s) = Some (Inl 1)"
  by (cases opt) (auto simp: parse_option_simps option_valid_def linorder_not_less not_le)

lemma blank_option:
  assumes "blank \<beta> H s"
  shows "1 \<le> v \<Longrightarrow> unat v < 2 ^ 32 \<Longrightarrow> blank \<beta> H (s\<lparr>deepest_cache := v\<rparr>)" "blank \<beta> H (s\<lparr>debug_mode := b\<rparr>)"
    "h \<in> H \<Longrightarrow> blank \<beta> H (s\<lparr>global_hint_policy := h\<rparr>)" "blank \<beta> H (s\<lparr>cl_banned_modules := ms\<rparr>)"
    "\<beta> \<longrightarrow> p = ULLONG_MAX \<Longrightarrow> blank \<beta> H (s\<lparr>power_thresh := p\<rparr>)" "blank \<beta> H (s\<lparr>one_shot_mode := b\<rparr>)"
    "blank \<beta> H (s\<lparr>banned_irq_names := ns\<rparr>)"
  using assms by (simp_all add: blank_def cleared_def lists_ok_def irqs_valid_def counts_ok_def options_ok_def word_le_nat_alt)

lemma cl_nums_option [simp]:
  "cl_nums (s\<lparr>deepest_cache := v\<rparr>) = cl_nums s" "cl_nums (s\<lparr>debug_mode := b\<rparr>) = cl_nums s"
  "cl_nums (s\<lparr>global_hint_policy := h\<rparr>) = cl_nums s" "cl_nums (s\<lparr>cl_banned_modules := ms\<rparr>) = cl_nums s"
  "cl_nums (s\<lparr>power_thresh := p\<rparr>) = cl_nums s" "cl_nums (s\<lparr>one_shot_mode := b\<rparr>) = cl_nums s"
  "cl_nums (s\<lparr>banned_irq_names := ns\<rparr>) = cl_nums s"
  by (simp_all add: cl_nums_def nums_def)

definition banned_by_option :: "char \<times> string \<Rightarrow> int set" where
  "banned_by_option opt = (if fst opt = CHR ''i'' then {to_int (strtoul (snd opt))} else {})"

lemma parse_option_valid:
  assumes al: "sys_allocates al" and b: "blank \<beta> H s" "1 \<le> sleep_interval c" and v: "option_valid opt" "option_tame \<beta> H opt"
  shows "\<exists>c' s'. parse_option al opt (c, s) = Some (Inr (c', s')) \<and> blank \<beta> H s' \<and> 1 \<le> sleep_interval c'
    \<and> cl_nums s' = banned_by_option opt \<union> cl_nums s"
proof -
  obtain k a where o: "opt = (k, a)" by (cases opt)
  consider "k = CHR ''c''" | "k = CHR ''h''" | "k = CHR ''i''" | "k = CHR ''p''" | "k = CHR ''t''"
    | "k \<notin> {CHR ''?'', CHR ''b'', CHR ''c'', CHR ''h'', CHR ''i'', CHR ''p'', CHR ''t''}"
    using v(1) by (auto simp: o option_valid_def)
  then show ?thesis
  proof cases
    case 3
    obtain s' where "add_cl_banned_irq al (to_int (strtoul a)) s = Some s'" "blank \<beta> H s'"
      "cl_nums s' = insert (to_int (strtoul a)) (cl_nums s)"
      using add_cl_banned_irq_ok [OF al b(1), of "to_int (strtoul a)"] to_int_range by (auto simp: int32_def)
    then show ?thesis using v(1) b(2) by (simp add: o 3 parse_option_simps option_valid_def banned_by_option_def)
  next
    case 6
    obtain c' d o' ms ns where "parse_option al (k, a) (c, s) = Some (Inr (c', s\<lparr>debug_mode := d, one_shot_mode := o',
       cl_banned_modules := ms, banned_irq_names := ns\<rparr>))" "sleep_interval c' = sleep_interval c"
      using parse_option_other [OF 6] by blast
    moreover have "blank \<beta> H (s\<lparr>debug_mode := d, one_shot_mode := o', cl_banned_modules := ms, banned_irq_names := ns\<rparr>)"
      by (intro blank_option b(1))
    ultimately show ?thesis using b(2) 6 by (simp add: o banned_by_option_def)
  next
    case 1
    then have "strtoul a \<noteq> 0" using v(1) by (auto simp: o option_valid_def)
    then show ?thesis using 1 v b(2) blank_option(1) [OF b(1), of "strtoul a"]
      by (simp add: o parse_option_simps option_valid_def option_tame_def banned_by_option_def not_less)
  next
    case 2
    then show ?thesis using v b(2) blank_option(3) [OF b(1)]
      by (auto simp: o parse_option_simps option_valid_def option_tame_def banned_by_option_def)
  next
    case 4
    then show ?thesis using v b(2) blank_option(5) [OF b(1), of "strtoul a"] blank_option(5) [OF b(1), of ULLONG_MAX]
      by (auto simp: o parse_option_simps option_valid_def option_tame_def banned_by_option_def)
  next
    case 5
    then show ?thesis using v b by (auto simp: o parse_option_simps option_valid_def option_tame_def banned_by_option_def not_less)
  qed
qed


lemma parse_command_line_ok:
  assumes al: "sys_allocates al" and b: "blank \<beta> H s" "1 \<le> sleep_interval c" and t: "\<forall>opt \<in> set opts. option_tame \<beta> H opt"
  shows "if \<forall>opt \<in> set opts. option_valid opt
    then \<exists>c' s'. parse_command_line al opts (c, s) = Some (Inr (c', s')) \<and> blank \<beta> H s' \<and> 1 \<le> sleep_interval c'
      \<and> cl_nums s' = cl_nums s \<union> (\<Union>opt \<in> set opts. banned_by_option opt)
    else parse_command_line al opts (c, s) = Some (Inl 1)"
  using b t
proof (induction opts arbitrary: c s)
  case (Cons opt opts)
  show ?case
  proof (cases "option_valid opt")
    case False
    then show ?thesis using parse_option_invalid [OF False] by simp
  next
    case True
    obtain c' s' where s': "parse_option al opt (c, s) = Some (Inr (c', s'))" "blank \<beta> H s'" "1 \<le> sleep_interval c'"
      "cl_nums s' = banned_by_option opt \<union> cl_nums s"
      using parse_option_valid [OF al Cons.prems(1,2) True] Cons.prems(3) by auto
    show ?thesis using Cons.IH [OF s'(2,3)] Cons.prems(3) True s'(1,4) by (auto split: if_splits)
  qed
qed simp

section \<open>Start\<close>

lemma blank_initial: "HINT_POLICY_IGNORE \<in> H \<Longrightarrow> blank \<beta> H (snd initial)" "1 \<le> sleep_interval (fst initial)"
  by (simp_all add: initial_def blank_def cleared_def lists_ok_def irqs_valid_def counts_ok_def options_ok_def ULLONG_MAX_def)

definition online_cpus :: "world \<Rightarrow> nat" where
  "online_cpus w = length (filter (\<lambda>p. cpu_online w p = Some True) (cpu_paths w))"

text \<open>The start, after the options: what happens once they are all valid.\<close>

lemma main_start_ok:
  assumes al: "sys_allocates (alloc M)" and H: "HINT_POLICY_IGNORE \<in> H" and t: "\<forall>opt \<in> set opts. option_tame \<beta> H opt"
    and w: "world_ok H w" and st: "stat_file_ok stat_file"
  shows "\<exists>r. main_start M w detached int_file stat_file opts initial = Some r
    \<and> (case r of Inl n \<Rightarrow> n = 0 \<and> (\<forall>opt \<in> set opts. option_valid opt) \<and> online_cpus w < 2
           \<or> n = 1 \<and> ((\<exists>opt \<in> set opts. \<not> option_valid opt) \<or> 2 \<le> online_cpus w \<and> \<not> detached)
       | Inr (c, s) \<Rightarrow> (\<forall>opt \<in> set opts. option_valid opt) \<and> 2 \<le> online_cpus w \<and> loop_inv \<beta> H s \<and> (foreground_mode c \<or> detached))"
proof -
  note pc = parse_command_line_ok [OF al blank_initial(1) [OF H, of \<beta>] blank_initial(2) t, unfolded prod.collapse]
  show ?thesis
  proof (cases "\<forall>opt \<in> set opts. option_valid opt")
    case False
    then have "parse_command_line (alloc M) opts initial = Some (Inl 1)" using pc by argo
    then show ?thesis using False by (simp add: main_start_def)
  next
    case True
    then obtain c s where cs: "parse_command_line (alloc M) opts initial = Some (Inr (c, s))" "blank \<beta> H s" using pc by (auto simp: if_True)
    define s1 where "s1 = (if environ w ''IRQBALANCE_ONESHOT'' \<noteq> None then s\<lparr>one_shot_mode := True\<rparr> else s)"
    define c2 where "c2 = (if environ w ''IRQBALANCE_DEBUG'' \<noteq> None then c\<lparr>foreground_mode := True\<rparr> else c)"
    define s2 where "s2 = (if environ w ''IRQBALANCE_DEBUG'' \<noteq> None then s1\<lparr>debug_mode := True\<rparr> else s1)"
    define w2 where "w2 = (if policy_script c = None then w\<lparr>polscript := None\<rparr> else w)"
    have p: "policy_script c2 = policy_script c" by (simp add: c2_def)
    have w2: "world_ok H w2" "online_cpus w2 = online_cpus w"
      using w world_ok_no_script [OF w] by (simp_all add: w2_def online_cpus_def no_script_reads)
    have "blank \<beta> H s1" using blank_option(6) [OF cs(2)] cs(2) by (simp add: s1_def)
    then have "blank \<beta> H s2" using blank_option(2) by (simp add: s2_def)
    then obtain s3 where s3: "build_object_tree (alloc M) (junk M) w2 s2 = Some s3" "fresh H s3" "options_ok \<beta> H s3"
      "core_count s3 = online_cpus w2" using build_object_tree_ok [OF al _ w2(1)] unfolding online_cpus_def by blast
    obtain s4 where s4: "for_each_irq [] force_rebalance_irq s3 = Some s4" "loop_inv \<beta> H s4" using fresh_loop [OF s3(2,3)] by blast
    obtain s5 where s5: "measure_work M int_file stat_file s4 = Some s5" "loop_inv \<beta> H s5" using measure_work_ok [OF s4(2) st] by blast
    have "main_start M w detached int_file stat_file opts initial = Some (if online_cpus w < 2 then Inl 0
        else if \<not> foreground_mode c2 \<and> \<not> detached then Inl 1 else Inr (c2, s5))"
      using s3(1,4) w2(2) s4(1) s5(1) cs(1) p unfolding c2_def s2_def s1_def w2_def
      by (cases "environ w ''IRQBALANCE_ONESHOT'' = None"; cases "environ w ''IRQBALANCE_DEBUG'' = None") (simp_all add: main_start_def)
    then show ?thesis using True s5(2) by auto
  qed
qed

section \<open>Runs\<close>

text \<open>The inputs of a cycle in a state.\<close>

definition cycle_ok :: "machine \<Rightarrow> hp_e set \<Rightarrow> inputs \<Rightarrow> sys \<Rightarrow> bool" where
  "cycle_ok M H x s \<longleftrightarrow> inputs_ok H x \<and> cycle_loads_fit M x s"

lemma main_step_ok:
  assumes al: "sys_allocates (alloc M)" and H: "HINT_POLICY_SUBSET \<notin> H" and li: "loop_inv \<beta> H (snd st)"
    and st: "main_step M (cycle_ok M H) st st'"
  shows "loop_inv \<beta> H (snd st') \<and> (\<exists>out. smp_affinity_log (snd st') = smp_affinity_log (snd st) @ out \<and> (\<forall>y \<in> set out. safe_write (snd st') y))"
  using st
proof (cases rule: main_step.cases)
  case (cycle x s)
  have s: "loop_inv \<beta> H s" "inputs_ok H x" "cycle_loads_fit M x s" using li cycle by (simp_all add: cycle_ok_def)
  show ?thesis using main_cycle_ok [OF al H s(2,1,3)] cycle by auto
next
  case terminate_signal
  then show ?thesis using li by (simp add: handler_def)
next
  case hangup_signal
  then show ?thesis using li loop_inv_flags [OF li, of "cycle_count (snd st)" True] by (simp add: force_rescan_def)
qed

lemma run_inv:
  assumes al: "sys_allocates (alloc M)" and H: "HINT_POLICY_SUBSET \<notin> H" and li: "loop_inv \<beta> H (snd st)"
    and r: "(main_step M (cycle_ok M H))\<^sup>*\<^sup>* st st'"
  shows "loop_inv \<beta> H (snd st')"
  using r li by (induction rule: rtranclp_induct) (use main_step_ok [OF al H] in blast)+

end
