(* ===== verification/Example.thy ===== *)
theory Example
  imports Procinterrupts
begin

text \<open>
  A small machine on which the properties are exercised: one unspecified numa node (address 1), one
  package (2), one cache domain (3) with the cpus 0 and 1 (4 and 5), and two irqs, 32 and 33 (11, 12).
\<close>

definition mask_of :: "int list \<Rightarrow> cpumask_t" where
  "mask_of cs = foldl (\<lambda>m c. the (cpu_set c m)) CPU_MASK_NONE cs"

lemma cpus_of_the_set: "0 \<le> c \<Longrightarrow> c < int NR_CPUS \<Longrightarrow> cpus_of (the (cpu_set c m)) = insert (nat c) (cpus_of m)"
  using cpu_set_None [of c m] cpu_set_Some(3) [of c m] by (cases "cpu_set c m") auto

lemma cpus_of_mask_of [simp]:
  "cpus_of (mask_of [0]) = {0}" "cpus_of (mask_of [1]) = {1}" "cpus_of (mask_of [0, 1]) = {0, 1}"
  by (auto simp: mask_of_def cpus_of_the_set NR_CPUS_def)

definition ex_obj :: "obj_type_e \<Rightarrow> int \<Rightarrow> u64 \<Rightarrow> cpumask_t \<Rightarrow> addr list \<Rightarrow> addr \<Rightarrow> addr list \<Rightarrow> list_ref \<Rightarrow> topo_obj" where
  "ex_obj t n l m xs p cs r = \<lparr>load = l, last_load = 0, irq_count = 0, obj_type = t, number = n, powersave_mode = False,
     mask = m, interrupts = xs, parent = p, children = cs, obj_type_list = Some r\<rparr>"

definition ex_irq :: "int \<Rightarrow> u64 \<Rightarrow> addr \<Rightarrow> irq_info" where
  "ex_irq n l asg = \<lparr>irq = n, i_class = IRQ_ETH, i_type = IRQ_TYPE_LEGACY, level = BALANCE_CORE, flags = 0, numa_node = 1,
     cpumask = CPU_MASK_ALL, affinity_hint = CPU_MASK_NONE, hint_policy = HINT_POLICY_IGNORE, i_irq_count = 40,
     last_irq_count = 10, i_load = l, moved = True, assigned_obj = asg, warned = False, i_name = None\<rparr>"

text \<open>The machine with both irqs on the rebalance list (\<open>w = 0\<close>), or both on the cpu with address \<open>w\<close>.\<close>

definition ex_sys :: "addr \<Rightarrow> sys" where
  "ex_sys w = \<lparr>objs = [1 \<mapsto> ex_obj OBJ_TYPE_NODE (-1) 60 CPU_MASK_ALL [] 0 [2] NUMA_NODES,
       2 \<mapsto> ex_obj OBJ_TYPE_PACKAGE 0 60 (mask_of [0, 1]) [] 1 [3] PACKAGES,
       3 \<mapsto> ex_obj OBJ_TYPE_CACHE 0 60 (mask_of [0, 1]) [] 2 [4, 5] CACHE_DOMAINS,
       4 \<mapsto> ex_obj OBJ_TYPE_CPU 0 50 (mask_of [0]) (if w = 4 then [11, 12] else []) 3 [] CPUS,
       5 \<mapsto> ex_obj OBJ_TYPE_CPU 1 10 (mask_of [1]) (if w = 5 then [11, 12] else []) 3 [] CPUS],
     irqs = [11 \<mapsto> ex_irq 32 7 w, 12 \<mapsto> ex_irq 33 9 w],
     numa_nodes = [1], packages = [2], cache_domains = [3], cpus = [4, 5],
     interrupts_db = [11, 12], banned_irqs = [], cl_banned_irqs = [], cl_banned_modules = [], banned_irq_names = [],
     rebalance_irq_list = (if w = 0 then [11, 12] else []), banned_cpus = CPU_MASK_NONE, unbanned_cpus = CPU_MASK_ALL,
     numa_avail = False,
     debug_mode = True, one_shot_mode = False, need_rescan = False, global_hint_policy = HINT_POLICY_IGNORE,
     power_thresh = ULLONG_MAX, deepest_cache = 2, cycle_count = 1, package_count = 1, cache_domain_count = 1,
     core_count = 2, cpu_possible_map = mask_of [0, 1], proc_int_has_msi = False, msi_found_in_sysfs = False,
     smp_affinity_log = []\<rparr>"

lemma ex_ok_irqs: "ok_irqs (ex_sys w)"
  by (auto simp: ok_irqs_def ex_sys_def ex_irq_def)

lemma ex_ok_tree: "ok_tree (ex_sys w)"
  by (auto simp: ok_tree_def ex_sys_def ex_obj_def split: if_splits)

lemma ex_get_list:
  "get_list l (ex_sys w) = Some xs \<longleftrightarrow> l = Rebalance \<and> xs = (if w = 0 then [11, 12] else [])
    \<or> (\<exists>d \<in> {1, 2, 3}. l = ObjIrqs d \<and> xs = []) \<or> (\<exists>d \<in> {4, 5}. l = ObjIrqs d \<and> xs = (if w = d then [11, 12] else []))"
  by (cases l) (auto simp: get_list_def ex_sys_def ex_obj_def split: if_splits)

lemma ex_ok_lists: "w = 0 \<or> w = 4 \<or> w = 5 \<Longrightarrow> ok_lists (ex_sys w)"
  unfolding ok_lists_def ex_get_list by (auto simp: ex_sys_def ex_irq_def)

lemma ex_wf: "w = 0 \<or> w = 4 \<or> w = 5 \<Longrightarrow> wf_sys (ex_sys w)"
  by (simp add: wf_sys_def ex_ok_irqs ex_ok_tree ex_ok_lists)

lemma ex_ok_levels: "ok_levels (ex_sys w)"
  by (auto simp: ok_levels_def ex_sys_def ex_obj_def tree_level_def split: if_splits)

lemma ex_ok_parents: "ok_parents (ex_sys w)"
  by (auto simp: ok_parents_def ex_sys_def ex_obj_def split: if_splits)

lemma ex_loads: "loads_le (ex_sys w) 100" "irq_loads_lt (ex_sys w) 100" "round_steps (ex_sys w) = 8"
  by (auto simp: loads_le_def irq_loads_lt_def round_steps_def ex_sys_def ex_obj_def ex_irq_def split: if_splits)

lemma ex_placed_unbanned: "placed_unbanned (ex_sys w)"
  by (auto simp: placed_unbanned_def ex_sys_def)

text \<open>A linked list of two nodes beside a cell of the stack, and an allocator.\<close>

definition ex_heap :: "int gheap" where
  "ex_heap = [1 \<mapsto> \<lparr>data = 7, nxt = 2, prv = 0\<rparr>, 2 \<mapsto> \<lparr>data = 3, nxt = 0, prv = 1\<rparr>, 9 \<mapsto> \<lparr>data = 0, nxt = 0, prv = 0\<rparr>]"

definition ex_data :: "addr \<Rightarrow> int" where
  "ex_data a = (if a = 1 then 7 else 3)"

definition ex_malloc :: "'d gheap \<Rightarrow> addr" where
  "ex_malloc h = Suc (Max (insert 0 (dom h)))"

lemma ex_malloc: "allocates ex_malloc"
  unfolding allocates_def
proof (intro allI impI conjI)
  fix h :: "'d gheap" assume f: "finite (dom h)"
  show "ex_malloc h \<noteq> NULL" by (simp add: ex_malloc_def)
  show "h (ex_malloc h) = None"
  proof (rule ccontr)
    assume "h (ex_malloc h) \<noteq> None"
    then have "ex_malloc h \<in> insert 0 (dom h)" by blast
    from Max_ge [OF _ this] f show False by (simp add: ex_malloc_def del: Max_insert)
  qed
qed

lemma ex_glist: "glist ex_heap ex_data 1 [1, 2]"
  by (simp add: glist_def ex_heap_def ex_data_def)

end
