(* ===== verification/Weight.thy ===== *)
theory Weight
  imports Bitmap
begin

text \<open>
  \<open>bitmap_weight\<close> counts: the parallel bit count \<open>hweight64\<close> of \<open>bitmap.h\<close> is the number of set bits of
  a word. Its first three steps work on each byte alone (shown by induction over the bytes, with tables
  over all bytes), and the final product adds up the bytes.
\<close>

unbundle bit_operations_syntax

section \<open>Words as bytes\<close>

primrec bytes_val :: "int list \<Rightarrow> int" where
  "bytes_val [] = 0"
| "bytes_val (c # cs) = c + 256 * bytes_val cs"

primrec byte_rep :: "int \<Rightarrow> nat \<Rightarrow> int" where
  "byte_rep m 0 = 0"
| "byte_rep m (Suc n) = m + 256 * byte_rep m n"

definition is_byte :: "int \<Rightarrow> bool" where
  "is_byte c \<longleftrightarrow> 0 \<le> c \<and> c < 256"

lemma bytes_val_range: "list_all is_byte cs \<Longrightarrow> 0 \<le> bytes_val cs \<and> bytes_val cs < 256 ^ length cs"
  by (induction cs) (auto simp: is_byte_def)

lemma and_bytes:
  assumes "is_byte x" "is_byte m"
  shows "(x + 256 * y) AND (m + 256 * n) = (x AND m) + 256 * (y AND n)"
proof -
  have s: "x + 256 * y = concat_bit 8 x y" if "is_byte x" for x y
    using that by (simp add: concat_bit_eq take_bit_int_eq_self is_byte_def push_bit_eq_mult)
  have b: "is_byte (x AND m)" using assms AND_upper1 [of x m] by (simp add: is_byte_def and_nonnegative_int_iff)
  show ?thesis unfolding s [OF assms(1)] s [OF assms(2)] s [OF b]
    by (rule bit_eqI) (auto simp: bit_concat_bit_iff bit_and_iff)
qed

lemma drop_bytes: "drop_bit 1 (c + 256 * v) = (c div 2 + 128 * (v mod 2)) + 256 * drop_bit 1 (v :: int)"
  "drop_bit 2 (c + 256 * v) = (c div 4 + 64 * (v mod 4)) + 256 * drop_bit 2 (v :: int)"
  "drop_bit 4 (c + 256 * v) = (c div 16 + 16 * (v mod 16)) + 256 * drop_bit 4 (v :: int)"
proof -
  have d: "(c + 256 * v) div n = c div n + m * (v mod n) + 256 * (v div n)" if n: "n * m = 256" "n \<noteq> 0" for m n :: int
  proof -
    have e: "c + 256 * v = c + n * (m * v)" unfolding n(1) [symmetric] by (simp only: mult.assoc)
    have "(c + 256 * v) div n = c div n + m * v" unfolding e using div_mult_self2 [OF n(2), of c "m * v"] by (simp only: add.commute)
    also have "m * v = m * (v mod n) + m * n * (v div n)" by (metis add.commute mult.assoc mult_div_mod_eq distrib_left)
    finally show ?thesis using n(1) by (simp add: mult.commute)
  qed
  have p: "(2 :: int) ^ 1 = 2" "(2 :: int) ^ 2 = 4" "(2 :: int) ^ 4 = 16" by simp_all
  show "drop_bit 1 (c + 256 * v) = (c div 2 + 128 * (v mod 2)) + 256 * drop_bit 1 v"
    "drop_bit 2 (c + 256 * v) = (c div 4 + 64 * (v mod 4)) + 256 * drop_bit 2 v"
    "drop_bit 4 (c + 256 * v) = (c div 16 + 16 * (v mod 16)) + 256 * drop_bit 4 v"
    unfolding drop_bit_eq_div p by (rule d; simp)+
qed

lemma all_bytes: "is_byte c \<Longrightarrow> (\<And>c. c \<in> set [0..255] \<Longrightarrow> P c) \<Longrightarrow> P c"
  by (simp add: is_byte_def)

definition b1 :: "int \<Rightarrow> int" where "b1 c = c - (c div 2 AND 0x55)"
definition b2 :: "int \<Rightarrow> int" where "b2 c = (c AND 0x33) + (c div 4 AND 0x33)"
definition b3 :: "int \<Rightarrow> int" where "b3 c = (c + c div 16) AND 0x0F"

text \<open>The bytes after two steps: two counts of at most 4.\<close>

definition nibble_counts :: "int list" where
  "nibble_counts = [16 * a + b. a \<leftarrow> [0..4], b \<leftarrow> [0..4]]"

lemma byte_tables:
  "\<forall>c \<in> set [0..255]. \<forall>t \<in> set [0..1]. (c div 2 + 128 * t) AND 0x55 = c div 2 AND (0x55 :: int)"
  "\<forall>c \<in> set [0..255]. \<forall>t \<in> set [0..3]. (c div 4 + 64 * t) AND 0x33 = c div 4 AND (0x33 :: int)"
  "\<forall>c \<in> set [0..255]. b1 c \<ge> 0 \<and> b1 c < 256 \<and> b2 (b1 c) \<in> set nibble_counts
     \<and> b3 (b2 (b1 c)) = (\<Sum>i \<leftarrow> [0..<8]. of_bool (bit c i))"
  "\<forall>v \<in> set nibble_counts. v \<ge> 0 \<and> v \<le> 68 \<and> v mod 16 \<le> 4 \<and> b3 v \<ge> 0 \<and> b3 v \<le> 8
     \<and> (\<forall>t \<in> set [0..4]. v + v div 16 + 16 * t < 256 \<and> (v + v div 16 + 16 * t) AND 0x0F = b3 v)"
  by code_simp+

lemma swar1:
  "list_all is_byte cs \<Longrightarrow> bytes_val cs - (drop_bit 1 (bytes_val cs) AND byte_rep 0x55 (length cs)) = bytes_val (map b1 cs)"
proof (induction cs)
  case (Cons c cs)
  define v where "v = bytes_val cs"
  have c: "is_byte c" "c \<in> set [0..255]" using Cons.prems by (auto simp: is_byte_def)
  have "v mod 2 \<in> set [0..1]" by auto
  then have t: "(c div 2 + 128 * (v mod 2)) AND 0x55 = c div 2 AND 0x55" using byte_tables(1) c(2) by blast
  have "is_byte (c div 2 + 128 * (v mod 2))" using c(1) by (auto simp: is_byte_def)
  then have "drop_bit 1 (bytes_val (c # cs)) AND byte_rep 0x55 (length (c # cs))
      = (c div 2 AND 0x55) + 256 * (drop_bit 1 v AND byte_rep 0x55 (length cs))"
    unfolding v_def [symmetric] bytes_val.simps drop_bytes list.size byte_rep.simps
    using and_bytes [of "c div 2 + 128 * (v mod 2)" "0x55"] by (simp add: t is_byte_def)
  then show ?case using Cons by (simp add: b1_def v_def algebra_simps)
qed simp

lemma swar2:
  "list_all is_byte cs \<Longrightarrow> (bytes_val cs AND byte_rep 0x33 (length cs)) + (drop_bit 2 (bytes_val cs) AND byte_rep 0x33 (length cs))
     = bytes_val (map b2 cs)"
proof (induction cs)
  case (Cons c cs)
  define v where "v = bytes_val cs"
  have c: "is_byte c" "c \<in> set [0..255]" using Cons.prems by (auto simp: is_byte_def)
  have "v mod 4 \<in> set [0..3]" by auto
  then have t: "(c div 4 + 64 * (v mod 4)) AND 0x33 = c div 4 AND 0x33" using byte_tables(2) c(2) by blast
  have "is_byte (c div 4 + 64 * (v mod 4))" using c(1) by (auto simp: is_byte_def)
  then have "drop_bit 2 (bytes_val (c # cs)) AND byte_rep 0x33 (length (c # cs))
      = (c div 4 AND 0x33) + 256 * (drop_bit 2 v AND byte_rep 0x33 (length cs))"
    unfolding v_def [symmetric] bytes_val.simps drop_bytes list.size byte_rep.simps
    using and_bytes [of "c div 4 + 64 * (v mod 4)" "0x33"] by (simp add: t is_byte_def)
  moreover have "bytes_val (c # cs) AND byte_rep 0x33 (length (c # cs)) = (c AND 0x33) + 256 * (v AND byte_rep 0x33 (length cs))"
    using and_bytes [OF c(1), of "0x33"] by (simp add: v_def is_byte_def)
  ultimately show ?case using Cons by (simp add: b2_def v_def algebra_simps)
qed simp

definition counted :: "int \<Rightarrow> bool" where
  "counted c \<longleftrightarrow> 0 \<le> c \<and> c \<le> 68 \<and> c mod 16 \<le> 4 \<and> (\<forall>t \<in> set [0..4]. c + c div 16 + 16 * t < 256 \<and> (c + c div 16 + 16 * t) AND 0x0F = b3 c)"

lemma byte_facts:
  assumes "is_byte c"
  shows "is_byte (b1 c)" "counted (b2 (b1 c))" "is_byte (b2 (b1 c))" "0 \<le> b3 (b2 (b1 c))" "b3 (b2 (b1 c)) \<le> 8"
proof -
  have "c \<in> set [0..255]" using assms by (auto simp: is_byte_def)
  note f = bspec [OF byte_tables(3) this]
  then have "b2 (b1 c) \<in> set nibble_counts" by blast
  note f2 = bspec [OF byte_tables(4) this]
  show "is_byte (b1 c)" "is_byte (b2 (b1 c))" "0 \<le> b3 (b2 (b1 c))" "b3 (b2 (b1 c)) \<le> 8" using f f2 by (simp_all add: is_byte_def)
  show "counted (b2 (b1 c))" unfolding counted_def using f2 by blast
qed

lemma swar3:
  "list_all counted cs \<Longrightarrow> (bytes_val cs + drop_bit 4 (bytes_val cs)) AND byte_rep 0x0F (length cs) = bytes_val (map b3 cs)"
proof (induction cs)
  case (Cons c cs)
  define v where "v = bytes_val cs"
  have c: "counted c" using Cons.prems by simp
  have "v mod 16 \<le> 4"
  proof (cases cs)
    case (Cons d ds)
    then have "v mod 16 = d mod 16" using mod_mult_self2 [of d 16 "16 * bytes_val ds"] by (simp add: v_def)
    then show ?thesis using Cons Cons.prems by (simp add: counted_def)
  qed (simp add: v_def)
  then have "v mod 16 \<in> set [0..4]" by auto
  then have t: "c + c div 16 + 16 * (v mod 16) < 256" "(c + c div 16 + 16 * (v mod 16)) AND 0x0F = b3 c" "0 \<le> c"
    using c unfolding counted_def by blast+
  have e: "bytes_val (c # cs) + drop_bit 4 (bytes_val (c # cs)) = (c + c div 16 + 16 * (v mod 16)) + 256 * (v + drop_bit 4 v)"
    unfolding bytes_val.simps v_def [symmetric] drop_bytes(3) by (simp add: algebra_simps)
  have "is_byte (c + c div 16 + 16 * (v mod 16))" using t by (simp add: is_byte_def)
  then have "(bytes_val (c # cs) + drop_bit 4 (bytes_val (c # cs))) AND byte_rep 0x0F (length (c # cs))
      = b3 c + 256 * ((v + drop_bit 4 v) AND byte_rep 0x0F (length cs))"
    unfolding e length_Cons byte_rep.simps t(2) [symmetric] by (rule and_bytes) (simp add: is_byte_def)
  then show ?case using Cons by (simp add: v_def)
qed simp


section \<open>The bytes of a word\<close>

definition byte_of :: "u64 \<Rightarrow> nat \<Rightarrow> int" where
  "byte_of w k = uint w div 256 ^ k mod 256"

lemma is_byte_of: "is_byte (byte_of w k)"
  by (simp add: is_byte_def byte_of_def)

lemma bit_byte_of: "j < 8 \<Longrightarrow> bit (byte_of w k) j = bit w (8 * k + j)"
proof -
  assume j: "j < 8"
  have "byte_of w k = take_bit 8 (drop_bit (8 * k) (uint w))"
    by (simp add: byte_of_def take_bit_eq_mod drop_bit_eq_div power_mult)
  then show ?thesis using j bit_imp_le_length [of w "8 * k + j"] by (auto simp: bit_take_bit_iff bit_drop_bit_eq bit_uint_iff)
qed

lemma bytes_of_word: "uint w = bytes_val (map (byte_of w) [0..<8])"
proof -
  have s: "x = x mod 256 + 256 * (x div 256)" for x :: int by simp
  have "uint w < 256 ^ 8" using unsigned_less [of w, where ?'a = int] by simp
  then have z: "uint w div 256 ^ 8 = 0" by simp
  have step: "uint w div 256 ^ k = byte_of w k + 256 * (uint w div 256 ^ Suc k)" for k
  proof -
    have "uint w div 256 ^ k div 256 = uint w div 256 ^ Suc k" by (simp add: zdiv_zmult2_eq [symmetric] mult.commute)
    then show ?thesis using s [of "uint w div 256 ^ k"] by (simp only: byte_of_def)
  qed
  have "uint w div 256 ^ k = bytes_val (map (byte_of w) [k..<k + n]) + 256 ^ n * (uint w div 256 ^ (k + n))" for k n
  proof (induction n arbitrary: k)
    case (Suc n)
    have u: "[k..<k + Suc n] = k # [Suc k..<Suc k + n]" by (simp add: upt_conv_Cons)
    have "uint w div 256 ^ k = byte_of w k + 256 * (uint w div 256 ^ Suc k)" by (rule step)
    also have "uint w div 256 ^ Suc k = bytes_val (map (byte_of w) [Suc k..<Suc k + n]) + 256 ^ n * (uint w div 256 ^ (Suc k + n))"
      by (rule Suc.IH)
    finally show ?case unfolding u list.map bytes_val.simps by (simp only: distrib_left add.assoc mult.assoc power_Suc add_Suc_right add_Suc)
  qed simp
  from this [of 0 8] z show ?thesis by (simp del: upt_Suc)
qed


lemma byte_count: "b3 (b2 (b1 (byte_of w k))) = int (card {j \<in> {8 * k..<8 * k + 8}. bit w j})"
proof -
  have "byte_of w k \<in> set [0..255]" using is_byte_of [of w k] by (auto simp: is_byte_def)
  then have "b3 (b2 (b1 (byte_of w k))) = (\<Sum>i \<leftarrow> [0..<8]. of_bool (bit (byte_of w k) i))" using byte_tables(3) by blast
  also have "\<dots> = (\<Sum>i = 0..<8. of_bool (bit w (8 * k + i)))"
    by (simp add: interv_sum_list_conv_sum_set_nat bit_byte_of cong: sum.cong_simp)
  also have "\<dots> = (\<Sum>j \<in> {8 * k..<8 * k + 8}. of_bool (bit w j))"
    by (rule sum.reindex_bij_witness [of _ "\<lambda>j. j - 8 * k" "\<lambda>i. 8 * k + i"]) auto
  also have "\<dots> = int (card {j \<in> {8 * k..<8 * k + 8}. bit w j})" by (simp add: sum.If_cases of_bool_def Int_def)
  finally show ?thesis .
qed

text \<open>The product with \<open>0x0101...\<close> collects the sum of the bytes in the top byte.\<close>

lemma mul_collects:
  fixes c0 c1 c2 c3 c4 c5 c6 c7 :: int
  assumes "0 \<le> c0" "0 \<le> c1" "0 \<le> c2" "0 \<le> c3" "0 \<le> c4" "0 \<le> c5" "0 \<le> c6" "0 \<le> c7"
    and "c0 \<le> 8" "c1 \<le> 8" "c2 \<le> 8" "c3 \<le> 8" "c4 \<le> 8" "c5 \<le> 8" "c6 \<le> 8" "c7 \<le> 8"
  shows "(bytes_val [c0, c1, c2, c3, c4, c5, c6, c7] * 0x0101010101010101) mod 2 ^ 64 div 2 ^ 56
    = c0 + c1 + c2 + c3 + c4 + c5 + c6 + c7"
proof -
  define low where "low = bytes_val [c0, c0 + c1, c0 + c1 + c2, c0 + c1 + c2 + c3, c0 + c1 + c2 + c3 + c4,
    c0 + c1 + c2 + c3 + c4 + c5, c0 + c1 + c2 + c3 + c4 + c5 + c6]"
  define top where "top = bytes_val [c1 + c2 + c3 + c4 + c5 + c6 + c7, c2 + c3 + c4 + c5 + c6 + c7, c3 + c4 + c5 + c6 + c7,
    c4 + c5 + c6 + c7, c5 + c6 + c7, c6 + c7, c7]"
  define sum where "sum = c0 + c1 + c2 + c3 + c4 + c5 + c6 + c7"
  have l: "0 \<le> low" "low < 2 ^ 56"
    using bytes_val_range [of "[c0, c0 + c1, c0 + c1 + c2, c0 + c1 + c2 + c3, c0 + c1 + c2 + c3 + c4,
      c0 + c1 + c2 + c3 + c4 + c5, c0 + c1 + c2 + c3 + c4 + c5 + c6]"] assms unfolding low_def [symmetric]
    by (simp_all add: is_byte_def)
  have s: "0 \<le> sum" "sum \<le> 64" using assms by (simp_all add: sum_def)
  have p: "bytes_val [c0, c1, c2, c3, c4, c5, c6, c7] * 0x0101010101010101 = (low + sum * 2 ^ 56) + top * 2 ^ 64"
    by (simp add: low_def top_def sum_def algebra_simps)
  have "0 \<le> low + sum * 2 ^ 56" "low + sum * 2 ^ 56 < 2 ^ 64" using l s by simp_all
  then have "(bytes_val [c0, c1, c2, c3, c4, c5, c6, c7] * 0x0101010101010101) mod 2 ^ 64 = low + sum * 2 ^ 56"
    unfolding p by simp
  then show ?thesis using l by (simp add: sum_def)
qed

lemma uint_small:
  "uint b \<le> uint a \<Longrightarrow> uint (a - b :: u64) = uint a - uint b"
  "uint a + uint b < 2 ^ 64 \<Longrightarrow> uint (a + b :: u64) = uint a + uint b"
  using uint_sub_lem [of b a] uint_add_lem [of a b] by simp_all

lemma uint_drop: "uint (drop_bit n w) = drop_bit n (uint w)"
  by (simp add: unsigned_drop_bit_eq take_bit_int_eq_self)

lemma small_bytes: "list_all (\<lambda>c. 0 \<le> c \<and> c \<le> 68) ds \<Longrightarrow> 2 * bytes_val ds < 256 ^ length ds"
  by (induction ds) auto

text \<open>The three masked additions, byte by byte.\<close>

lemma swar_words:
  fixes w :: u64
  defines "cs \<equiv> map (byte_of w) [0..<8]"
  defines "w1 \<equiv> w - (drop_bit 1 w AND 0x5555555555555555)"
  defines "w2 \<equiv> (w1 AND 0x3333333333333333) + (drop_bit 2 w1 AND 0x3333333333333333)"
  shows "uint ((w2 + drop_bit 4 w2) AND 0x0F0F0F0F0F0F0F0F) = bytes_val (map b3 (map b2 (map b1 cs)))"
proof -
  have len: "length cs = 8" "list_all is_byte cs" by (simp_all add: cs_def list_all_iff is_byte_of)
  have "byte_rep 0x55 8 = 0x5555555555555555" "byte_rep 0x33 8 = 0x3333333333333333" "byte_rep 0x0F 8 = 0x0F0F0F0F0F0F0F0F"
    by code_simp+
  then have reps: "uint (0x5555555555555555 :: u64) = byte_rep 0x55 8" "uint (0x3333333333333333 :: u64) = byte_rep 0x33 8"
    "uint (0x0F0F0F0F0F0F0F0F :: u64) = byte_rep 0x0F 8" by simp_all
  have range: "0 \<le> bytes_val ds \<and> bytes_val ds < 2 ^ 64" if "length ds = 8" "list_all is_byte ds" for ds
    using bytes_val_range [OF that(2)] that(1) by simp
  have u0: "uint w = bytes_val cs" unfolding cs_def by (rule bytes_of_word)
  have y: "list_all is_byte (map b1 cs)" "list_all counted (map b2 (map b1 cs))" "list_all is_byte (map b2 (map b1 cs))"
    using len(2) byte_facts by (simp_all add: list_all_iff)
  have u1: "uint w1 = bytes_val (map b1 cs)"
  proof -
    have e: "uint (drop_bit 1 w AND 0x5555555555555555) = drop_bit 1 (bytes_val cs) AND byte_rep 0x55 (length cs)"
      by (simp only: uint_and uint_drop u0 reps len)
    have "0 \<le> bytes_val (map b1 cs)" using range [OF _ y(1)] len(1) by simp
    then have "uint (drop_bit 1 w AND 0x5555555555555555) \<le> uint w" unfolding e u0 using swar1 [OF len(2)] by linarith
    from uint_small(1) [OF this] show ?thesis unfolding w1_def e u0 using swar1 [OF len(2)] by linarith
  qed
  have e: "uint (w1 AND 0x3333333333333333) = bytes_val (map b1 cs) AND byte_rep 0x33 (length (map b1 cs))"
    "uint (drop_bit 2 w1 AND 0x3333333333333333) = drop_bit 2 (bytes_val (map b1 cs)) AND byte_rep 0x33 (length (map b1 cs))"
    by (simp_all only: uint_and uint_drop u1 reps len length_map)
  have u2: "uint w2 = bytes_val (map b2 (map b1 cs))"
    unfolding w2_def using swar2 [OF y(1)] range [OF _ y(3)] len(1) by (subst uint_small(2)) (simp_all only: e length_map)
  have "list_all (\<lambda>c. 0 \<le> c \<and> c \<le> 68) (map b2 (map b1 cs))" using y(2) by (auto simp: list_all_iff counted_def)
  then have s: "2 * uint w2 < 2 ^ 64" "0 \<le> uint w2" using small_bytes [of "map b2 (map b1 cs)"] len(1) unfolding u2 [symmetric] by simp_all
  have "drop_bit 4 (uint w2) \<le> uint w2" using s(2) zdiv_mono2 [of "uint w2" 1 16] by (simp add: drop_bit_eq_div)
  then have "uint (w2 + drop_bit 4 w2) = uint w2 + drop_bit 4 (uint w2)" using s by (subst uint_small(2)) (simp_all add: uint_drop)
  then show ?thesis unfolding uint_and reps u2 using swar3 [OF y(2)] len(1) by simp
qed

text \<open>The product adds up the bytes, and the bits of the bytes are the bits of the word.\<close>

lemma product_sums_bytes:
  fixes p :: "nat \<Rightarrow> int"
  assumes p: "\<And>k. 0 \<le> p k" "\<And>k. p k \<le> 8"
  shows "(bytes_val (map p [0..<8]) * 0x0101010101010101) mod 2 ^ 64 div 2 ^ 56 = (\<Sum>k = 0..<8. p k)"
proof -
  have "map p [0..<8] = [p 0, p 1, p 2, p 3, p 4, p 5, p 6, p 7]" by (simp add: upt_rec numeral_eq_Suc)
  moreover have "(\<Sum>k = 0..<8. p k) = p 0 + p 1 + p 2 + p 3 + p 4 + p 5 + p 6 + p 7"
    by (simp add: numeral_eq_Suc atLeast0_lessThan_Suc)
  ultimately show ?thesis by (simp only:) (rule mul_collects; rule p)
qed

lemma bits_by_bytes:
  fixes w :: u64
  shows "(\<Sum>k = 0..<8. card {j \<in> {8 * k..<8 * k + 8}. bit w j}) = card {j. j < 64 \<and> bit w j}"
proof -
  have u: "{j. j < 64 \<and> bit w j} = (\<Union>k \<in> {0..<8}. {j \<in> {8 * k..<8 * k + 8}. bit w j})"
  proof (intro equalityI subsetI)
    fix j assume "j \<in> {j. j < 64 \<and> bit w j}"
    then have "j div 8 \<in> {0..<8}" "j \<in> {j' \<in> {8 * (j div 8)..<8 * (j div 8) + 8}. bit w j'}" by auto
    then show "j \<in> (\<Union>k \<in> {0..<8}. {j \<in> {8 * k..<8 * k + 8}. bit w j})" by blast
  qed auto
  have d: "{j \<in> {8 * k..<8 * k + 8}. bit w j} \<inter> {j \<in> {8 * l..<8 * l + 8}. bit w j} = {}" if "k \<noteq> l" for k l :: nat
    using that by auto
  show ?thesis unfolding u by (rule card_UN_disjoint [symmetric]) (use d in \<open>simp_all\<close>)
qed

lemma hweight64_card: "unat (hweight64 w) = card {j. j < 64 \<and> bit w j}"
proof -
  define p where "p k = b3 (b2 (b1 (byte_of w k)))" for k
  have p: "0 \<le> p k" "p k \<le> 8" for k using byte_facts(4,5) [OF is_byte_of] by (simp_all add: p_def)
  define w1 where "w1 = w - (drop_bit 1 w AND 0x5555555555555555)"
  define w2 where "w2 = (w1 AND 0x3333333333333333) + (drop_bit 2 w1 AND 0x3333333333333333)"
  define w3 where "w3 = (w2 + drop_bit 4 w2) AND 0x0F0F0F0F0F0F0F0F"
  have "uint w3 = bytes_val (map p [0..<8])"
    unfolding w3_def w2_def w1_def swar_words by (simp add: comp_def p_def [abs_def])
  then have "uint (w3 * 0x0101010101010101) = (bytes_val (map p [0..<8]) * 0x0101010101010101) mod 2 ^ 64" by (simp add: uint_word_ariths)
  then have "uint (hweight64 w) = (bytes_val (map p [0..<8]) * 0x0101010101010101) mod 2 ^ 64 div 2 ^ 56"
    unfolding hweight64_def Let_def w1_def [symmetric] w2_def [symmetric] w3_def [symmetric] uint_drop by (simp add: drop_bit_eq_div)
  also have "\<dots> = (\<Sum>k = 0..<8. p k)" using p by (rule product_sums_bytes)
  also have "\<dots> = int (card {j. j < 64 \<and> bit w j})" by (simp add: p_def byte_count flip: bits_by_bytes)
  finally show ?thesis by (metis of_nat_eq_iff uint_nat)
qed

section \<open>The weight of a bitmap\<close>

lemma bm_set_word: "{i \<in> bm_set n xs. i div 64 = k} = (\<lambda>j. 64 * k + j) ` {j. j < 64 \<and> 64 * k + j < n \<and> bit (xs ! k) j}"
proof (intro equalityI subsetI)
  fix i assume i: "i \<in> {i \<in> bm_set n xs. i div 64 = k}"
  then have "i = 64 * k + i mod 64" "i mod 64 < 64" "bit (xs ! k) (i mod 64)" "64 * k + i mod 64 < n" by (auto simp: bit_at_def)
  then show "i \<in> (\<lambda>j. 64 * k + j) ` {j. j < 64 \<and> 64 * k + j < n \<and> bit (xs ! k) j}" by blast
qed (auto simp: bit_at_def)

lemma card_bm_word: "card {i \<in> bm_set n xs. i div 64 = k} = card {j. j < 64 \<and> 64 * k + j < n \<and> bit (xs ! k) j}"
  unfolding bm_set_word by (rule card_image) (simp add: inj_on_def)

lemma card_bm_set: "n \<le> 64 * m \<Longrightarrow> card (bm_set n xs) = (\<Sum>k < m. card {i \<in> bm_set n xs. i div 64 = k})"
proof -
  assume m: "n \<le> 64 * m"
  have u: "bm_set n xs = (\<Union>k \<in> {..<m}. {i \<in> bm_set n xs. i div 64 = k})" using m by (auto simp: less_mult_imp_div_less mult.commute)
  have "card (bm_set n xs) = card (\<Union>k \<in> {..<m}. {i \<in> bm_set n xs. i div 64 = k})" by (rule arg_cong [OF u])
  also have "\<dots> = (\<Sum>k < m. card {i \<in> bm_set n xs. i div 64 = k})" by (rule card_UN_disjoint) auto
  finally show ?thesis .
qed

lemma full_word: "k < n div 64 \<Longrightarrow> card {i \<in> bm_set n xs. i div 64 = k} = unat (hweight_long (xs ! k))"
  unfolding card_bm_word hweight_long_def hweight64_card by (rule arg_cong [where f = card]) auto

lemma last_word: "n mod 64 \<noteq> 0 \<Longrightarrow> card {i \<in> bm_set n xs. i div 64 = n div 64} = unat (hweight_long (xs ! (n div 64) AND BITMAP_LAST_WORD_MASK n))"
  unfolding card_bm_word hweight_long_def hweight64_card
proof -
  assume n: "n mod 64 \<noteq> 0"
  have "64 * (n div 64) + j < n \<longleftrightarrow> j < n mod 64" for j by (metis mult_div_mod_eq nat_add_left_cancel_less)
  then show "card {j. j < 64 \<and> 64 * (n div 64) + j < n \<and> bit (xs ! (n div 64)) j}
    = card {j. j < 64 \<and> bit (xs ! (n div 64) AND BITMAP_LAST_WORD_MASK n) j}"
    using n by (intro arg_cong [where f = card]) (auto simp: bit_and_iff bit_BITMAP_LAST_WORD_MASK)
qed

lemma foldl_weight: "foldl (\<lambda>w k. w + f k) (0 :: nat) [0..<m] = (\<Sum>k < m. f k)"
  by (induction m) auto

lemma gen_weight_card: "gen_bitmap_weight xs n = card (bm_set n xs)"
proof (cases "n mod 64 = 0")
  case True
  then have "n \<le> 64 * (n div 64)" using mult_div_mod_eq [of 64 n] by linarith
  from card_bm_set [OF this, of xs] True show ?thesis by (simp add: gen_bitmap_weight_def Let_def foldl_weight full_word del: in_bm_set)
next
  case False
  have "n \<le> 64 * Suc (n div 64)" by simp
  from card_bm_set [OF this, of xs] False show ?thesis by (simp add: gen_bitmap_weight_def Let_def foldl_weight full_word last_word del: in_bm_set)
qed

lemma bitmap_weight_card: "0 < n \<Longrightarrow> bitmap_weight xs n = card (bm_set n xs)"
proof (cases "n \<le> 64")
  case True
  assume n: "0 < n"
  have "card (bm_set n xs) = card {i \<in> bm_set n xs. i div 64 = 0}" using card_bm_set [of n 1 xs] True by simp
  also have "\<dots> = unat (hweight_long (xs ! 0 AND BITMAP_LAST_WORD_MASK n))"
  proof (cases "n = 64")
    case True
    then show ?thesis using full_word [of 0 n xs] by (simp add: BITMAP_LAST_WORD_MASK_def)
  next
    case False
    then show ?thesis using last_word [of n xs] \<open>n \<le> 64\<close> n by simp
  qed
  finally show ?thesis using True by (simp add: bitmap_weight_def)
qed (simp add: bitmap_weight_def gen_weight_card)

end
