(* ===== verification/Dump.thy ===== *)
theory Dump
  imports Loop
begin

text \<open>
  The debug output: \<open>dump_tree\<close> of \<open>cputree.c\<close>, \<open>dump_workloads\<close> of \<open>irqlist.c\<close> and \<open>dump_object_tree\<close> of
  \<open>irqbalance.c\<close>. They only read the state, but follow pointers to parents and numa nodes that nothing
  else follows, index the table of class names and print masks into a buffer on the stack.

  A call of the macro \<open>log\<close> appends its text to the list of lines. The \<open>malloc\<close> of \<open>dump_irq\<close>, of at most 19
  bytes, is taken to succeed.
\<close>

section \<open>Formats\<close>

definition log_indent :: "bool \<Rightarrow> string" where
  "log_indent journal = (if journal then ''....'' else ''    '')"

definition classes :: "string list" where
  "classes = [''other'', ''legacy'', ''storage'', ''video'', ''ethernet'', ''gbit-ethernet'', ''10gbit-ethernet'', ''virt-event'']"

text \<open>\<open>classes[c]\<close>; the element after the last name is a \<open>NULL\<close> pointer.\<close>

definition class_name :: "int \<Rightarrow> string option" where
  "class_name c = (if 0 \<le> c \<and> c < int (length classes) then Some (classes ! nat c) else None)"

definition fmt_lu :: "u64 \<Rightarrow> string" where
  "fmt_lu n = to_dec (unat n)"

definition irq_text :: "string \<Rightarrow> nat \<Rightarrow> irq_info \<Rightarrow> int \<Rightarrow> string \<Rightarrow> string" where
  "irq_text ind spaces i node cls = replicate spaces (hd ind) @ ''Interrupt '' @ fmt_d (irq i) @ '' node_num is '' @ fmt_d node
     @ '' ('' @ cls @ ''/'' @ fmt_lu (i_load i) @ '':'' @ fmt_lu (i_irq_count i - last_irq_count i) @ '') '' @ [newline]"

definition cpu_text :: "string \<Rightarrow> topo_obj \<Rightarrow> int \<Rightarrow> string" where
  "cpu_text ind d node = ind @ ind @ ind @ ind @ ''CPU number '' @ fmt_d (number d) @ ''  numa_node is '' @ fmt_d node
     @ '' (load '' @ fmt_lu (load d) @ '')'' @ [newline]"

definition cache_text :: "string \<Rightarrow> topo_obj \<Rightarrow> int \<Rightarrow> string \<Rightarrow> string" where
  "cache_text ind d node buffer = ind @ ind @ ''Cache domain '' @ fmt_d (number d) @ '':  numa_node is '' @ fmt_d node
     @ '' cpu mask is '' @ buffer @ ''  (load '' @ fmt_lu (load d) @ '') '' @ [newline]"

definition package_text :: "topo_obj \<Rightarrow> int \<Rightarrow> string \<Rightarrow> string" where
  "package_text d node buffer = ''Package '' @ fmt_d (number d) @ '':  numa_node is '' @ fmt_d node
     @ '' cpu mask is '' @ buffer @ '' (load '' @ fmt_lu (load d) @ '')'' @ [newline]"

definition workload_text :: "irq_info \<Rightarrow> int \<Rightarrow> string \<Rightarrow> string" where
  "workload_text i node cls = ''Interrupt '' @ fmt_d (irq i) @ '' node_num '' @ fmt_d node @ '' (class '' @ cls
     @ '') has workload '' @ fmt_lu (i_load i) @ '' '' @ [newline]"

section \<open>The tree\<close>

text \<open>\<open>for_each_irq\<close> with a handler that reads the state and writes lines.\<close>

definition log_each_irq :: "sys \<Rightarrow> addr list \<Rightarrow> (addr \<Rightarrow> string list \<Rightarrow> string list option) \<Rightarrow> string list \<Rightarrow> string list option" where
  "log_each_irq s xs cb out = for_each cb (if xs \<noteq> [] then xs else interrupts_db s) out"

definition dump_irq :: "string \<Rightarrow> nat \<Rightarrow> sys \<Rightarrow> addr \<Rightarrow> string list \<Rightarrow> string list option" where
  "dump_irq ind spaces s a out = do {
     i \<leftarrow> irqs s a;
     node \<leftarrow> objs s (numa_node i);
     cls \<leftarrow> class_name (i_class i);
     Some (out @ [irq_text ind spaces i (number node) cls])
   }"

definition dump_balance_obj :: "string \<Rightarrow> sys \<Rightarrow> addr \<Rightarrow> string list \<Rightarrow> string list option" where
  "dump_balance_obj ind s a out = do {
     c \<leftarrow> objs s a;
     cache \<leftarrow> objs s (parent c);
     package \<leftarrow> objs s (parent cache);
     node \<leftarrow> objs s (parent package);
     let out = out @ [cpu_text ind c (number node)];
     if interrupts c \<noteq> [] then log_each_irq s (interrupts c) (dump_irq ind 18 s) out else Some out
   }"

definition dump_cache_domain :: "string \<Rightarrow> sys \<Rightarrow> addr \<Rightarrow> string list \<Rightarrow> string list option" where
  "dump_cache_domain ind s a out = do {
     d \<leftarrow> objs s a;
     (buffer, _) \<leftarrow> cpumask_scnprintf 4095 (mask d);
     package \<leftarrow> objs s (parent d);
     node \<leftarrow> objs s (parent package);
     let out = out @ [cache_text ind d (number node) buffer];
     out \<leftarrow> (if children d \<noteq> [] then for_each_object (children d) (dump_balance_obj ind s) out else Some out);
     if 0 < glength (interrupts d) then log_each_irq s (interrupts d) (dump_irq ind 10 s) out else Some out
   }"

definition dump_package :: "string \<Rightarrow> sys \<Rightarrow> addr \<Rightarrow> string list \<Rightarrow> string list option" where
  "dump_package ind s a out = do {
     d \<leftarrow> objs s a;
     (buffer, _) \<leftarrow> cpumask_scnprintf 4096 (mask d);
     node \<leftarrow> objs s (parent d);
     let out = out @ [package_text d (number node) buffer];
     out \<leftarrow> (if children d \<noteq> [] then for_each_object (children d) (dump_cache_domain ind s) out else Some out);
     if 0 < glength (interrupts d) then log_each_irq s (interrupts d) (dump_irq ind 2 s) out else Some out
   }"

definition dump_tree :: "string \<Rightarrow> sys \<Rightarrow> string list option" where
  "dump_tree ind s = for_each_object (packages s) (dump_package ind s) []"

definition dump_workload :: "sys \<Rightarrow> addr \<Rightarrow> string list \<Rightarrow> string list option" where
  "dump_workload s a out = do {
     i \<leftarrow> irqs s a;
     node \<leftarrow> objs s (numa_node i);
     cls \<leftarrow> class_name (i_class i);
     Some (out @ [workload_text i (number node) cls])
   }"

definition dump_workloads :: "sys \<Rightarrow> string list option" where
  "dump_workloads s = log_each_irq s [] (dump_workload s) []"

definition dump_numa_node_info :: "sys \<Rightarrow> addr \<Rightarrow> string list \<Rightarrow> string list option" where
  "dump_numa_node_info s a out = do {
     d \<leftarrow> objs s a;
     (buffer, _) \<leftarrow> cpumask_scnprintf 4096 (mask d);
     Some (out @ [''NUMA NODE NUMBER: '' @ fmt_d (number d) @ [newline], ''LOCAL CPU MASK: '' @ buffer @ [newline], [newline]])
   }"

definition dump_object_tree :: "sys \<Rightarrow> string list option" where
  "dump_object_tree s = for_each_object (numa_nodes s) (dump_numa_node_info s) []"


section \<open>The report is safe and complete\<close>

text \<open>What the report relies on: every object but a numa node has a parent it is a child of, of the level above;
  the irqs on the objects have a numa node and a class with a name.\<close>

definition printable :: "sys \<Rightarrow> bool" where
  "printable s \<longleftrightarrow> ok_parents s \<and> hung {} s \<and> listed s
     \<and> (\<forall>a d c. objs s a = Some d \<longrightarrow> c \<in> set (children d) \<longrightarrow> (\<exists>e. objs s c = Some e \<and> depth (obj_type e) = depth (obj_type d) + 1))
     \<and> (\<forall>a d x. objs s a = Some d \<longrightarrow> x \<in> set (interrupts d) \<longrightarrow>
          (\<exists>i. irqs s x = Some i \<and> objs s (numa_node i) \<noteq> None \<and> class_ok (i_class i)))
     \<and> (\<forall>a d. objs s a = Some d \<longrightarrow> length (interrupts d) < 2 ^ 32)"

lemma class_name_ok: "class_ok c \<Longrightarrow> class_name c = Some (classes ! nat c)"
  by (simp add: class_name_def classes_def class_ok_def)

lemma loop_irqs_named:
  assumes "loop_inv \<beta> H s"
  shows "\<forall>x \<in> set (interrupts_db s). \<exists>i. irqs s x = Some i \<and> objs s (numa_node i) \<noteq> None \<and> class_ok (i_class i)"
proof
  fix x assume x: "x \<in> set (interrupts_db s)"
  then obtain i where "irqs s x = Some i" "objs s (numa_node i) \<noteq> None" using assms by (auto simp: loop_inv_def wf_sys_def ok_irqs_def)
  with x assms show "\<exists>i. irqs s x = Some i \<and> objs s (numa_node i) \<noteq> None \<and> class_ok (i_class i)"
    unfolding loop_inv_def static_def by blast
qed

lemma loop_printable:
  assumes li: "loop_inv \<beta> H s"
  shows "printable s"
proof -
  have s: "static H s" "wf_sys s" "ok_sys s" using li by (auto simp: loop_inv_def static_def ok_sys_def)
  have "set (interrupts d) \<subseteq> set (interrupts_db s)" if "objs s a = Some d" for a d
    using ok_lists_list [of s "ObjIrqs a" "interrupts d"] s(2) that by (auto simp: wf_sys_def get_list_def)
  moreover have "length (interrupts d) < 2 ^ 32" if "objs s a = Some d" for a d by (rule ok_sys_list(1) [OF s(3) that])
  ultimately show ?thesis using s(1) static_obj(3) [OF s(1)] loop_irqs_named [OF li] unfolding printable_def static_def by blast
qed

lemma built_printable:
  assumes "built {} k s" "hung {} s"
  shows "printable s"
proof -
  have dep: "depth t = 3 - int (tree_level t)" for t by (cases t; simp add: depth_def tree_level_def)
  have o: "obj_ok {} k s a d" if "objs s a = Some d" for a d by (rule built_obj [OF assms(1) that])
  have "ok_parents s" using o unfolding ok_parents_def obj_ok_def by blast
  moreover have "\<exists>e. objs s c = Some e \<and> depth (obj_type e) = depth (obj_type d) + 1"
    if "objs s a = Some d" "c \<in> set (children d)" for a d c using o [OF that(1)] that(2) by (auto simp: obj_ok_def dep)
  moreover have "interrupts d = []" if "objs s a = Some d" for a d using o [OF that] by (simp add: obj_ok_def)
  ultimately show ?thesis using assms built_listed unfolding printable_def by fastforce
qed

lemma printable_parent:
  assumes p: "printable s" and d: "objs s a = Some d" "obj_type d \<noteq> OBJ_TYPE_NODE"
  shows "\<exists>q. objs s (parent d) = Some q \<and> a \<in> set (children q) \<and> depth (obj_type q) = depth (obj_type d) - 1"
proof -
  have "parent d \<noteq> NULL" using p d by (auto simp: printable_def hung_def)
  then obtain q where q: "objs s (parent d) = Some q" "a \<in> set (children q)" using p d(1) unfolding printable_def ok_parents_def by blast
  with p d(1) show ?thesis unfolding printable_def by fastforce
qed

text \<open>A traversal whose handler appends lines appends all of them.\<close>

lemma for_each_lines:
  "(\<And>x out. x \<in> set xs \<Longrightarrow> cb x out = Some (out @ g x)) \<Longrightarrow> for_each cb xs out = Some (out @ concat (map g xs))"
  by (induction xs arbitrary: out) auto

lemma print_mask: "1152 < len \<Longrightarrow> \<exists>tx. cpumask_scnprintf len m = Some (tx, length tx) \<and> length tx < len"
  using cpumask_print_parse [of len "[]" m m] by (auto simp: line_end_def)

definition irq_lines :: "string \<Rightarrow> nat \<Rightarrow> sys \<Rightarrow> addr list \<Rightarrow> string list" where
  "irq_lines ind n s xs = concat (map (\<lambda>a. the (dump_irq ind n s a [])) xs)"

lemma dump_irq_lines:
  assumes "printable s" "objs s a = Some d" "interrupts d \<noteq> []"
  shows "log_each_irq s (interrupts d) (dump_irq ind n s) out = Some (out @ irq_lines ind n s (interrupts d))"
    "x \<in> set (interrupts d) \<Longrightarrow> \<exists>i node cls. irqs s x = Some i \<and> irq_text ind n i node cls \<in> set (irq_lines ind n s (interrupts d))"
proof -
  have i: "\<exists>i node cls. irqs s x = Some i \<and> (\<forall>out. dump_irq ind n s x out = Some (out @ [irq_text ind n i node cls]))" if x: "x \<in> set (interrupts d)" for x
  proof -
    obtain i where i: "irqs s x = Some i" "objs s (numa_node i) \<noteq> None" "class_ok (i_class i)"
      using assms(1,2) x unfolding printable_def by blast
    note cn = class_name_ok [OF i(3)]
    with i show ?thesis by (auto simp: cn dump_irq_def intro!: exI [of _ "number (the (objs s (numa_node i)))"] exI [of _ "classes ! nat (i_class i)"])
  qed
  have a: "dump_irq ind n s x out = Some (out @ the (dump_irq ind n s x []))" if x: "x \<in> set (interrupts d)" for x out
  proof -
    from i [OF x] obtain l where "\<forall>out. dump_irq ind n s x out = Some (out @ [l])" by blast
    then show ?thesis by simp
  qed
  have "for_each (dump_irq ind n s) (interrupts d) out = Some (out @ irq_lines ind n s (interrupts d))"
    unfolding irq_lines_def by (rule for_each_lines [OF a])
  then show "log_each_irq s (interrupts d) (dump_irq ind n s) out = Some (out @ irq_lines ind n s (interrupts d))"
    using assms(3) by (simp add: log_each_irq_def)
  show "\<exists>i node cls. irqs s x = Some i \<and> irq_text ind n i node cls \<in> set (irq_lines ind n s (interrupts d))" if "x \<in> set (interrupts d)"
    proof -
    from i [OF that] obtain i node cls where "irqs s x = Some i" "dump_irq ind n s x [] = Some [irq_text ind n i node cls]" by auto
    then show ?thesis using that by (intro exI [of _ i] exI [of _ node] exI [of _ cls]) (auto simp: irq_lines_def intro!: bexI [of _ x])
  qed
qed

text \<open>The lines of an irq list, as the three callers guard the traversal.\<close>

lemma dump_irqs:
  assumes "printable s" "objs s a = Some d"
  shows "(if interrupts d \<noteq> [] then log_each_irq s (interrupts d) (dump_irq ind n s) out else Some out) = Some (out @ irq_lines ind n s (interrupts d))"
    "(if 0 < glength (interrupts d) then log_each_irq s (interrupts d) (dump_irq ind n s) out else Some out) = Some (out @ irq_lines ind n s (interrupts d))"
proof -
  show *: "(if interrupts d \<noteq> [] then log_each_irq s (interrupts d) (dump_irq ind n s) out else Some out) = Some (out @ irq_lines ind n s (interrupts d))"
    using dump_irq_lines(1) [OF assms] by (auto simp: irq_lines_def)
  have "length (interrupts d) < 2 ^ 32" using assms unfolding printable_def by blast
  then have "0 < glength (interrupts d) \<longleftrightarrow> interrupts d \<noteq> []"
    by (auto simp: glength_def word_less_nat_alt unat_of_nat)
  with * show "(if 0 < glength (interrupts d) then log_each_irq s (interrupts d) (dump_irq ind n s) out else Some out) = Some (out @ irq_lines ind n s (interrupts d))"
    by simp
qed

text \<open>What the report has of an object: its own line, and one for each of its irqs.\<close>

definition reports :: "string \<Rightarrow> sys \<Rightarrow> addr \<Rightarrow> string list \<Rightarrow> bool" where
  "reports ind s a ls \<longleftrightarrow> (\<exists>d. objs s a = Some d
     \<and> (\<exists>node buf. (case obj_type d of OBJ_TYPE_CPU \<Rightarrow> cpu_text ind d node | OBJ_TYPE_CACHE \<Rightarrow> cache_text ind d node buf
          | _ \<Rightarrow> package_text d node buf) \<in> set ls)
     \<and> (\<forall>x \<in> set (interrupts d). \<exists>i n node cls. irqs s x = Some i \<and> irq_text ind n i node cls \<in> set ls))"

lemma reports_mono: "reports ind s a ls \<Longrightarrow> set ls \<subseteq> set ls' \<Longrightarrow> reports ind s a ls'"
  unfolding reports_def by blast

lemma dump_cpu_lines:
  assumes "printable s" "objs s a = Some d" "obj_type d = OBJ_TYPE_CPU"
  shows "\<exists>ls. (\<forall>out. dump_balance_obj ind s a out = Some (out @ ls)) \<and> reports ind s a ls"
proof -
  obtain c where c: "objs s (parent d) = Some c" "depth (obj_type c) = 2" using printable_parent [OF assms(1,2)] assms(3) by (auto simp: depth_def)
  then have "obj_type c \<noteq> OBJ_TYPE_NODE" by (auto simp: depth_def)
  then obtain p where p: "objs s (parent c) = Some p" "depth (obj_type p) = 1" using printable_parent [OF assms(1) c(1)] c(2) by auto
  then have "obj_type p \<noteq> OBJ_TYPE_NODE" by (auto simp: depth_def)
  then obtain nd where nd: "objs s (parent p) = Some nd" using printable_parent [OF assms(1) p(1)] by blast
  let ?ls = "cpu_text ind d (number nd) # irq_lines ind 18 s (interrupts d)"
  have "dump_balance_obj ind s a out = Some (out @ ?ls)" for out
    using assms(2) c(1) p(1) nd dump_irqs(1) [OF assms(1,2)] by (simp add: dump_balance_obj_def Let_def)
  moreover have "reports ind s a ?ls"
    using assms dump_irq_lines(2) [OF assms(1,2), of _ ind 18] by (fastforce simp: reports_def)
  ultimately show ?thesis by blast
qed

text \<open>An object with the lines of its children between its own line and those of its irqs.\<close>

lemma child_lines:
  assumes "\<And>c. c \<in> set cs \<Longrightarrow> \<exists>ls. (\<forall>out. cb c out = Some (out @ ls)) \<and> Q c ls"
    and "\<And>c ls ls'. Q c ls \<Longrightarrow> set ls \<subseteq> set ls' \<Longrightarrow> Q c ls'"
  shows "\<exists>ls. (\<forall>out. for_each_object cs cb out = Some (out @ ls)) \<and> (\<forall>c \<in> set cs. Q c ls)"
proof -
  obtain g where g: "\<And>c out. c \<in> set cs \<Longrightarrow> cb c out = Some (out @ g c)" "\<And>c. c \<in> set cs \<Longrightarrow> Q c (g c)" using assms(1) by metis
  have "for_each_object cs cb out = Some (out @ concat (map g cs))" for out unfolding for_each_object_def by (rule for_each_lines [OF g(1)])
  moreover have "Q c (concat (map g cs))" if "c \<in> set cs" for c by (rule assms(2) [OF g(2) [OF that]]) (use that in auto)
  ultimately show ?thesis by blast
qed

lemma dump_cache_lines:
  assumes p: "printable s" and d: "objs s a = Some d" "obj_type d = OBJ_TYPE_CACHE"
  shows "\<exists>ls. (\<forall>out. dump_cache_domain ind s a out = Some (out @ ls)) \<and> (\<forall>c \<in> insert a (set (children d)). reports ind s c ls)"
proof -
  obtain q where q: "objs s (parent d) = Some q" "depth (obj_type q) = 1" using printable_parent [OF p d(1)] d(2) by (auto simp: depth_def)
  then have "obj_type q \<noteq> OBJ_TYPE_NODE" by (auto simp: depth_def)
  then obtain nd where nd: "objs s (parent q) = Some nd" using printable_parent [OF p q(1)] by blast
  obtain buf where buf: "cpumask_scnprintf 4095 (mask d) = Some (buf, length buf)" using print_mask [of 4095 "mask d"] by auto
  have "\<exists>ls. (\<forall>out. dump_balance_obj ind s c out = Some (out @ ls)) \<and> reports ind s c ls" if c: "c \<in> set (children d)" for c
  proof -
    obtain e where e: "objs s c = Some e" "depth (obj_type e) = depth (obj_type d) + 1" using p d(1) c unfolding printable_def by blast
    then have "obj_type e = OBJ_TYPE_CPU" using d(2) depth_bounds(4) by (simp add: depth_def)
    then show ?thesis by (rule dump_cpu_lines [OF p e(1)])
  qed
  then obtain ks where ks: "\<And>out. for_each_object (children d) (dump_balance_obj ind s) out = Some (out @ ks)"
    "\<forall>c \<in> set (children d). reports ind s c ks" using child_lines [of "children d" "dump_balance_obj ind s" "reports ind s"] reports_mono by metis
  have kn: "ks = []" if "children d = []" using ks(1) [of "[]"] that by (simp add: for_each_object_def)
  let ?ls = "cache_text ind d (number nd) buf # ks @ irq_lines ind 10 s (interrupts d)"
  have "dump_cache_domain ind s a out = Some (out @ ?ls)" for out
    using d(1) q(1) nd buf dump_irqs(2) [OF p d(1)] ks(1) kn by (simp add: dump_cache_domain_def Let_def)
  moreover have "reports ind s a ?ls" using d dump_irq_lines(2) [OF p d(1), of _ ind 10] by (fastforce simp: reports_def)
  moreover have "reports ind s c ?ls" if "c \<in> set (children d)" for c using ks(2) that by (auto intro: reports_mono)
  ultimately show ?thesis by blast
qed

lemma dump_package_lines:
  assumes p: "printable s" and d: "objs s a = Some d" "obj_type d = OBJ_TYPE_PACKAGE"
  shows "\<exists>ls. (\<forall>out. dump_package ind s a out = Some (out @ ls)) \<and> reports ind s a ls
    \<and> (\<forall>c \<in> set (children d). \<forall>e. objs s c = Some e \<longrightarrow> (\<forall>x \<in> insert c (set (children e)). reports ind s x ls))"
proof -
  obtain nd where nd: "objs s (parent d) = Some nd" using printable_parent [OF p d(1)] d(2) by auto
  obtain buf where buf: "cpumask_scnprintf 4096 (mask d) = Some (buf, length buf)" using print_mask [of 4096 "mask d"] by auto
  let ?Q = "\<lambda>c ls. \<forall>e. objs s c = Some e \<longrightarrow> (\<forall>x \<in> insert c (set (children e)). reports ind s x ls)"
  have one: "\<exists>ls. (\<forall>out. dump_cache_domain ind s c out = Some (out @ ls)) \<and> ?Q c ls" if c: "c \<in> set (children d)" for c
  proof -
    obtain e where e: "objs s c = Some e" "depth (obj_type e) = depth (obj_type d) + 1" using p d(1) c unfolding printable_def by blast
    then have "obj_type e = OBJ_TYPE_CACHE" using d(2) by (cases "obj_type e") (simp_all add: depth_def)
    then show ?thesis using dump_cache_lines [OF p e(1), of ind] e(1) by auto
  qed
  have mono: "\<And>c ls ls'. ?Q c ls \<Longrightarrow> set ls \<subseteq> set ls' \<Longrightarrow> ?Q c ls'" by (blast intro: reports_mono)
  have "\<exists>ls. (\<forall>out. for_each_object (children d) (dump_cache_domain ind s) out = Some (out @ ls)) \<and> (\<forall>c \<in> set (children d). ?Q c ls)"
    by (rule child_lines [OF one mono])
  then obtain ks where ks: "\<And>out. for_each_object (children d) (dump_cache_domain ind s) out = Some (out @ ks)"
    "\<forall>c \<in> set (children d). ?Q c ks" by blast
  have kn: "ks = []" if "children d = []" using ks(1) [of "[]"] that by (simp add: for_each_object_def)
  let ?ls = "package_text d (number nd) buf # ks @ irq_lines ind 2 s (interrupts d)"
  have "dump_package ind s a out = Some (out @ ?ls)" for out
    using d(1) nd buf dump_irqs(2) [OF p d(1)] ks(1) kn by (simp add: dump_package_def Let_def)
  moreover have "reports ind s a ?ls" using d dump_irq_lines(2) [OF p d(1), of _ ind 2] by (fastforce simp: reports_def)
  moreover have "reports ind s x ?ls" if "c \<in> set (children d)" "objs s c = Some e" "x \<in> insert c (set (children e))" for c e x
    by (rule reports_mono [of _ _ _ ks]) (use ks(2) that in auto)
  ultimately show ?thesis by blast
qed

lemma dump_tree_ok:
  assumes p: "printable s"
  shows "\<exists>ls. dump_tree ind s = Some ls \<and> (\<forall>a d. objs s a = Some d \<longrightarrow> obj_type d \<noteq> OBJ_TYPE_NODE \<longrightarrow> reports ind s a ls)"
proof -
  let ?Q = "\<lambda>a ls. reports ind s a ls \<and> (\<forall>d. objs s a = Some d \<longrightarrow> (\<forall>c \<in> set (children d). \<forall>e. objs s c = Some e \<longrightarrow>
      (\<forall>x \<in> insert c (set (children e)). reports ind s x ls)))"
  have li: "listed s" using p by (simp add: printable_def)
  have one: "\<exists>ls. (\<forall>out. dump_package ind s a out = Some (out @ ls)) \<and> ?Q a ls" if a: "a \<in> set (packages s)" for a
  proof -
    have "a \<in> set (group s OBJ_TYPE_PACKAGE)" using a by (simp add: group_def)
    then obtain d where d: "objs s a = Some d" "obj_type d = OBJ_TYPE_PACKAGE" using li unfolding listed_def by blast
    then show ?thesis using dump_package_lines [OF p d, of ind] by auto
  qed
  have mono: "\<And>c ls ls'. ?Q c ls \<Longrightarrow> set ls \<subseteq> set ls' \<Longrightarrow> ?Q c ls'" by (blast intro: reports_mono)
  have "\<exists>ls. (\<forall>out. for_each_object (packages s) (dump_package ind s) out = Some (out @ ls)) \<and> (\<forall>a \<in> set (packages s). ?Q a ls)"
    by (rule child_lines [OF one mono])
  then obtain ls where ls: "\<And>out. for_each_object (packages s) (dump_package ind s) out = Some (out @ ls)"
    "\<forall>a \<in> set (packages s). ?Q a ls" by blast
  have pk: "?Q a ls" if "objs s a = Some d" "depth (obj_type d) = 1" for a d
  proof -
    have "obj_type d = OBJ_TYPE_PACKAGE" using that(2) by (cases "obj_type d") (simp_all add: depth_def)
    moreover have "a \<in> set (group s (obj_type d))" using li that(1) unfolding listed_def by blast
    ultimately have "a \<in> set (packages s)" by (simp add: group_def)
    then show ?thesis using ls(2) by blast
  qed
  have "reports ind s a ls" if d: "objs s a = Some d" "obj_type d \<noteq> OBJ_TYPE_NODE" for a d
  proof (cases "depth (obj_type d) = 1")
    case False
    obtain q where q: "objs s (parent d) = Some q" "a \<in> set (children q)" "depth (obj_type q) = depth (obj_type d) - 1"
      using printable_parent [OF p d] by blast
    show ?thesis
    proof (cases "depth (obj_type q) = 1")
      case True
      then show ?thesis using pk [OF q(1)] q(1,2) d(1) by blast
    next
      case False
      have "obj_type d = OBJ_TYPE_CPU" using False q(3) d(2) \<open>depth (obj_type d) \<noteq> 1\<close> by (cases "obj_type d") (simp_all add: depth_def)
      then have "depth (obj_type q) = 2" using q(3) by (simp add: depth_def)
      moreover have "obj_type q \<noteq> OBJ_TYPE_NODE" using calculation by (auto simp: depth_def)
      ultimately obtain r where r: "objs s (parent q) = Some r" "parent d \<in> set (children r)" "depth (obj_type r) = 1"
        using printable_parent [OF p q(1)] by auto
      then show ?thesis using pk [OF r(1,3)] r(1) q(1,2) by blast
    qed
  qed (use pk [OF d(1)] in blast)
  then show ?thesis using ls(1) [of "[]"] by (auto simp: dump_tree_def)
qed

lemma dump_object_tree_ok:
  assumes "\<forall>a \<in> set (numa_nodes s). objs s a \<noteq> None"
  shows "\<exists>ls. dump_object_tree s = Some ls \<and> length ls = 3 * length (numa_nodes s)"
proof -
  have "\<exists>ls. (\<forall>out. dump_numa_node_info s a out = Some (out @ ls)) \<and> length ls = 3" if a: "a \<in> set (numa_nodes s)" for a
  proof -
    obtain d where d: "objs s a = Some d" using assms a by blast
    obtain buf where "cpumask_scnprintf 4096 (mask d) = Some (buf, length buf)" using print_mask [of 4096 "mask d"] by auto
    then show ?thesis using d by (simp add: dump_numa_node_info_def)
  qed
  then obtain g where g: "\<And>a out. a \<in> set (numa_nodes s) \<Longrightarrow> dump_numa_node_info s a out = Some (out @ g a)"
    "\<And>a. a \<in> set (numa_nodes s) \<Longrightarrow> length (g a) = 3" by metis
  have "for_each (dump_numa_node_info s) (numa_nodes s) [] = Some ([] @ concat (map g (numa_nodes s)))" by (rule for_each_lines [OF g(1)])
  moreover have "length (concat (map g xs)) = 3 * length xs" if "set xs \<subseteq> set (numa_nodes s)" for xs
    using that by (induction xs) (auto simp: g(2))
  ultimately show ?thesis by (simp add: dump_object_tree_def for_each_object_def)
qed

lemma dump_workloads_ok:
  assumes "\<forall>a \<in> set (interrupts_db s). \<exists>i. irqs s a = Some i \<and> objs s (numa_node i) \<noteq> None \<and> class_ok (i_class i)"
  shows "\<exists>ls. dump_workloads s = Some ls \<and> length ls = length (interrupts_db s)"
proof -
  have "\<exists>l. \<forall>out. dump_workload s a out = Some (out @ [l])" if a: "a \<in> set (interrupts_db s)" for a
  proof -
    obtain i where i: "irqs s a = Some i" "objs s (numa_node i) \<noteq> None" "class_ok (i_class i)" using assms a by blast
    note cn = class_name_ok [OF i(3)]
    then show ?thesis using i(1,2) by (auto simp: cn dump_workload_def)
  qed
  then obtain g where g: "\<And>a out. a \<in> set (interrupts_db s) \<Longrightarrow> dump_workload s a out = Some (out @ [g a])" by metis
  have "for_each (dump_workload s) (interrupts_db s) [] = Some ([] @ concat (map (\<lambda>a. [g a]) (interrupts_db s)))" by (rule for_each_lines [OF g])
  moreover have "length (concat (map (\<lambda>a. [g a]) xs)) = length xs" for xs by (induction xs) simp_all
  ultimately show ?thesis by (simp add: dump_workloads_def log_each_irq_def)
qed

end
