(* ===== verification/Example_World.thy ===== *)
theory Example_World
  imports Run Example Weight Dump
begin

text \<open>
  A small system in \<open>/sys\<close> and \<open>/proc\<close> on which the properties of the start and of the main loop are
  exercised, and the example machine as a state of the main loop.
\<close>

text \<open>A small system to scan: two online cpus, of which cpu 1 is isolated, no PCI device, and one irq.\<close>

definition ex_contents :: "string \<Rightarrow> string option" where
  "ex_contents p = (if p = ''/proc/interrupts'' then Some (''  CPU0 CPU1'' @ [newline] @ '' 32: 5 0 GIC eth0'' @ [newline])
     else if p = ''/sys/devices/system/cpu/isolated'' then Some (ranges_text (1, 1) [] @ [newline]) else None)"

definition ex_entries :: "string \<Rightarrow> (string \<times> bool) list option" where
  "ex_entries p = (if p = ''/sys/devices/system/cpu'' then Some [(''cpu0'', True), (''cpu1'', True), (''cpufreq'', True)]
     else if p = SYSDEV_DIR then Some [] else None)"

definition ex_world :: world where
  "ex_world = \<lparr>contents = ex_contents, entries = ex_entries, environ = (\<lambda>_. None), polscript = None,
     regexec = (\<lambda>_ _. False)\<rparr>"

lemma ex_paths: "cpu_paths ex_world = [''/sys/devices/system/cpu/cpu0'', ''/sys/devices/system/cpu/cpu1'']"
  by code_simp

lemma ex_strtoul: "strtoul ''0'' = 0" "strtoul ''1'' = 1" "strtoul '' 32'' = 32"
  by (simp_all add: strtoul_def scan_u64_def skip_sign_def digits_value_def isspace_def isdigit_def)

lemma ex_numbers: "map cpu_number (cpu_paths ex_world) = [0, 1]"
  by (simp add: ex_paths cpu_number_def ex_strtoul to_int_def)

lemma ex_online: "p \<in> set (cpu_paths ex_world) \<Longrightarrow> cpu_online ex_world p = Some True"
  by (auto simp: ex_paths cpu_online_def file_first_line_def ex_world_def ex_contents_def)

lemma ex_tokens: "strtok CHR '' '' ('' 32: 5 0 GIC eth0'' @ [newline]) = [''32:'', ''5'', ''0'', ''GIC'', ''eth0'' @ [newline]]"
  by code_simp

lemma ex_line: "irq_line ex_world h ('' 32: 5 0 GIC eth0'' @ [newline])
  = Some (True, [zero_irq\<lparr>irq := 32, hint_policy := h, i_name := Some ''eth0''\<rparr>])"
  unfolding irq_line_def ex_tokens
  by (simp add: ex_strtoul to_int_def newline_def isblank_def isdigit_def guess_arm_irq_hints_def irq_matches_def guess_step_def ex_world_def Let_def)

lemma ex_collect: "collect_full_irq_list ex_world h = Some [zero_irq\<lparr>irq := 32, hint_policy := h, i_name := Some ''eth0''\<rparr>]"
proof -
  have f: "file_lines (''  CPU0 CPU1'' @ [newline] @ '' 32: 5 0 GIC eth0'' @ [newline])
    = [''  CPU0 CPU1'' @ [newline], '' 32: 5 0 GIC eth0'' @ [newline]]" by code_simp
  have c: "c_string ('' 32: 5 0 GIC eth0'' @ [newline]) = '' 32: 5 0 GIC eth0'' @ [newline]" by code_simp
  have "contents ex_world ''/proc/interrupts'' = Some (''  CPU0 CPU1'' @ [newline] @ '' 32: 5 0 GIC eth0'' @ [newline])"
    by (simp add: ex_world_def ex_contents_def)
  then show ?thesis unfolding collect_full_irq_list_def by (simp add: f c ex_line del: append_Cons)
qed

lemma ex_sources: "irq_sources ex_world h = Some ([], [zero_irq\<lparr>irq := 32, hint_policy := h, i_name := Some ''eth0''\<rparr>])"
  by (simp add: irq_sources_def ex_collect) (simp add: ex_world_def ex_entries_def SYSDEV_DIR_def)

lemma ex_banned: "\<exists>m. read_cpulist ex_world ''/sys/devices/system/cpu/isolated'' = Some m \<and> cpus_of m = {1}"
  "read_cpulist ex_world ''/sys/devices/system/cpu/nohz_full'' = Some (cpus_clear CPU_MASK_NONE)"
  using read_cpulist_ranges [of ex_world "''/sys/devices/system/cpu/isolated''" "(1, 1)" "[]"]
  by (simp_all add: ex_world_def ex_contents_def read_cpulist_def NR_CPUS_def)

lemma ex_setup: "setup_banned_cpus ex_world s = Some (s\<lparr>banned_cpus := m\<rparr>) \<Longrightarrow> cpus_of m = {1}"
proof -
  assume a: "setup_banned_cpus ex_world s = Some (s\<lparr>banned_cpus := m\<rparr>)"
  obtain i where i: "read_cpulist ex_world ''/sys/devices/system/cpu/isolated'' = Some i" "cpus_of i = {1}" using ex_banned(1) by blast
  have "environ ex_world ''IRQBALANCE_BANNED_CPUS'' = None" by (simp add: ex_world_def)
  then have "setup_banned_cpus ex_world s = Some (s\<lparr>banned_cpus := cpus_or (banned_cpus s) (cpus_clear CPU_MASK_NONE) i\<rparr>)"
    using i(1) ex_banned(2) by (simp add: setup_banned_cpus_def)
  with a have "banned_cpus (s\<lparr>banned_cpus := m\<rparr>) = banned_cpus (s\<lparr>banned_cpus := cpus_or (banned_cpus s) (cpus_clear CPU_MASK_NONE) i\<rparr>)" by simp
  then show ?thesis using i(2) by simp
qed

lemma ex_usable: "usable_cpus ex_world (cpu_paths ex_world) {1} = [0]"
proof -
  have "filter (\<lambda>p. cpu_online ex_world p = Some True) (cpu_paths ex_world) = cpu_paths ex_world" using ex_online by simp
  then show ?thesis by (simp add: usable_cpus_def ex_numbers)
qed

lemma ex_sysfs: "cpu_sysfs_ok ex_world False"
proof -
  have "\<forall>p. contents ex_world p \<noteq> Some []" by (simp add: ex_world_def ex_contents_def)
  moreover have "cpu_number p \<in> set [0, 1]" if "p \<in> set (cpu_paths ex_world)" for p
    using that unfolding ex_numbers [symmetric] by simp
  moreover have "read_cpulist ex_world ''/sys/devices/system/cpu/isolated'' \<noteq> None" using ex_banned(1) by auto
  ultimately show ?thesis using ex_banned(2) by (force simp: cpu_sysfs_ok_def cpu_dir_ok_def NR_CPUS_def ex_paths)
qed

lemma ex_world_ok: "world_ok H ex_world"
  using ex_sysfs ex_setup ex_usable unfolding world_ok_def by (auto simp: ex_sources) (auto simp: ex_world_def)

lemma ex_online_cpus: "online_cpus ex_world = 2"
proof -
  have "filter (\<lambda>p. cpu_online ex_world p = Some True) (cpu_paths ex_world) = cpu_paths ex_world" using ex_online by simp
  then show ?thesis by (simp add: online_cpus_def ex_paths)
qed

text \<open>The example machine is a state of the main loop, and a cycle without measurements keeps its loads small.\<close>

lemma ex_loop_inv: "loop_inv True {HINT_POLICY_IGNORE} (ex_sys 0)"
proof -
  have "counts_ok (ex_sys 0)" "quiet True (ex_sys 0)" "homed True (ex_sys 0)"
    by (auto simp: counts_ok_def quiet_def homed_def ex_sys_def ex_irq_def ex_obj_def split: if_splits)
  moreover have "listed (ex_sys 0)" unfolding listed_def
    by (auto simp: ex_sys_def ex_obj_def group_def split: if_splits obj_type_e.splits)
  moreover have "db_lists (ex_sys 0)"
    by (auto simp: db_lists_def lists_ok_def irqs_valid_def int32_def ex_sys_def ex_irq_def unspecified_node_def)
  moreover have "numa_nodes (ex_sys 0) = [unspecified_node]" "full_but {} (ex_sys 0)" "has_package (ex_sys 0)" "hung {} (ex_sys 0)"
    "global_hint_policy (ex_sys 0) \<in> {HINT_POLICY_IGNORE}" "1 \<le> unat (deepest_cache (ex_sys 0))" "unat (deepest_cache (ex_sys 0)) < 2 ^ 32"
    by (auto simp: full_but_def has_package_def hung_def ex_sys_def ex_obj_def unspecified_node_def split: if_splits)
  moreover have "\<forall>a d. objs (ex_sys 0) a = Some d \<longrightarrow>
          (obj_type d \<noteq> OBJ_TYPE_NODE \<longrightarrow> cpus_of (mask d) \<inter> cpus_of (banned_cpus (ex_sys 0)) = {})
          \<and> (obj_type d = OBJ_TYPE_NODE \<longrightarrow> cpus_of (mask d) \<inter> cpus_of (unbanned_cpus (ex_sys 0)) \<noteq> {})
          \<and> (\<forall>c \<in> set (children d). \<forall>e. objs (ex_sys 0) c = Some e \<longrightarrow> depth (obj_type e) = depth (obj_type d) + 1)"
    by (auto simp: ex_sys_def ex_obj_def depth_def NR_CPUS_def lessThan_empty_iff split: if_splits)
  moreover have "\<forall>a \<in> set (interrupts_db (ex_sys 0)). \<forall>i. irqs (ex_sys 0) a = Some i \<longrightarrow>
          numa_node i = unspecified_node \<and> 0 \<le> level i \<and> level i \<le> 3 \<and> hint_policy i \<in> {HINT_POLICY_IGNORE} \<and> class_ok (i_class i)"
    by (auto simp: ex_sys_def ex_irq_def unspecified_node_def class_ok_def IRQ_ETH_def)
  ultimately have "static {HINT_POLICY_IGNORE} (ex_sys 0)"
    unfolding static_def using ex_ok_levels ex_ok_parents by blast
  then show ?thesis unfolding loop_inv_def using \<open>counts_ok (ex_sys 0)\<close> \<open>quiet True (ex_sys 0)\<close> \<open>homed True (ex_sys 0)\<close> ex_wf by blast
qed

definition ex_inputs :: inputs where
  "ex_inputs = \<lparr>ints = None, stats = None, rescan_world = ex_world, ints2 = None, stats2 = None, ints3 = None, stats3 = None,
     rd_affinity = (\<lambda>_. NoFile), wr_affinity = (\<lambda>_. True)\<rparr>"

definition ex_machine :: machine where
  "ex_machine = \<lparr>alloc = first_free, junk = CPU_MASK_NONE, hz = 100\<rparr>"

lemma ex_inputs_ok: "inputs_ok H ex_inputs"
  by (simp add: inputs_ok_def ex_inputs_def ex_world_ok stat_file_ok_def)

lemma ex_allocates: "sys_allocates (alloc ex_machine)"
  by (simp add: ex_machine_def first_free)

lemma ex_cycle_ok: "cycle_ok ex_machine H ex_inputs (ex_sys 0)"
proof -
  have "ok_sys (ex_sys 0)" by (simp add: ok_sys_def ex_wf ex_ok_levels)
  then obtain s1 where s1: "clear_work_stats (ex_sys 0) = Some s1" "zeroed (ex_sys 0) s1" using clear_work_stats_ok by blast
  note z = zeroed_skel [OF s1(2)]
  have f: "s1 = (ex_sys 0)\<lparr>irqs := irqs s1\<rparr>" "objs s1 = objs (ex_sys 0)" "need_rescan s1 = need_rescan (ex_sys 0)"
    "interrupts_db s1 = interrupts_db (ex_sys 0)" "round_steps s1 = round_steps (ex_sys 0)"
  proof -
    show e: "s1 = (ex_sys 0)\<lparr>irqs := irqs s1\<rparr>" using s1(2) unfolding zeroed_def by blast
    show "objs s1 = objs (ex_sys 0)" "need_rescan s1 = need_rescan (ex_sys 0)"
      "interrupts_db s1 = interrupts_db (ex_sys 0)" "round_steps s1 = round_steps (ex_sys 0)"
      by (subst e; simp add: round_steps_def)+
  qed
  have g: "gather ex_machine ex_inputs (ex_sys 0) = Some s1"
    using s1(1) f(3) by (simp add: gather_def measure_work_def ex_inputs_def parse_proc_interrupts_def parse_proc_stat_def)
      (simp add: ex_sys_def)
  have "loads_le s1 100" using ex_loads(1) [of 0] by (simp add: loads_le_def f(2))
  moreover have "irq_loads_lt s1 100" unfolding irq_loads_lt_def f(4)
  proof (intro ballI allI impI)
    fix a i assume a: "a \<in> set (interrupts_db (ex_sys 0))" "irqs s1 a = Some i"
    then have "irqs s1 a = irqs (ex_sys 0) a \<or> i_load i = 0" using s1(2) unfolding zeroed_def by (metis (mono_tags, lifting) map_option_eq_Some irq_info.select_convs(12) irq_info.surjective irq_info.update_convs(12))
    then show "unat (i_load i) < 100" using ex_loads(2) [of 0] a unfolding irq_loads_lt_def by auto
  qed
  ultimately have "loads_fit s1" unfolding loads_fit_def using ex_loads(3) [of 0] f(5) by (intro exI [of _ 100]) simp
  then show ?thesis using g ex_inputs_ok by (simp add: cycle_ok_def cycle_loads_fit_def)
qed

text \<open>The state after \<open>build_numa_node_list\<close>.\<close>

definition ex_nodes :: sys where
  "ex_nodes = (snd initial)\<lparr>objs := [unspecified_node \<mapsto> unspecified_node_template], numa_nodes := [unspecified_node]\<rparr>"

lemma ex_only_nodes: "only_nodes ex_nodes" "\<not> numa_avail ex_nodes" "unat (deepest_cache ex_nodes) = 2"
  by (auto simp: ex_nodes_def initial_def only_nodes_def fresh_obj_def unspecified_node_def unspecified_node_template_def
      zero_obj_def split: if_splits)

lemma ex_db_sources: "db_lists ex_nodes" "counts_ok ex_nodes" "policies_ok {HINT_POLICY_IGNORE} ex_world ex_nodes"
  "irq_sources ex_world (global_hint_policy ex_nodes)
    = Some ([], [zero_irq\<lparr>irq := 32, hint_policy := HINT_POLICY_IGNORE, i_name := Some ''eth0''\<rparr>])"
proof -
  have "polscript ex_world = None" by (simp add: ex_world_def)
  then show "db_lists ex_nodes" "counts_ok ex_nodes" "policies_ok {HINT_POLICY_IGNORE} ex_world ex_nodes"
    by (simp_all add: ex_nodes_def initial_def db_lists_def lists_ok_def irqs_valid_def counts_ok_def policies_ok_def)
  have "global_hint_policy ex_nodes = HINT_POLICY_IGNORE" by (simp add: ex_nodes_def initial_def)
  then show "irq_sources ex_world (global_hint_policy ex_nodes)
    = Some ([], [zero_irq\<lparr>irq := 32, hint_policy := HINT_POLICY_IGNORE, i_name := Some ''eth0''\<rparr>])" by (simp add: ex_sources)
qed

section \<open>A hint with a banned cpu\<close>

text \<open>
  One irq with the hint policy \<open>subset\<close> and the hint {1, 7}, on a machine whose only usable cpu is 0: cpu 1 is banned,
  cpu 7 is offline and hence in no object, but it is not banned either.
\<close>

definition ex_hint :: sys where
  "ex_hint = (ex_sys 0)\<lparr>objs := [1 \<mapsto> ex_obj OBJ_TYPE_NODE (-1) 60 CPU_MASK_ALL [] 0 [2] NUMA_NODES,
       2 \<mapsto> ex_obj OBJ_TYPE_PACKAGE 0 60 (mask_of [0]) [] 1 [3] PACKAGES,
       3 \<mapsto> ex_obj OBJ_TYPE_CACHE 0 60 (mask_of [0]) [] 2 [4] CACHE_DOMAINS,
       4 \<mapsto> ex_obj OBJ_TYPE_CPU 0 60 (mask_of [0]) [] 3 [] CPUS],
     irqs := [11 \<mapsto> (ex_irq 32 7 0)\<lparr>hint_policy := HINT_POLICY_SUBSET, affinity_hint := the (cpu_set 7 (mask_of [1]))\<rparr>],
     cpus := [4], interrupts_db := [11], rebalance_irq_list := [11], banned_cpus := mask_of [1],
     unbanned_cpus := cpus_complement CPU_MASK_NONE (mask_of [1]), global_hint_policy := HINT_POLICY_SUBSET, cycle_count := 0, debug_mode := False\<rparr>"

text \<open>The state after placement: no package meets the hint, so the irq stays on the node.\<close>

definition ex_placed :: sys where
  "ex_placed = ex_hint\<lparr>objs := (objs ex_hint)(1 \<mapsto> ex_obj OBJ_TYPE_NODE (-1) 67 CPU_MASK_ALL [11] 0 [2] NUMA_NODES),
     irqs := [11 \<mapsto> (the (irqs ex_hint 11))\<lparr>assigned_obj := 1\<rparr>], rebalance_irq_list := []\<rparr>"

definition ex_rewrite :: inputs where
  "ex_rewrite = ex_inputs\<lparr>rd_affinity := \<lambda>_. Line ''0''\<rparr>"

lemma ex_hint_mask: "cpus_of (the (cpu_set 7 (mask_of [1]))) = {7, 1}"
  by (simp add: cpus_of_the_set NR_CPUS_def)

lemma ex_sets:
  "{..<NR_CPUS} \<inter> ({..<NR_CPUS} - {1}) \<noteq> {}" "{7, 1} \<inter> {..<NR_CPUS} \<noteq> {}" "{7, 1} \<inter> {0 :: nat} = {}"
proof -
  have "0 \<in> {..<NR_CPUS} \<inter> ({..<NR_CPUS} - {1})" "7 \<in> {7, 1} \<inter> {..<NR_CPUS}" by (simp_all add: NR_CPUS_def)
  then show "{..<NR_CPUS} \<inter> ({..<NR_CPUS} - {1}) \<noteq> {}" "{7, 1} \<inter> {..<NR_CPUS} \<noteq> {}" by blast+
qed auto

lemma ex_masks:
  "cpus_intersects CPU_MASK_ALL (cpus_complement CPU_MASK_NONE (mask_of [1]))"
  "cpus_empty (the (cpu_set 7 (mask_of [1]))) = False"
  "cpus_empty (cpus_and CPU_MASK_NONE (the (cpu_set 7 (mask_of [1]))) CPU_MASK_ALL) = False"
  "cpus_empty (cpus_and CPU_MASK_NONE (the (cpu_set 7 (mask_of [1]))) (mask_of [0])) = True"
  "cpus_empty (mask_of [1]) = False"
  using ex_sets by (simp_all add: ex_hint_mask cpus_of_ALL)

lemma ex_hint_placed:
  "calculate_placement ex_hint = Some (ex_placed, [])"
  using ex_masks by (simp add: calculate_placement_def sort_irq_list_def get_list_def put_list_def place_irq_in_node_def find_placement_def find_best_object_def
      for_each_irq_def for_each_object_def migrate_irq_def upd_irq_def upd_obj_def place_irq_in_object_def find_best_object_for_irq_def
      stops_at_def glength_def compare_ints_def ex_hint_mask cpus_of_ALL ex_placed_def ex_hint_def ex_sys_def ex_obj_def ex_irq_def ULLONG_MAX_def)

lemma ex_hint_loop: "loop_inv True {HINT_POLICY_SUBSET} ex_hint"
proof -
  have o: "(objs ex_hint a = Some d) \<longleftrightarrow> (a, d) \<in> {(1, ex_obj OBJ_TYPE_NODE (-1) 60 CPU_MASK_ALL [] 0 [2] NUMA_NODES),
      (2, ex_obj OBJ_TYPE_PACKAGE 0 60 (mask_of [0]) [] 1 [3] PACKAGES), (3, ex_obj OBJ_TYPE_CACHE 0 60 (mask_of [0]) [] 2 [4] CACHE_DOMAINS),
      (4, ex_obj OBJ_TYPE_CPU 0 60 (mask_of [0]) [] 3 [] CPUS)}" for a d
    by (auto simp: ex_hint_def)
  have g: "get_list l ex_hint = Some xs \<longleftrightarrow> l = Rebalance \<and> xs = [11] \<or> (\<exists>d \<in> {1, 2, 3, 4}. l = ObjIrqs d \<and> xs = [])" for l xs
    by (cases l) (auto simp: get_list_def ex_hint_def ex_obj_def)
  have w: "wf_sys ex_hint" unfolding wf_sys_def
  proof (intro conjI)
    show "ok_irqs ex_hint" by (auto simp: ok_irqs_def ex_hint_def ex_sys_def ex_irq_def)
    show "ok_tree ex_hint" by (auto simp: ok_tree_def ex_hint_def ex_sys_def ex_obj_def split: if_splits)
    show "ok_lists ex_hint" unfolding ok_lists_def g by (auto simp: ex_hint_def ex_irq_def)
  qed
  have "ok_levels ex_hint" "ok_parents ex_hint" "full_but {} ex_hint" "has_package ex_hint" "hung {} ex_hint"
    by (auto simp: ok_levels_def ok_parents_def full_but_def has_package_def hung_def ex_hint_def ex_obj_def tree_level_def unspecified_node_def split: if_splits)
  moreover have "listed ex_hint" unfolding listed_def
    by (auto simp: ex_hint_def ex_sys_def ex_obj_def group_def split: if_splits obj_type_e.splits)
  moreover have "db_lists ex_hint"
    by (auto simp: db_lists_def lists_ok_def irqs_valid_def int32_def ex_hint_def ex_sys_def ex_irq_def unspecified_node_def)
  moreover have "numa_nodes ex_hint = [unspecified_node]" "global_hint_policy ex_hint \<in> {HINT_POLICY_SUBSET}"
    "1 \<le> unat (deepest_cache ex_hint)" "unat (deepest_cache ex_hint) < 2 ^ 32"
    by (simp_all add: ex_hint_def ex_sys_def unspecified_node_def)
  moreover have "(obj_type d \<noteq> OBJ_TYPE_NODE \<longrightarrow> cpus_of (mask d) \<inter> cpus_of (banned_cpus ex_hint) = {})
        \<and> (obj_type d = OBJ_TYPE_NODE \<longrightarrow> cpus_of (mask d) \<inter> cpus_of (unbanned_cpus ex_hint) \<noteq> {})
        \<and> (\<forall>c \<in> set (children d). \<forall>e. objs ex_hint c = Some e \<longrightarrow> depth (obj_type e) = depth (obj_type d) + 1)"
    if "objs ex_hint a = Some d" for a d
    using that ex_sets(1) unfolding o by (auto simp: ex_hint_def ex_obj_def depth_def cpus_of_ALL split: if_splits)
  moreover have "\<forall>a \<in> set (interrupts_db ex_hint). \<forall>i. irqs ex_hint a = Some i \<longrightarrow>
        numa_node i = unspecified_node \<and> 0 \<le> level i \<and> level i \<le> 3 \<and> hint_policy i \<in> {HINT_POLICY_SUBSET} \<and> class_ok (i_class i)"
    by (auto simp: ex_hint_def ex_irq_def unspecified_node_def class_ok_def IRQ_ETH_def)
  ultimately have "static {HINT_POLICY_SUBSET} ex_hint" unfolding static_def by blast
  moreover have "counts_ok ex_hint" "quiet True ex_hint" "homed True ex_hint"
    by (auto simp: counts_ok_def quiet_def homed_def ex_hint_def ex_sys_def ex_irq_def ex_obj_def split: if_splits)
  ultimately show ?thesis using w by (simp add: loop_inv_def)
qed

lemma parse_zero: "cpumask_parse_user ''0'' CPU_MASK_NONE = (RC_OK, CPU_MASK_NONE)"
proof -
  have z: "isxdigit CHR ''0''" "\<not> isspace CHR ''0''" "CHR ''0'' \<noteq> NUL" "unhex CHR ''0'' = 0" by code_simp+
  have "parse_chunk ''0'' NUL 0 0 0 = ChunkEnd 0 1 1 CHR ''0'' []" using z by simp
  then have "map_prod id bits (cpumask_parse_user ''0'' CPU_MASK_NONE) = (RC_OK, bitmap_zero (bits CPU_MASK_NONE) NR_CPUS)"
    by (simp add: cpumask_parse_user.rep_eq bitmap_parse_def gen_bitmap_parse_def bitmap_parse_loop.simps)
  moreover have "bitmap_zero (bits CPU_MASK_NONE) NR_CPUS = bits (cpus_clear CPU_MASK_NONE)" by (simp add: cpus_clear.rep_eq)
  moreover have "cpus_clear CPU_MASK_NONE = CPU_MASK_NONE" by (simp flip: cpus_of_inject)
  ultimately show ?thesis by (cases "cpumask_parse_user ''0'' CPU_MASK_NONE") (simp add: bits_inject)
qed

lemma ex_hint_balance:
  "\<exists>s' tx m. balance ex_rewrite ex_hint = Some s' \<and> smp_affinity_log s' = [(32, tx)] \<and> cpumask_parse_user tx CPU_MASK_NONE = (RC_OK, m)
     \<and> cpus_of m = {7, 1} \<and> banned_cpus s' = banned_cpus ex_hint"
proof -
  let ?m = "cpus_and CPU_MASK_ALL CPU_MASK_ALL (the (cpu_set 7 (mask_of [1])))"
  obtain tx where tx: "cpumask_scnprintf PATH_MAX ?m = Some (tx, length tx)" "cpumask_parse_user tx CPU_MASK_NONE = (RC_OK, ?m)"
    using cpumask_print_parse [of PATH_MAX "[]" ?m CPU_MASK_NONE] by (auto simp: PATH_MAX_def line_end_def)
  have m: "cpus_of ?m = {7, 1}" by (auto simp: ex_hint_mask cpus_of_ALL NR_CPUS_def)
  have "cycle_count ex_hint = 0" by (simp add: ex_hint_def)
  then have b: "balance ex_rewrite ex_hint = activate_mappings (rd_affinity ex_rewrite) (wr_affinity ex_rewrite) ex_placed"
    by (simp add: balance_def ex_hint_placed)
  have "{7, 1} \<inter> ({..<NR_CPUS} - {1}) \<noteq> {}" by (auto simp: NR_CPUS_def)
  moreover have "?m \<noteq> CPU_MASK_NONE" using m by (auto simp flip: cpus_of_inject)
  moreover have "c_string ''0'' = ''0''" by code_simp
  ultimately have "\<exists>s'. balance ex_rewrite ex_hint = Some s' \<and> smp_affinity_log s' = [(32, tx)] \<and> banned_cpus s' = banned_cpus ex_hint"
    using m ex_hint_mask tx(1) unfolding b
    by (simp add: activate_mappings_def for_each_irq_def activate_mapping_def applied_mask_def check_affinity_def upd_irq_def parse_zero
        ex_rewrite_def ex_inputs_def ex_placed_def ex_hint_def ex_sys_def ex_irq_def ex_obj_def cpus_of_inject)
  with tx(2) m show ?thesis by blast
qed

section \<open>A device with a policy\<close>

text \<open>A device with the class of a network controller, a policy script that asks for the level \<open>package\<close>, and
  the descriptor of an irq read from \<open>/proc/interrupts\<close>.\<close>

definition ex_dev_world :: world where
  "ex_dev_world = ex_world\<lparr>contents := \<lambda>_. Some ''0x020000'', polscript := Some (\<lambda>_ _. Some [''balance_level=package''])\<rparr>"

definition ex_hint_irq :: irq_info where
  "ex_hint_irq = zero_irq\<lparr>irq := 40, i_class := IRQ_ETH, i_name := Some ''eth0''\<rparr>"

lemma ex_dev_class: "get_irq_class ex_dev_world ''/d'' = IRQ_ETH"
proof -
  have "skip_sign (dropWhile isspace ''0x020000'') = (False, ''0x020000'')" "takeWhile isxdigit ''020000'' = ''020000''" by code_simp+
  moreover have "hexval ''020000'' = 131072" by (simp add: hexval_def unhex_def isdigit_def)
  ultimately have "scan_hex ''0x020000'' = Some 131072" by (simp add: scan_hex_def)
  then have "read_pci_data ex_dev_world p f = 131072" for p f by (simp add: read_pci_data_def ex_dev_world_def)
  then have "get_pci_info ex_dev_world ''/d''
      = Some \<lparr>vendor = 0, device = 0, sub_vendor = 0, sub_device = 0, pci_class = 131072\<rparr>"
    by (simp add: get_pci_info_def PCI_INVAL_DATA_def)
  moreover have "map_pci_irq_class 131072 = IRQ_ETH" by code_simp
  ultimately show ?thesis by (simp add: get_irq_class_def apply_pci_quirks_def IRQ_ETH_def)
qed

lemma ex_dev_policy: "get_irq_user_policy ex_dev_world p n ex_nodes
  = Some \<lparr>ban = -1, pol_level = 1, numa_node_set = -1, pol_numa_node = -1, hintpolicy = HINT_POLICY_IGNORE\<rparr>"
proof -
  have "parse_user_policy_key (c_string ''balance_level=package'') s pol = Some (pol\<lparr>pol_level := 1\<rparr>)" for s pol
  proof -
    have t: "c_string ''balance_level=package'' = ''balance_level=package''" "CHR ''='' \<in> set ''balance_level=package''"
      "takeWhile (\<lambda>c. c \<noteq> CHR ''='') ''balance_level=package'' = ''balance_level''"
      "takeWhile (\<lambda>c. c \<noteq> newline) (tl (dropWhile (\<lambda>c. c \<noteq> CHR ''='') ''balance_level=package'')) = ''package''"
      "\<not> strcaseeq ''ban'' ''balance_level''" "strcaseeq ''balance_level'' ''balance_level''" "level_index 0 levelvals ''package'' = 1"
      by code_simp+
    show ?thesis unfolding parse_user_policy_key_def t Let_def by (simp add: t)
  qed
  then show ?thesis by (simp add: get_irq_user_policy_def ex_dev_world_def ex_nodes_def initial_def)
qed

lemma ex_dev_db: "db_ok UNIV 0 ex_nodes"
  by (simp add: db_ok_def ex_nodes_def initial_def irqs_valid_def counts_ok_def)

lemma ex_dev_policies: "policies_ok UNIV ex_dev_world ex_nodes"
  by (simp add: policies_ok_def)

end
