(* ===== verification/Spec2Isabelle.thy ===== *)
theory Spec2Isabelle
  imports Example_World
begin

text \<open>
  A verification of irqbalance, the daemon under \<open>src/irqbalance/\<close> that spreads interrupts over cpus. It is the
  only program of the repository with logic of its own; the rest is build files, configuration, kernel headers
  and a small C++ class for the recovery screen. The configuration is the one of \<open>Android.mk\<close> and \<open>config.h\<close>:
  AArch64, no libnuma (\<open>numa_available\<close> is -1), \<open>getopt_long\<close>, no ban script.

  \<^bold>\<open>The program.\<close> \<open>main\<close> (\<open>irqbalance.c\<close>) reads the command line and builds the object tree: numa nodes
  (\<open>numa.c\<close>), packages, cache domains and cpus (\<open>cputree.c\<close>), and the data base of irqs (\<open>classify.c\<close>, with the
  list of irqs \<open>procinterrupts.c\<close> collects). Then it loops: it reads the interrupt counts and the cpu times and
  attributes the load of every cpu to the irqs on it and to the objects above it (\<open>procinterrupts.c\<close>); if the
  hardware has changed, or after \<open>SIGHUP\<close>, it builds everything anew; it takes irqs off overloaded objects
  (\<open>irqlist.c\<close>), places the irqs that have no object by descending the tree (\<open>placement.c\<close>), and writes the masks
  of the objects to \<open>/proc/irq/N/smp_affinity\<close> (\<open>activate.c\<close>). All lists are linked lists of \<open>glib/glist.c\<close>, and all
  masks bitmaps of \<open>bitmap.c\<close>, \<open>bitmap.h\<close> and \<open>cpumask.h\<close>.

  \<^bold>\<open>The theories.\<close>
  \<^item> \<open>Prelude\<close>: machine integers, the loop that stores array elements, the traversal \<open>for_each\<close>.
  \<^item> \<open>Bitmap\<close> (\<open>non-atomic.h\<close>, \<open>bitmap.h\<close>, the word loops of \<open>bitmap.c\<close>), \<open>Bitmap_Text\<close> (printing and parsing),
    \<open>Weight\<close> (the parallel bit count), \<open>Cpumask\<close> (\<open>cpumask.h\<close>). A bitmap is a list of 64-bit words; its meaning
    is the set \<open>bm_set\<close> of its bits below the width, and \<open>cpus_of\<close> for a mask. A bit number is a C \<open>int\<close>
    and its word \<open>nr / 64\<close>, rounded towards zero, so that -63 to -1 address the first word (\<open>bit_pos\<close>); an
    access or a \<open>memset\<close> outside the array is \<open>None\<close>.
  \<^item> \<open>GList\<close> (\<open>glib/glist.c\<close>) on a heap of nodes. \<open>glist h D p ns\<close> says that the nodes \<open>ns\<close>, with the data \<open>D\<close>, form
    the list at \<open>p\<close>. The operations are shown to implement those on HOL lists, also when the handler of
    \<open>g_list_foreach\<close> deletes the node it is called on; the other theories use HOL lists of addresses.
  \<^item> \<open>State\<close> (\<open>types.h\<close>, \<open>irqbalance.h\<close>, the shared functions of \<open>classify.c\<close>): the record \<open>sys\<close> has all global
    variables; objects and descriptors are in two stores, maps from addresses. An operation returns \<open>None\<close> when
    the code would use an invalid pointer or leave an array. \<open>wf_sys\<close> is the invariant that lists and
    \<open>assigned_obj\<close> agree.
  \<^item> \<open>Placement\<close>, \<open>Irqlist\<close>, \<open>Activate\<close>, \<open>Procinterrupts\<close>, \<open>Sysfs\<close> (the file system as a parameter), \<open>Numa\<close>,
    \<open>Cputree\<close>, \<open>Irqcollect\<close>, \<open>Classify\<close>, \<open>Irqbalance\<close>: the functions of these files in their order, with their
    own lemmas; the lemmas on the data base are in \<open>Irqdb\<close>. The step relation \<open>main_step\<close> of \<open>Irqbalance\<close> has
    a cycle and the two kinds of signals as steps.
  \<^item> \<open>Loop\<close> (the invariant \<open>loop_inv\<close> of the main loop and the balancing part of a cycle), \<open>Cycle\<close> (measuring,
    building, freeing, rescanning and the whole cycle), \<open>Run\<close> (the command line, the start, all runs).
  \<^item> \<open>Dump\<close>: the debug reports of \<open>cputree.c\<close>, \<open>irqlist.c\<close>, \<open>numa.c\<close> and \<open>irqbalance.c\<close>.
  \<^item> \<open>Example\<close>, \<open>Example_World\<close>: a machine and a file system on which the theorems are applied.

  The interfaces are locales: \<open>mask_algebra\<close> (masks as a Boolean algebra of sets), \<open>sort_order\<close> (a total preorder, for
  which merging is a stable sort), \<open>walk\<close> (a traversal of a linked list that changes it simulates one of a HOL
  list) and \<open>tree_walk\<close> (a recursive function on objects that visits every object below once). Each is
  interpreted on the definitions of the program.

  \<^bold>\<open>What is shown.\<close>
  \<^item> Over all runs (C1 to C4): nothing written is a banned cpu; every cycle returns and, without powersave,
    places all irqs; the outcomes of the start and of the command line.
  \<^item> The parts of a cycle (C5 to C10): placement and migration return and keep the invariant, the search is
    optimal, an object keeps an irq, activation writes exactly the masks that are due, the loads are sums over
    the tree. The specification of activation on sets of cpus (\<open>due_writes\<close>) is in \<open>Activate\<close>.
  \<^item> The topology (C11 to C15): rescan after \<open>SIGHUP\<close>, building and freeing, exactly the usable cpus, the end of
    the search for a cache level, the banned cpus.
  \<^item> The data base, sleeping and the end of the program (C16 to C21).
  \<^item> Texts and linked lists (C22 to C27), shared operations and machine integers (C28 to C31).
  \<^item> The debug reports, policies and lists (C32 to C35); bitmaps as sets and malformed masks (C36 to C39).
  Several theorems state defects: the numbers the list parser reduces to \<open>int\<close> (C25), the release of interior
  pointers at the end (C21), the silent acceptance of a malformed \<open>IRQBALANCE_BANNED_CPUS\<close> (C39), a banned cpu
  written under the hint policy \<open>subset\<close> (C40), the level of a policy that is discarded (C17), the shifts that
  clear memory outside the array (C31) and the inline right shift that does not mask its source (C37). The tables of the options are shown to agree in \<open>Run\<close>.

  \<^bold>\<open>Assumptions.\<close> They are named predicates. \<open>sys_allocates\<close>: \<open>calloc\<close> returns a new block (the branches for its
  failure are in the definitions). \<open>world_ok\<close>, \<open>cpu_sysfs_ok\<close>, \<open>stat_file_ok\<close>, \<open>inputs_ok\<close>: the files under \<open>/sys\<close> and
  \<open>/proc\<close> have the form the kernel gives them, cpu numbers are below \<open>NR_CPUS\<close>, and at least one online cpu is not
  banned. \<open>cycle_loads_fit\<close>: the loads measured in a cycle, in nanoseconds, are so far from \<open>2 ^ 64\<close> that adding
  up the irqs of a placement round does not wrap. The theorems on runs exclude the hint policy \<open>subset\<close>,
  for which the search may find no object and C40 shows that a banned cpu may be written. A policy script is
  allowed, whatever it prints, as long as it sets no hint policy that is excluded (\<open>script_ok\<close>).

  \<^bold>\<open>Bounds and loops.\<close> Machine integers have their width (\<open>u64\<close>, \<open>u32\<close>, \<open>c_int\<close>) where the code computes with them;
  numbers that are only stored are \<open>int\<close>. \<open>NR_CPUS\<close> is 4096 as in the source. No definition has fuel: a loop over
  pointers is a \<open>partial_function\<close> into \<open>option\<close>, and the theorems show that it returns. The \<open>long double\<close> of
  \<open>irqlist.c\<close> is a scaled natural number with the IEEE roundings written out.

  \<^bold>\<open>Not modelled.\<close> \<open>getopt_long\<close> (the list of options it returns is an argument), \<open>regexec\<close>, the policy script and the
  file system are parameters. \<open>daemon\<close>, the pid file, the capabilities and \<open>syslog\<close> do not touch the state; the
  success of \<open>daemon\<close> is an argument. A call of \<open>log\<close> outside the reports is left out, and \<open>main_cycle\<close> does not
  call \<open>dump_tree\<close>: C32 shows that the call returns in every state of the loop, and it changes nothing. The
  operations that \<open>bitmap.h\<close> and \<open>cpumask.h\<close> declare but no file defines have no definition here. The parts of
  the repository outside \<open>src/irqbalance/\<close> are configuration, copied kernel headers and glue.
\<close>

section \<open>The main loop\<close>

text \<open>
  C1. In every run of the program after its start (any sequence of cycles, SIGHUP and termination
  signals), with no hint policy \<open>subset\<close>, everything a step writes to \<open>/proc/irq/N/smp_affinity\<close> reads
  back as a mask without any cpu that is banned at that time.
\<close>

theorem no_banned_cpu_is_written:
  assumes "sys_allocates (alloc M)" "HINT_POLICY_SUBSET \<notin> H" "HINT_POLICY_IGNORE \<in> H"
    and "\<forall>opt \<in> set opts. option_tame \<beta> H opt" "world_ok H w" "stat_file_ok stat_file"
    and "main_start M w detached int_file stat_file opts initial = Some (Inr (c, s0))"
    and "(main_step M (cycle_ok M H))\<^sup>*\<^sup>* (True, s0) st" "main_step M (cycle_ok M H) st st'"
  shows "\<exists>out. smp_affinity_log (snd st') = smp_affinity_log (snd st) @ out \<and> (\<forall>y \<in> set out. safe_write (snd st') y)"
proof -
  have "loop_inv \<beta> H s0" using main_start_ok [OF assms(1,3-6), of detached int_file] assms(7) by auto
  then have "loop_inv \<beta> H (snd st)" using run_inv [OF assms(1,2) _ assms(8)] by simp
  from main_step_ok [OF assms(1,2) this assms(9)] show ?thesis by blast
qed

theorem no_banned_cpu_is_written_witness:
  "\<exists>c s0. main_start ex_machine ex_world True None None [] initial = Some (Inr (c, s0))
    \<and> (\<exists>out. smp_affinity_log (snd (force_rescan (True, s0))) = smp_affinity_log s0 @ out
         \<and> (\<forall>y \<in> set out. safe_write (snd (force_rescan (True, s0))) y))"
proof -
  obtain c s0 where s: "main_start ex_machine ex_world True None None [] initial = Some (Inr (c, s0))"
    using main_start_ok [OF ex_allocates, of "{HINT_POLICY_IGNORE}" "[]" True ex_world None True None] ex_world_ok ex_online_cpus
    by (auto simp: stat_file_ok_def split: sum.splits prod.splits) (metis obj_sumE surj_pair)
  then show ?thesis
    using no_banned_cpu_is_written [OF ex_allocates, of "{HINT_POLICY_IGNORE}" "[]" True ex_world None True None c s0
        "(True, s0)" "force_rescan (True, s0)"] ex_world_ok main_step.hangup_signal
    by (auto simp: stat_file_ok_def)
qed

text \<open>
  C2. The loop makes progress: in every state a run reaches, the next cycle on any input (a scan of the
  topology included) returns (no invalid pointer, no endless loop), says that the loop goes on unless
  \<open>oneshot\<close> is set, and keeps the loop invariant, with powersave on or off. If powersave is off (the
  default, \<open>\<beta>\<close>), then after the cycle every irq with a balance level is on the list of an object of exactly
  that level (package, cache domain or cpu).
\<close>

theorem every_cycle_returns_and_places:
  assumes "sys_allocates (alloc M)" "HINT_POLICY_SUBSET \<notin> H" "loop_inv \<beta> H s0"
    and "(main_step M (cycle_ok M H))\<^sup>*\<^sup>* (True, s0) (True, s)" "cycle_ok M H x s"
  shows "\<exists>s'. main_cycle M x s = Some (\<not> one_shot_mode s', s') \<and> loop_inv \<beta> H s'
    \<and> (\<beta> \<longrightarrow> (\<forall>a \<in> set (interrupts_db s'). \<forall>i. irqs s' a = Some i \<longrightarrow> level i \<noteq> BALANCE_NONE \<longrightarrow>
          (\<exists>d. objs s' (assigned_obj i) = Some d \<and> depth (obj_type d) = level i \<and> a \<in> set (interrupts d))))"
proof -
  have li: "loop_inv \<beta> H s" using run_inv [OF assms(1,2) _ assms(4)] assms(3) by simp
  have x: "inputs_ok H x" "cycle_loads_fit M x s" using assms(5) by (simp_all add: cycle_ok_def)
  show ?thesis using main_cycle_ok [OF assms(1,2) x(1) li x(2)] unfolding all_placed_def by blast
qed

theorem every_cycle_returns_and_places_witness:
  "\<exists>s'. main_cycle ex_machine ex_inputs (ex_sys 0) = Some (\<not> one_shot_mode s', s') \<and> loop_inv True {HINT_POLICY_IGNORE} s'
    \<and> (\<forall>a \<in> set (interrupts_db s'). \<forall>i. irqs s' a = Some i \<longrightarrow> level i \<noteq> BALANCE_NONE \<longrightarrow>
         (\<exists>d. objs s' (assigned_obj i) = Some d \<and> depth (obj_type d) = level i \<and> a \<in> set (interrupts d)))"
  using every_cycle_returns_and_places [OF ex_allocates _ ex_loop_inv _ ex_cycle_ok] by simp

section \<open>Start and end\<close>

text \<open>
  C3. The start on a system that can be scanned always returns: it exits with status 0 only when all
  options are valid and fewer than two cpus are online, with status 1 only when an option is invalid or
  the program could not be detached, and otherwise reaches the main loop with its invariant; then the
  options were valid, two cpus are online, and the program is in the foreground or detached.
\<close>

theorem start_outcome:
  assumes "sys_allocates (alloc M)" "HINT_POLICY_IGNORE \<in> H" "\<forall>opt \<in> set opts. option_tame \<beta> H opt"
    and "world_ok H w" "stat_file_ok stat_file"
  shows "\<exists>r. main_start M w detached int_file stat_file opts initial = Some r
    \<and> (case r of Inl n \<Rightarrow> n = 0 \<and> (\<forall>opt \<in> set opts. option_valid opt) \<and> online_cpus w < 2
           \<or> n = 1 \<and> ((\<exists>opt \<in> set opts. \<not> option_valid opt) \<or> 2 \<le> online_cpus w \<and> \<not> detached)
       | Inr (c, s) \<Rightarrow> (\<forall>opt \<in> set opts. option_valid opt) \<and> 2 \<le> online_cpus w \<and> loop_inv \<beta> H s
           \<and> (foreground_mode c \<or> detached))"
  by (rule main_start_ok [OF assms])

theorem start_outcome_witness:
  "\<exists>r. main_start ex_machine ex_world True None None [(CHR ''o'', [])] initial = Some r
    \<and> (case r of Inl n \<Rightarrow> n = 0 \<and> (\<forall>opt \<in> set [(CHR ''o'', [])]. option_valid opt) \<and> online_cpus ex_world < 2
           \<or> n = 1 \<and> ((\<exists>opt \<in> set [(CHR ''o'', [])]. \<not> option_valid opt) \<or> 2 \<le> online_cpus ex_world \<and> \<not> True)
       | Inr (c, s) \<Rightarrow> (\<forall>opt \<in> set [(CHR ''o'', [])]. option_valid opt) \<and> 2 \<le> online_cpus ex_world
           \<and> loop_inv True {HINT_POLICY_IGNORE} s \<and> (foreground_mode c \<or> True))"
  by (rule start_outcome [OF ex_allocates]) (simp_all add: option_tame_def ex_world_ok stat_file_ok_def)

text \<open>
  C4. The command line is rejected with status 1 exactly when some option is invalid; otherwise the sleep
  interval is at least one second, and the irqs banned on the command line are exactly the numbers given
  with \<open>-i\<close>, converted to \<open>int\<close>. (Cache depths given with \<open>-c\<close> are below \<open>2 ^ 32\<close>.)
\<close>

theorem command_line_outcome:
  assumes "sys_allocates al" "\<forall>opt \<in> set opts. option_tame False UNIV opt"
  shows "\<exists>r. parse_command_line al opts initial = Some r
    \<and> (case r of Inl n \<Rightarrow> n = 1 \<and> (\<exists>opt \<in> set opts. \<not> option_valid opt)
       | Inr (c, s) \<Rightarrow> (\<forall>opt \<in> set opts. option_valid opt) \<and> 1 \<le> sleep_interval c
           \<and> {irq i |a i. a \<in> set (cl_banned_irqs s) \<and> irqs s a = Some i} = {to_int (strtoul arg) |arg. (CHR ''i'', arg) \<in> set opts})"
proof -
  note pc = parse_command_line_ok [OF assms(1) blank_initial(1) blank_initial(2) assms(2), unfolded prod.collapse]
  show ?thesis
  proof (cases "\<forall>opt \<in> set opts. option_valid opt")
    case False
    then have "parse_command_line al opts initial = Some (Inl 1)" using pc by auto
    then show ?thesis using False by simp
  next
    case True
    then obtain c s where s: "parse_command_line al opts initial = Some (Inr (c, s))" "1 \<le> sleep_interval c"
      "cl_nums s = cl_nums (snd initial) \<union> (\<Union>opt \<in> set opts. banned_by_option opt)" using pc by auto
    have "{irq i |a i. a \<in> set (cl_banned_irqs s) \<and> irqs s a = Some i} = cl_nums s" by (auto simp: cl_nums_def nums_def)
    also have "\<dots> = {to_int (strtoul arg) |arg. (CHR ''i'', arg) \<in> set opts}"
      unfolding s(3) by (force simp: cl_nums_def nums_def initial_def banned_by_option_def split: if_splits)
    finally show ?thesis using s(1,2) True by simp
  qed
qed

theorem command_line_outcome_witness:
  "\<exists>r. parse_command_line first_free [(CHR ''i'', ''32''), (CHR ''t'', ''5'')] initial = Some r
    \<and> (case r of Inl n \<Rightarrow> n = 1 \<and> (\<exists>opt \<in> set [(CHR ''i'', ''32''), (CHR ''t'', ''5'')]. \<not> option_valid opt)
       | Inr (c, s) \<Rightarrow> (\<forall>opt \<in> set [(CHR ''i'', ''32''), (CHR ''t'', ''5'')]. option_valid opt) \<and> 1 \<le> sleep_interval c
           \<and> {irq i |a i. a \<in> set (cl_banned_irqs s) \<and> irqs s a = Some i}
             = {to_int (strtoul arg) |arg. (CHR ''i'', arg) \<in> set [(CHR ''i'', ''32''), (CHR ''t'', ''5'')]})"
  by (rule command_line_outcome) (simp_all add: first_free option_tame_def)

section \<open>Placement of irqs\<close>

text \<open>
  C5. A placement round (\<open>calculate_placement\<close>) on a well-formed state always returns: it follows no
  invalid pointer, the debug validation of the tree reports nothing, the result is well-formed again
  (every irq is on the list of the object it is assigned to and on no other), and nothing but lists,
  object loads and assignments has changed. The loads have to be small enough not to wrap in a round.
\<close>

theorem placement_round:
  assumes "wf_sys s" "irq_loads_lt s M" "loads_le s L" "L + round_steps s * M < 2 ^ 64 - 1"
  shows "\<exists>s'. calculate_placement s = Some (s', []) \<and> wf_sys s' \<and> sys_shape s' = sys_shape s"
  using calculate_placement_ok [OF assms] by blast

theorem placement_round_witness:
  "\<exists>s'. calculate_placement (ex_sys 0) = Some (s', []) \<and> wf_sys s' \<and> sys_shape s' = sys_shape (ex_sys 0)"
  by (rule placement_round [of "ex_sys 0" 100 100]) (simp_all add: ex_wf ex_loads)

text \<open>
  C6. The search over the children of an object (\<open>find_best_object\<close> through \<open>for_each_object\<close>) returns
  an eligible object of least cost (least load, and at equal load fewest irqs), or \<open>NULL\<close> exactly when
  no object of the list is eligible for the irq.
\<close>

theorem search_is_optimal:
  assumes "irqs s ia = Some i" "\<forall>a \<in> set ds. a \<noteq> NULL \<and> (\<exists>d. objs s a = Some d \<and> load d \<noteq> ULLONG_MAX)"
  shows "\<exists>b. for_each_object ds (find_best_object s) \<lparr>best = NULL, best_cost = ULLONG_MAX, info = ia\<rparr> = Some b
    \<and> (best b = NULL \<longleftrightarrow> (\<forall>a \<in> set ds. \<forall>d. objs s a = Some d \<longrightarrow> \<not> eligible s i d))
    \<and> (best b \<noteq> NULL \<longrightarrow> best b \<in> set ds \<and> (\<exists>m. objs s (best b) = Some m \<and> eligible s i m
         \<and> (\<forall>a \<in> set ds. \<forall>d. objs s a = Some d \<longrightarrow> eligible s i d \<longrightarrow> cost_le m d)))"
proof -
  obtain b where b: "for_each_object ds (find_best_object s) \<lparr>best = NULL, best_cost = ULLONG_MAX, info = ia\<rparr> = Some b"
    "best_of s i (set ds) b" using find_best_ok [OF assms] by blast
  show ?thesis
  proof (cases "best b = NULL")
    case True
    with b show ?thesis by (auto simp: best_of_def)
  next
    case False
    with b(2) obtain m where m: "best b \<in> set ds" "objs s (best b) = Some m" "eligible s i m"
      "\<forall>a \<in> set ds. \<forall>d. objs s a = Some d \<longrightarrow> eligible s i d \<longrightarrow> cost_le m d"
      by (auto simp: best_of_def)
    then have "\<not> (\<forall>a \<in> set ds. \<forall>d. objs s a = Some d \<longrightarrow> \<not> eligible s i d)" by blast
    with b(1) False m show ?thesis by simp
  qed
qed

theorem search_is_optimal_witness:
  "\<exists>b. for_each_object [4, 5] (find_best_object (ex_sys 0)) \<lparr>best = NULL, best_cost = ULLONG_MAX, info = 11\<rparr> = Some b
    \<and> (best b = NULL \<longleftrightarrow> (\<forall>a \<in> set [4, 5]. \<forall>d. objs (ex_sys 0) a = Some d \<longrightarrow> \<not> eligible (ex_sys 0) (ex_irq 32 7 0) d))
    \<and> (best b \<noteq> NULL \<longrightarrow> best b \<in> set [4, 5] \<and> (\<exists>m. objs (ex_sys 0) (best b) = Some m \<and> eligible (ex_sys 0) (ex_irq 32 7 0) m
         \<and> (\<forall>a \<in> set [4, 5]. \<forall>d. objs (ex_sys 0) a = Some d \<longrightarrow> eligible (ex_sys 0) (ex_irq 32 7 0) d \<longrightarrow> cost_le m d)))"
  by (rule search_is_optimal [of "ex_sys 0" 11 "ex_irq 32 7 0" "[4, 5]"])
    (simp_all add: ex_sys_def ex_obj_def ULLONG_MAX_def)

section \<open>Taking irqs off overloaded objects\<close>

text \<open>
  C7. \<open>update_migration_status\<close> always returns on a well-formed state and keeps it well-formed; it
  changes nothing but lists, assignments, the fields \<open>moved\<close> and the powersave flags.
\<close>

theorem migration_keeps_invariant:
  assumes "wf_sys s"
  shows "\<exists>s'. update_migration_status s = Some s' \<and> wf_sys s' \<and> core_shape s' = core_shape s"
  using update_migration_status_ok [OF assms] by blast

theorem migration_keeps_invariant_witness:
  "\<exists>s'. update_migration_status (ex_sys 4) = Some s' \<and> wf_sys s' \<and> core_shape s' = core_shape (ex_sys 4)"
  by (rule migration_keeps_invariant) (simp add: ex_wf)

text \<open>
  C8. Walking over the irqs of an object to move candidates away never empties the object: a non-empty
  list keeps at least one irq, whatever the loads are.
\<close>

theorem object_keeps_an_irq:
  assumes "wf_sys s" "objs s d = Some od" "interrupts od \<noteq> []"
  shows "\<exists>lb' s' od'. for_each_irq_with (interrupts od) move_candidate_irqs (lb, s) = Some (lb', s')
    \<and> objs s' d = Some od' \<and> interrupts od' \<noteq> [] \<and> set (interrupts od') \<subseteq> set (interrupts_db s)"
proof -
  obtain lb' s' where s': "for_each move_candidate_irqs (interrupts od) (lb, s) = Some (lb', s')" "wf_sys s'"
    "sys_shape s' = sys_shape s" "get_list (ObjIrqs d) s' \<noteq> Some []"
    using walk_candidates_ok [OF assms(1,2), of lb] assms(3) by blast
  obtain od' where od': "objs s' d = Some od'" by (rule shape_obj [OF s'(3) assms(2)])
  have "ok_lists s'" "get_list (ObjIrqs d) s' = Some (interrupts od')"
    using s'(2) od' by (simp_all add: wf_sys_def get_list_def)
  then have "set (interrupts od') \<subseteq> set (interrupts_db s')" using ok_lists_list by blast
  with s' od' assms(3) show ?thesis
    by (auto simp: for_each_irq_with_def get_list_def sys_shape_eqD(7) [OF s'(3)])
qed

theorem object_keeps_an_irq_witness:
  "\<exists>od. objs (ex_sys 4) 4 = Some od \<and> (\<exists>lb' s' od'. for_each_irq_with (interrupts od) move_candidate_irqs (zero_info, ex_sys 4) = Some (lb', s')
    \<and> objs s' 4 = Some od' \<and> interrupts od' \<noteq> [] \<and> set (interrupts od') \<subseteq> set (interrupts_db (ex_sys 4)))"
  using object_keeps_an_irq [of "ex_sys 4" 4 "ex_obj OBJ_TYPE_CPU 0 50 (mask_of [0]) [11, 12] 3 [] CPUS" zero_info]
  by (simp add: ex_wf) (simp add: ex_sys_def ex_obj_def)

section \<open>Activation\<close>

text \<open>
  C9. The exact effect of \<open>activate_mappings\<close> on any well-formed state: it returns; in the order of the data
  base it writes exactly the due writes, that is, for each irq that has moved and is assigned to an object,
  whose file can be read and written and holds other cpus than the wanted ones, a text that reads back
  (\<open>cpumask_parse_user\<close>) as exactly the wanted cpus; wanted are, under the exact policy with a nonempty hint,
  the hint if it contains no banned cpu, and otherwise the cpus of the object, intersected with the hint under
  the subset policy if an unbanned cpu is left. Nothing but the flags \<open>moved\<close> (cleared exactly for the irqs
  written) and \<open>warned\<close> (set when the subset is empty) changes, so that a second pass over the same files
  writes nothing.
\<close>

theorem activation_writes_exactly:
  assumes "wf_sys s" "\<And>n. rd n \<noteq> NoLine"
  shows "\<exists>s' out. activate_mappings rd wr s = Some s'
    \<and> s' = s\<lparr>irqs := \<lambda>a. if a \<in> set (interrupts_db s) then map_option (after_activation rd wr s) (irqs s a) else irqs s a,
              smp_affinity_log := smp_affinity_log s @ out\<rparr>
    \<and> list_all2 binds out (due_writes rd wr s)
    \<and> activate_mappings rd wr s' = Some s'"
  using activate_mappings_exact [where rd = rd and wr = wr, OF assms]
    activate_mappings_again [where rd = rd and wr = wr, OF assms] by blast

theorem activation_writes_exactly_witness:
  "due_writes (\<lambda>_. Line ''0'') (\<lambda>_. True) (ex_sys 4) = [(32, {0}), (33, {0})]
    \<and> (\<exists>s' out. activate_mappings (\<lambda>_. Line ''0'') (\<lambda>_. True) (ex_sys 4) = Some s'
      \<and> s' = (ex_sys 4)\<lparr>irqs := \<lambda>a. if a \<in> set (interrupts_db (ex_sys 4))
            then map_option (after_activation (\<lambda>_. Line ''0'') (\<lambda>_. True) (ex_sys 4)) (irqs (ex_sys 4) a) else irqs (ex_sys 4) a,
          smp_affinity_log := smp_affinity_log (ex_sys 4) @ out\<rparr>
      \<and> list_all2 binds out [(32, {0}), (33, {0})]
      \<and> activate_mappings (\<lambda>_. Line ''0'') (\<lambda>_. True) s' = Some s')"
proof -
  have c: "c_string ''0'' = ''0''" by code_simp
  have "due_writes (\<lambda>_. Line ''0'') (\<lambda>_. True) (ex_sys 4) = [(32, {0}), (33, {0})]"
    by (simp add: due_writes_def due_write_def wanted_cpus_def c parse_zero ex_sys_def ex_irq_def ex_obj_def)
  then show ?thesis
    using activation_writes_exactly [of "ex_sys 4" "\<lambda>_. Line ''0''" "\<lambda>_. True"] by (simp add: ex_wf)
qed

section \<open>Load attribution\<close>

text \<open>
  C10. \<open>parse_proc_stat\<close>'s attribution phase returns; afterwards the load of every object of the tree is
  the sum of the loads of the cpus below it and its \<open>irq_count\<close> the number of interrupts its own irqs
  have raised since the last round.
\<close>

theorem loads_are_sums:
  assumes "ok_sys s" "ok_parents s"
  shows "\<exists>s'. attribute_loads s = Some s' \<and> same_skel s s'
    \<and> (\<forall>a d'. in_tree s a \<longrightarrow> objs s' a = Some d' \<longrightarrow>
         load d' = tree_load 4 s a \<and> irq_count d' = (\<Sum>x \<leftarrow> interrupts d'. irq_delta s x))"
  using attribute_loads_ok [OF assms] by blast

theorem loads_are_sums_witness:
  "\<exists>s'. attribute_loads (ex_sys 4) = Some s' \<and> same_skel (ex_sys 4) s'
    \<and> (\<forall>a d'. in_tree (ex_sys 4) a \<longrightarrow> objs s' a = Some d' \<longrightarrow>
         load d' = tree_load 4 (ex_sys 4) a \<and> irq_count d' = (\<Sum>x \<leftarrow> interrupts d'. irq_delta (ex_sys 4) x))"
  by (rule loads_are_sums) (simp_all add: ok_sys_def ex_wf ex_ok_levels ex_ok_parents)

section \<open>Rescanning\<close>

text \<open>
  C11. A SIGHUP (after the first cycle) makes the next cycle scan the topology again: its measuring phase
  returns, and afterwards the cpus of the tree are exactly the online cpus of the system as it is then
  that are not banned, in the order of the directory; the invariant of the loop holds again.
\<close>

theorem hangup_rescans_the_topology:
  assumes "sys_allocates (alloc M)" "loop_inv \<beta> H s" "cycle_count s \<noteq> 0" "inputs_ok H x"
  shows "\<exists>s'. gather M x (snd (force_rescan (True, s))) = Some s' \<and> loop_inv \<beta> H s'
    \<and> map (\<lambda>a. map_option number (objs s' a)) (cpus s')
      = map Some (usable_cpus (rescan_world x) (cpu_paths (rescan_world x)) (cpus_of (banned_cpus s')))"
proof -
  have t: "snd (force_rescan (True, s)) = s\<lparr>need_rescan := True\<rparr>" using assms(3) by (simp add: force_rescan_def)
  have "loop_inv \<beta> H (s\<lparr>need_rescan := True\<rparr>)" using loop_inv_flags [OF assms(2), of "cycle_count s" True] by simp
  from gather_ok [OF assms(1,4) this] show ?thesis unfolding t reflects_def cpu_numbers_def by auto
qed

theorem hangup_rescans_the_topology_witness:
  "\<exists>s'. gather ex_machine ex_inputs (snd (force_rescan (True, ex_sys 0))) = Some s' \<and> loop_inv True {HINT_POLICY_IGNORE} s'
    \<and> map (\<lambda>a. map_option number (objs s' a)) (cpus s')
      = map Some (usable_cpus (rescan_world ex_inputs) (cpu_paths (rescan_world ex_inputs)) (cpus_of (banned_cpus s')))"
  by (rule hangup_rescans_the_topology [OF ex_allocates ex_loop_inv _ ex_inputs_ok]) (simp add: ex_sys_def)

text \<open>
  C12. Building the tree and the data base and freeing them again is a round trip: on a state without
  them \<open>build_object_tree\<close> returns, all irqs can be put on the rebalance list, and \<open>free_object_tree\<close> then
  leaves a state without tree and data base again, in which no object but the static numa node and no
  descriptor of the data base is allocated.
\<close>

theorem build_free_roundtrip:
  assumes "sys_allocates al" "blank \<beta> H s" "world_ok H w"
  shows "\<exists>s1 s2 s3. build_object_tree al jk w s = Some s1 \<and> for_each_irq [] force_rebalance_irq s1 = Some s2
    \<and> free_object_tree s2 = Some s3 \<and> blank \<beta> H s3 \<and> dom (objs s3) \<subseteq> {unspecified_node}
    \<and> (\<forall>a \<in> set (interrupts_db s2) \<union> set (banned_irqs s2). irqs s3 a = None)"
proof -
  obtain s1 where s1: "build_object_tree al jk w s = Some s1" "fresh H s1" "options_ok \<beta> H s1"
    using build_object_tree_ok [OF assms] by blast
  obtain s2 where s2: "for_each_irq [] force_rebalance_irq s1 = Some s2" "loop_inv \<beta> H s2" using fresh_loop [OF s1(2,3)] by blast
  obtain s3 where s3: "free_object_tree s2 = Some s3" "blank \<beta> H s3"
    "\<forall>a \<in> set (interrupts_db s2) \<union> set (banned_irqs s2). irqs s3 a = None" using free_object_tree_ok [OF s2(2)] by blast
  then have "dom (objs s3) \<subseteq> {unspecified_node}" by (simp add: blank_def cleared_def)
  then show ?thesis using s1(1) s2(1) s3 by blast
qed

theorem build_free_roundtrip_witness:
  "\<exists>s1 s2 s3. build_object_tree first_free CPU_MASK_NONE ex_world (snd initial) = Some s1
    \<and> for_each_irq [] force_rebalance_irq s1 = Some s2 \<and> free_object_tree s2 = Some s3 \<and> blank True UNIV s3
    \<and> dom (objs s3) \<subseteq> {unspecified_node} \<and> (\<forall>a \<in> set (interrupts_db s2) \<union> set (banned_irqs s2). irqs s3 a = None)"
  by (rule build_free_roundtrip [OF first_free blank_initial(1) ex_world_ok]) simp

section \<open>Topology\<close>

text \<open>
  C13. \<open>parse_cpu_tree\<close> on a state with numa nodes only returns. The cpus of the tree are the online cpus
  that are not banned, in the order of the directory, and \<open>core_count\<close> also counts the banned ones; no
  cpu, cache domain or package has a banned cpu in its mask; children are one level below their parent,
  and a parent pointer leads to an object that has the child.
\<close>

theorem tree_of_usable_cpus:
  assumes "sys_allocates al" "only_nodes s" "cpu_sysfs_ok w (numa_avail s)"
    and "1 \<le> unat (deepest_cache s)" "unat (deepest_cache s) < 2 ^ 32"
  shows "\<exists>s'. parse_cpu_tree al jk w s = Some s'
    \<and> map (\<lambda>a. map_option number (objs s' a)) (cpus s') = map Some (usable_cpus w (cpu_paths w) (cpus_of (banned_cpus s')))
    \<and> core_count s' = length (filter (\<lambda>p. cpu_online w p = Some True) (cpu_paths w))
    \<and> (\<forall>a d. objs s' a = Some d \<longrightarrow> (obj_type d \<noteq> OBJ_TYPE_NODE \<longrightarrow> cpus_of (mask d) \<inter> cpus_of (banned_cpus s') = {})
        \<and> (\<forall>c \<in> set (children d). \<exists>e. objs s' c = Some e \<and> tree_level (obj_type d) = Suc (tree_level (obj_type e)))
        \<and> (parent d \<noteq> NULL \<longrightarrow> (\<exists>p. objs s' (parent d) = Some p \<and> a \<in> set (children p))))"
proof -
  obtain s' where s': "parse_cpu_tree al jk w s = Some s'" "built {} (3 * length (cpu_paths w)) s'"
    "cpu_numbers s' = map Some (usable_cpus w (cpu_paths w) (cpus_of (banned_cpus s')))"
    "core_count s' = length (filter (\<lambda>p. cpu_online w p = Some True) (cpu_paths w))"
    using parse_cpu_tree_ok [OF assms, of jk] by blast
  have "obj_ok {} (3 * length (cpu_paths w)) s' a d" if "objs s' a = Some d" for a d by (rule built_obj [OF s'(2) that])
  then show ?thesis using s'(1,3,4) unfolding obj_ok_def cpu_numbers_def by blast
qed

theorem tree_of_usable_cpus_witness:
  "\<exists>s'. parse_cpu_tree first_free CPU_MASK_NONE ex_world ex_nodes = Some s'
    \<and> map (\<lambda>a. map_option number (objs s' a)) (cpus s')
      = map Some (usable_cpus ex_world (cpu_paths ex_world) (cpus_of (banned_cpus s')))
    \<and> core_count s' = length (filter (\<lambda>p. cpu_online ex_world p = Some True) (cpu_paths ex_world))
    \<and> (\<forall>a d. objs s' a = Some d \<longrightarrow> (obj_type d \<noteq> OBJ_TYPE_NODE \<longrightarrow> cpus_of (mask d) \<inter> cpus_of (banned_cpus s') = {})
        \<and> (\<forall>c \<in> set (children d). \<exists>e. objs s' c = Some e \<and> tree_level (obj_type d) = Suc (tree_level (obj_type e)))
        \<and> (parent d \<noteq> NULL \<longrightarrow> (\<exists>p. objs s' (parent d) = Some p \<and> a \<in> set (children p))))"
  by (rule tree_of_usable_cpus [OF first_free ex_only_nodes(1)]) (simp_all add: ex_only_nodes ex_sysfs)

text \<open>
  C14. The loop over the cache levels of a cpu ends for every file system, as long as \<open>deepest_cache\<close> is
  positive and fits \<open>unsigned int\<close>: it returns the last level of an unbroken sequence of existing levels
  from 1 on, at most \<open>deepest_cache\<close>, and stops early only at a missing level.
\<close>

theorem cache_level_search_ends:
  assumes "1 \<le> unat deepest" "unat deepest < 2 ^ 32"
  shows "\<exists>r. cache_index_loop w path deepest 0 1 = Some r \<and> unat r \<le> unat deepest
    \<and> (\<forall>j. 1 \<le> j \<and> j \<le> unat r \<longrightarrow> stat_ok w (cache_path path (of_nat j)))
    \<and> (unat r = unat deepest \<or> \<not> stat_ok w (cache_path path (r + 1)))"
  using cache_index_loop_ok [of 1 deepest w path] assms by auto

theorem cache_level_search_ends_witness:
  "\<exists>r. cache_index_loop ex_world ''/x'' 2 0 1 = Some r \<and> unat r \<le> unat (2 :: u64)
    \<and> (\<forall>j. 1 \<le> j \<and> j \<le> unat r \<longrightarrow> stat_ok ex_world (cache_path ''/x'' (of_nat j)))
    \<and> (unat r = unat (2 :: u64) \<or> \<not> stat_ok ex_world (cache_path ''/x'' (r + 1)))"
  by (rule cache_level_search_ends) simp_all

text \<open>
  C15. Without the environment variable, the banned cpus are exactly the union of the ranges listed in
  \<open>isolated\<close> and \<open>nohz_full\<close>.
\<close>

theorem banned_cpus_are_isolated_or_nohz:
  assumes "environ w ''IRQBALANCE_BANNED_CPUS'' = None"
    and "contents w ''/sys/devices/system/cpu/isolated'' = Some (ranges_text r rs @ [newline])"
    and "contents w ''/sys/devices/system/cpu/nohz_full'' = Some (ranges_text q qs @ [newline])"
    and "\<forall>(a, b) \<in> set (r # rs @ q # qs). a \<le> b \<and> b < NR_CPUS"
  shows "\<exists>s'. setup_banned_cpus w s = Some s' \<and> s' = s\<lparr>banned_cpus := banned_cpus s'\<rparr>
    \<and> cpus_of (banned_cpus s') = (\<Union>(a, b) \<in> set (r # rs @ q # qs). {a..b})"
proof -
  have b: "\<forall>(a, b) \<in> set (r # rs). a \<le> b \<and> b < NR_CPUS" "\<forall>(a, b) \<in> set (q # qs). a \<le> b \<and> b < NR_CPUS" using assms(4) by simp_all
  obtain m where m: "read_cpulist w ''/sys/devices/system/cpu/isolated'' = Some m" "cpus_of m = (\<Union>(a, b) \<in> set (r # rs). {a..b})"
    using read_cpulist_ranges [OF assms(2) b(1)] by blast
  obtain n where n: "read_cpulist w ''/sys/devices/system/cpu/nohz_full'' = Some n" "cpus_of n = (\<Union>(a, b) \<in> set (q # qs). {a..b})"
    using read_cpulist_ranges [OF assms(3) b(2)] by blast
  show ?thesis using assms(1) m n by (auto simp: setup_banned_cpus_def)
qed

theorem banned_cpus_are_isolated_or_nohz_witness:
  "\<exists>w s'. setup_banned_cpus w (ex_sys 0) = Some s' \<and> s' = (ex_sys 0)\<lparr>banned_cpus := banned_cpus s'\<rparr>
    \<and> cpus_of (banned_cpus s') = (\<Union>(a, b) \<in> set ((1, 2) # [(4, 4)] @ (2, 3) # []). {a..b})"
proof -
  define w where "w = ex_world\<lparr>contents := (\<lambda>_. None)(''/sys/devices/system/cpu/isolated'' \<mapsto> ranges_text (1, 2) [(4, 4)] @ [newline],
    ''/sys/devices/system/cpu/nohz_full'' \<mapsto> ranges_text (2, 3) [] @ [newline])\<rparr>"
  have "\<exists>s'. setup_banned_cpus w (ex_sys 0) = Some s' \<and> s' = (ex_sys 0)\<lparr>banned_cpus := banned_cpus s'\<rparr>
    \<and> cpus_of (banned_cpus s') = (\<Union>(a, b) \<in> set ((1, 2) # [(4, 4)] @ (2, 3) # []). {a..b})"
    by (rule banned_cpus_are_isolated_or_nohz) (auto simp: w_def ex_world_def NR_CPUS_def)
  then show ?thesis by blast
qed

section \<open>The data base of irqs\<close>

text \<open>
  C16. \<open>rebuild_irq_db\<close> returns whenever its sources can be read. The new data base has pairwise different
  irq numbers, none of which is the number of a banned irq; every irq of it is unassigned, has a level
  from none to core, counters at zero and an allowed hint policy. Exactly the irqs of the PCI devices and
  those of \<open>/proc/interrupts\<close> whose name is not banned are known afterwards, in the data base or banned.
\<close>

theorem rebuilt_db:
  assumes "sys_allocates al" "db_lists s" "counts_ok s" "policies_ok H w s"
    and "irq_sources w (global_hint_policy s) = Some (nss, tmp)"
  shows "\<exists>s'. rebuild_irq_db al w s = Some s'
    \<and> (\<forall>a \<in> set (interrupts_db s'). \<exists>i. irqs s' a = Some i \<and> assigned_obj i = NULL \<and> 0 \<le> level i \<and> level i \<le> 3
         \<and> i_irq_count i = 0 \<and> last_irq_count i = 0 \<and> hint_policy i \<in> H)
    \<and> inj_on (\<lambda>a. map_option irq (irqs s' a)) (set (interrupts_db s'))
    \<and> nums s' (interrupts_db s') \<inter> nums s' (banned_irqs s' @ cl_banned_irqs s') = {}
    \<and> nums s' (interrupts_db s' @ banned_irqs s') = \<Union> (set ` set nss) \<union> listed_irqs s tmp"
proof -
  obtain s' k where s': "rebuild_irq_db al w s = Some s'" "db_ok H k s'" "known s' = \<Union> (set ` set nss) \<union> listed_irqs s tmp"
    using rebuild_irq_db_db_ok [OF assms] by blast
  have "\<exists>i. irqs s' a = Some i \<and> assigned_obj i = NULL \<and> 0 \<le> level i \<and> level i \<le> 3
         \<and> i_irq_count i = 0 \<and> last_irq_count i = 0 \<and> hint_policy i \<in> H" if a: "a \<in> set (interrupts_db s')" for a
  proof -
    obtain i where i: "irqs s' a = Some i" using db_valid(1) [OF s'(2)] a unfolding irqs_valid_def by blast
    have "db_irq_ok H i" using s'(2) a i unfolding db_ok_def by blast
    with i show ?thesis by (simp add: db_irq_ok_def)
  qed
  moreover have "inj_on (\<lambda>a. map_option irq (irqs s' a)) (set (interrupts_db s'))"
    "nums s' (interrupts_db s') \<inter> nums s' (banned_irqs s' @ cl_banned_irqs s') = {}" using s'(2) unfolding db_ok_def by blast+
  ultimately show ?thesis using s'(1,3) unfolding known_def by blast
qed

theorem rebuilt_db_witness:
  "\<exists>s'. rebuild_irq_db first_free ex_world ex_nodes = Some s'
    \<and> (\<forall>a \<in> set (interrupts_db s'). \<exists>i. irqs s' a = Some i \<and> assigned_obj i = NULL \<and> 0 \<le> level i \<and> level i \<le> 3
         \<and> i_irq_count i = 0 \<and> last_irq_count i = 0 \<and> hint_policy i \<in> {HINT_POLICY_IGNORE})
    \<and> inj_on (\<lambda>a. map_option irq (irqs s' a)) (set (interrupts_db s'))
    \<and> nums s' (interrupts_db s') \<inter> nums s' (banned_irqs s' @ cl_banned_irqs s') = {}
    \<and> nums s' (interrupts_db s' @ banned_irqs s') = \<Union> (set ` set [])
        \<union> listed_irqs ex_nodes [zero_irq\<lparr>irq := 32, hint_policy := HINT_POLICY_IGNORE, i_name := Some ''eth0''\<rparr>]"
  by (rule rebuilt_db [OF first_free ex_db_sources])

text \<open>
  C17. The class and level of a new irq. For an irq of a PCI device (\<open>dev_irq\<close>) that is not banned, the class
  is that of the device and the level the one the policy sets, or else that of the class; a device with an
  unknown class gives class other and level none, whatever the policy says. For an irq without a device
  directory (\<open>add_new_irq\<close>), banned or not, type and class are those guessed from \<open>/proc/interrupts\<close>, and the
  level is always that of the class: a level set by the policy is discarded. In both cases the call returns,
  the class is an index of the table of levels, and one descriptor is appended to the list it belongs to.
\<close>

theorem new_irq_class_and_level:
  assumes "sys_allocates al" "db_ok H k s" "policies_ok H w s"
    and "- (2 ^ 31) \<le> n" "n < 2 ^ 31" "n \<notin> known s" "\<forall>i \<in> set tmp. hint_ok i"
    and "hint_ok hint" "irq hint = n" "\<not> is_banned_irq_name (the (i_name hint)) s"
    and "\<forall>j \<in> set db. - (2 ^ 31) \<le> irq j \<and> irq j < 2 ^ 31 \<and> irq j \<noteq> n"
  shows "(\<exists>s' pol b. dev_irq al w p ty tmp n s = Some s' \<and> get_irq_user_policy w (Some p) n s = Some pol
      \<and> check_for_irq_ban n tmp s = Some b
      \<and> (if ban pol = 1 \<or> b then interrupts_db s' = interrupts_db s \<and> (\<exists>a. banned_irqs s' = banned_irqs s @ [a])
         else \<exists>a i. interrupts_db s' = interrupts_db s @ [a] \<and> banned_irqs s' = banned_irqs s \<and> irqs s' a = Some i \<and> irq i = n \<and> i_type i = ty
           \<and> (if get_irq_class w p < 0 then i_class i = IRQ_OTHER \<and> level i = BALANCE_NONE
              else i_class i = get_irq_class w p
                \<and> Some (level i) = (if 0 \<le> pol_level pol then Some (pol_level pol) else class_level (get_irq_class w p)))))
    \<and> (\<exists>s' pol b a i. add_new_irq al w n hint db s = Some s' \<and> get_irq_user_policy w None n s = Some pol
      \<and> check_for_irq_ban n db s = Some b
      \<and> (if ban pol = 1 \<or> b then interrupts_db s' = interrupts_db s \<and> banned_irqs s' = banned_irqs s @ [a]
         else interrupts_db s' = interrupts_db s @ [a] \<and> banned_irqs s' = banned_irqs s)
      \<and> irqs s' a = Some i \<and> irq i = n \<and> i_type i = i_type hint \<and> i_class i = i_class hint
      \<and> class_level (i_class hint) = Some (level i))
    \<and> (\<forall>c \<in> {get_irq_class w p, i_class hint}. c = -1 \<and> c = get_irq_class w p \<or> (\<exists>l \<in> {1..3}. class_level c = Some l))"
proof -
  have n: "int32 n" using assms(4,5) by (simp add: int32_def)
  have db: "\<forall>j \<in> set db. int32 (irq j) \<and> irq j \<noteq> irq hint" using assms(9,11) by (auto simp: int32_def)
  have kn: "irq hint \<notin> known s" using assms(6,9) by simp
  have "\<exists>l \<in> {1..3}. class_level c = Some l" if "class_ok c" for c using class_level_ok [OF that] by auto
  then have c: "\<forall>c \<in> {get_irq_class w p, i_class hint}. c = -1 \<and> c = get_irq_class w p \<or> (\<exists>l \<in> {1..3}. class_level c = Some l)"
    using get_irq_class_range [of w p] assms(8) by (auto simp: hint_ok_def)
  show ?thesis
    by (intro conjI dev_irq_new [OF assms(1-3) n assms(6,7)] add_new_irq_new [OF assms(1-3,8) kn db assms(10), unfolded assms(9)] c)
qed

theorem new_irq_class_and_level_witness:
  "(\<exists>s' a i. dev_irq first_free ex_dev_world ''/d'' IRQ_TYPE_MSIX [] 40 ex_nodes = Some s' \<and> interrupts_db s' = [a]
      \<and> irqs s' a = Some i \<and> i_class i = IRQ_ETH \<and> level i = BALANCE_PACKAGE)
    \<and> (\<exists>s' a i. add_new_irq first_free ex_dev_world 40 ex_hint_irq [] ex_nodes = Some s' \<and> interrupts_db s' = [a]
      \<and> irqs s' a = Some i \<and> i_class i = IRQ_ETH \<and> level i = BALANCE_CORE)"
proof -
  note t = new_irq_class_and_level [OF first_free ex_dev_db ex_dev_policies, of 40 "[]" ex_hint_irq "[]" "''/d''" IRQ_TYPE_MSIX]
  have n: "known ex_nodes = {}" "interrupts_db ex_nodes = []" "check_for_irq_ban 40 [] ex_nodes = Some False" "is_banned_irq_name nm ex_nodes = False" for nm
    by (simp_all add: ex_nodes_def initial_def known_def check_for_irq_ban_def is_banned_irq_name_def)
  have h: "hint_ok ex_hint_irq" "irq ex_hint_irq = 40" "i_class ex_hint_irq = IRQ_ETH" "class_level IRQ_ETH = Some BALANCE_CORE"
    by (simp_all add: hint_ok_def ex_hint_irq_def zero_irq_def class_ok_def class_level_def map_class_to_level_def IRQ_ETH_def
        BALANCE_CORE_def)
  show ?thesis using t n h ex_dev_class by (auto simp: ex_dev_policy BALANCE_PACKAGE_def IRQ_ETH_def)
qed

text \<open>
  C18. Looking up an irq number finds a descriptor exactly when the number is in the data base or banned,
  and the descriptor found has that number.
\<close>

theorem lookup_finds_known_irqs:
  assumes "db_ok H k s" "- (2 ^ 31) \<le> n" "n < 2 ^ 31"
  shows "\<exists>r. get_irq_info n s = Some r \<and> (r = None \<longleftrightarrow> n \<notin> nums s (interrupts_db s @ banned_irqs s))
    \<and> (\<forall>a. r = Some a \<longrightarrow> a \<in> set (interrupts_db s @ banned_irqs s) \<and> map_option irq (irqs s a) = Some n)"
  using get_irq_info_known [OF assms(1), of n] assms(2,3) unfolding known_def int32_def by blast

theorem lookup_finds_known_irqs_witness:
  "\<exists>s r. rebuild_irq_db first_free ex_world ex_nodes = Some s \<and> get_irq_info 32 s = Some r
    \<and> (r = None \<longleftrightarrow> 32 \<notin> nums s (interrupts_db s @ banned_irqs s))
    \<and> (\<forall>a. r = Some a \<longrightarrow> a \<in> set (interrupts_db s @ banned_irqs s) \<and> map_option irq (irqs s a) = Some 32)"
proof -
  obtain s k where s: "rebuild_irq_db first_free ex_world ex_nodes = Some s" "db_ok {HINT_POLICY_IGNORE} k s"
    using rebuild_irq_db_db_ok [OF first_free ex_db_sources] by blast
  from lookup_finds_known_irqs [OF s(2), of 32] s(1) show ?thesis by auto
qed

section \<open>Sleeping and the end of the program\<close>

text \<open>
  C19. \<open>sleep_approx\<close> ends, and asks \<open>nanosleep\<close> for a valid time: the nanoseconds are in range, and the
  time is the interval minus the microseconds of the current second.
\<close>

theorem sleep_time:
  assumes "0 \<le> tv_usec" "tv_usec < 1000000"
  shows "case sleep_approx seconds tv_usec of (sec, nsec) \<Rightarrow> 0 \<le> nsec \<and> nsec < 1000000000
    \<and> sec * 1000000000 + nsec = seconds * 1000000000 - tv_usec * 1000 \<and> (1 \<le> seconds \<longrightarrow> 0 \<le> sec)"
proof (cases "tv_usec = 0")
  case True
  then show ?thesis by (simp add: sleep_approx_def nsec_carry.simps)
next
  case False
  then have "sleep_approx seconds tv_usec = (seconds - 1, 1000000000 - tv_usec * 1000)"
    using assms by (simp add: sleep_approx_def nsec_carry.simps)
  then show ?thesis using assms False by simp
qed

theorem sleep_time_witness:
  "case sleep_approx 10 250000 of (sec, nsec) \<Rightarrow> 0 \<le> nsec \<and> nsec < 1000000000
    \<and> sec * 1000000000 + nsec = 10 * 1000000000 - 250000 * 1000 \<and> (1 \<le> (10 :: int) \<longrightarrow> 0 \<le> sec)"
  by (rule sleep_time) simp_all

text \<open>
  C20. The end of the program: from every state of the loop, if every banned name is the start of its
  block (at most one name per option), the tree, the data base and the descriptors banned on the command
  line are freed without touching an invalid pointer.
\<close>

theorem exit_frees_everything:
  assumes "loop_inv \<beta> H s" "\<forall>x \<in> set (banned_irq_names s). snd x"
  shows "\<exists>s'. main_exit s = Some s' \<and> dom (objs s') \<subseteq> {unspecified_node}
    \<and> (\<forall>a \<in> set (interrupts_db s) \<union> set (banned_irqs s) \<union> set (cl_banned_irqs s). irqs s' a = None)"
proof -
  obtain t where t: "free_object_tree s = Some t" "blank \<beta> H t" "\<forall>a \<in> set (interrupts_db s) \<union> set (banned_irqs s). irqs t a = None"
    "cl_banned_irqs t = cl_banned_irqs s" "banned_irq_names t = banned_irq_names s" using free_object_tree_ok [OF assms(1)] by blast
  have l: "lists_ok t" "dom (objs t) \<subseteq> {unspecified_node}" using t(2) by (simp_all add: blank_def cleared_def)
  then have "distinct (cl_banned_irqs t)" "\<forall>a \<in> set (cl_banned_irqs t). irqs t a \<noteq> None" by (auto simp: lists_ok_def irqs_valid_def)
  then have "for_each free_irq (cl_banned_irqs t) t = Some (t\<lparr>irqs := irqs t |` (- set (cl_banned_irqs t))\<rparr>)" by (rule free_irqs_ok)
  then have "main_exit s = Some (t\<lparr>irqs := irqs t |` (- set (cl_banned_irqs t))\<rparr>)"
    using t(1,5) assms(2) by (simp add: main_exit_def free_cl_opts_def list_all_iff)
  then show ?thesis using l(2) t(3,4) by (auto simp: restrict_map_def)
qed

theorem exit_frees_everything_witness:
  "\<exists>s'. main_exit (ex_sys 0) = Some s' \<and> dom (objs s') \<subseteq> {unspecified_node}
    \<and> (\<forall>a \<in> set (interrupts_db (ex_sys 0)) \<union> set (banned_irqs (ex_sys 0)) \<union> set (cl_banned_irqs (ex_sys 0)). irqs s' a = None)"
  by (rule exit_frees_everything [OF ex_loop_inv]) (simp add: ex_sys_def)

text \<open>
  C21. With two or more names in one \<open>--banirqname\<close> option, the end of the program passes a pointer into
  the middle of a block to \<open>free\<close>.
\<close>

theorem exit_frees_interior_pointer:
  assumes "1 < length (strtok CHR '','' name_list)"
  shows "free_cl_opts (add_banned_irqs_by_names name_list s) = None"
proof -
  obtain x y zs where z: "strtok CHR '','' name_list = x # y # zs"
    using assms by (cases "strtok CHR '','' name_list"; cases "tl (strtok CHR '','' name_list)") auto
  have n: "banned_irq_names t = banned_irq_names u" if "for_each free_irq xs u = Some t" for xs t u
    using that by (rule for_each_inv [where I = "\<lambda>t. banned_irq_names t = banned_irq_names u"])
      (auto simp: free_irq_def split: option.splits)
  have "(y, False) \<in> set (banned_irq_names (add_banned_irqs_by_names name_list s))"
    by (simp add: add_banned_irqs_by_names_def z)
  then have "\<not> list_all snd (banned_irq_names t)"
    if "for_each free_irq xs (add_banned_irqs_by_names name_list s) = Some t" for xs t
    using n [OF that] by (metis list_all_iff snd_conv)
  then show ?thesis unfolding free_cl_opts_def
    by (cases "for_each free_irq (cl_banned_irqs (add_banned_irqs_by_names name_list s)) (add_banned_irqs_by_names name_list s)") auto
qed

theorem exit_frees_interior_pointer_witness: "free_cl_opts (add_banned_irqs_by_names ''eth,usb'' (ex_sys 0)) = None"
proof -
  have "strtok CHR '','' ''eth,usb'' = [''eth'', ''usb'']" by code_simp
  then show ?thesis by (intro exit_frees_interior_pointer) simp
qed

section \<open>Text formats of masks\<close>

text \<open>
  C22. Printing a cpu mask into a buffer of more than 1152 bytes (the callers use 4096) never overruns the
  buffer, the returned length is that of the text, and parsing the text, with or without a trailing
  newline, gives the mask back.
\<close>

theorem cpumask_text_roundtrip:
  assumes "1152 < len" "line_end suf"
  shows "\<exists>tx. cpumask_scnprintf len m = Some (tx, length tx) \<and> length tx < len
    \<and> cpumask_parse_user (tx @ suf) d = (RC_OK, m)"
  by (rule cpumask_print_parse [OF assms])

theorem cpumask_text_roundtrip_witness:
  "\<exists>tx. cpumask_scnprintf 4096 (mask_of [0, 1]) = Some (tx, length tx) \<and> length tx < 4096
    \<and> cpumask_parse_user (tx @ [CHR 0x0A]) CPU_MASK_NONE = (RC_OK, mask_of [0, 1])"
  by (rule cpumask_text_roundtrip) (simp_all add: line_end_def)

text \<open>
  C23. The same round trip for bitmaps of every width: \<open>bitmap_scnprintf\<close> followed by \<open>bitmap_parse\<close>
  is the identity on the first \<open>n\<close> bits.
\<close>

theorem bitmap_text_roundtrip:
  assumes "0 < n" "n < 2 ^ 63" "BITS_TO_LONGS n \<le> length dst" "9 * ((n + 31) div 32) < buflen" "line_end suf"
  shows "\<exists>tx r. bitmap_scnprintf buflen m n = Some (tx, length tx) \<and> length tx < buflen \<and>
     bitmap_parse (tx @ suf) dst n = (RC_OK, r) \<and> length r = length dst \<and> bm_set n r = bm_set n m"
  by (rule parse_printed [OF assms])

theorem bitmap_text_roundtrip_witness:
  "\<exists>tx r. bitmap_scnprintf 64 [0x123456789ABCDEF, 5] 70 = Some (tx, length tx) \<and> length tx < 64 \<and>
     bitmap_parse (tx @ []) [0, 0] 70 = (RC_OK, r) \<and> length r = length [0 :: u64, 0]
     \<and> bm_set 70 r = bm_set 70 [0x123456789ABCDEF, 5]"
  by (rule bitmap_text_roundtrip) (simp_all add: line_end_def BITS_TO_LONGS_def BITS_PER_LONG_def)

text \<open>
  C24. \<open>bitmap_parselist\<close> reads a comma-separated list of cpus and ranges, as the kernel prints it, as the
  union of the ranges.
\<close>

theorem cpu_list_is_union:
  assumes "\<forall>(a, b) \<in> set (r # rs). a \<le> b \<and> b < n"
    and "BITS_TO_LONGS n \<le> length dst" "0 < n" "n < 2 ^ 31" "line_end suf"
  shows "\<exists>m. bitmap_parselist (ranges_text r rs @ suf) dst n = Some (RC_OK, m)
    \<and> length m = length dst \<and> bm_set n m = (\<Union>(a, b) \<in> set (r # rs). {a..b})"
  by (rule bitmap_parselist_ranges [OF assms])

theorem cpu_list_is_union_witness:
  "\<exists>m. bitmap_parselist (ranges_text (1, 3) [(7, 7)] @ [CHR 0x0A]) [0] 64 = Some (RC_OK, m)
    \<and> length m = length [0 :: u64] \<and> bm_set 64 m = (\<Union>(a, b) \<in> set ((1, 3) # [(7, 7)]). {a..b})"
  by (rule cpu_list_is_union) (simp_all add: line_end_def BITS_TO_LONGS_def BITS_PER_LONG_def)

text \<open>
  C25. The list parser on one number or range, with numbers of any size: both bounds are first reduced to
  \<open>int\<close> (modulo \<open>2 ^ 32\<close>, as the machine computes the overflowing products). The result is \<open>-EINVAL\<close> for
  a range whose reduced bounds are out of order and \<open>-ERANGE\<close> for a reduced end at or above the width, both
  with an empty mask; otherwise the bits from the reduced start to the reduced end are set, where a negative
  number from -63 to -1 stands for a bit of the first word (\<open>bit_pos\<close>) and a start at or below -64 makes
  \<open>set_bit\<close> store before the array (\<open>None\<close>). So 4294967297 is accepted as cpu 1 and 4294967295 as cpu 63.
\<close>

theorem cpu_list_item:
  assumes "BITS_TO_LONGS n \<le> length dst" "0 < n" "line_end suf"
  shows "let A = sint (of_nat a :: c_int); B = sint (of_nat b :: c_int); r = bitmap_parselist (range_text (a, b) @ suf) dst n
    in if B < A then r = Some (RC_EINVAL, bitmap_zero dst n)
       else if int n \<le> B then r = Some (RC_ERANGE, bitmap_zero dst n)
       else if A \<le> -64 then r = None
       else \<exists>m. r = Some (RC_OK, m) \<and> length m = length dst \<and> bm_set n m = {bit_pos j |j. A \<le> j \<and> j \<le> B} \<inter> {..<n}"
proof -
  define A B where AB: "A = sint (of_nat a :: c_int)" "B = sint (of_nat b :: c_int)"
  show ?thesis using bitmap_parselist_item [OF assms AB] unfolding AB [symmetric] Let_def by auto
qed

theorem cpu_list_item_witness:
  "(\<exists>m. bitmap_parselist (range_text (4294967297, 4294967297) @ []) [0] 64 = Some (RC_OK, m) \<and> bm_set 64 m = {1})
    \<and> (\<exists>m. bitmap_parselist (range_text (4294967295, 4294967295) @ []) [0] 64 = Some (RC_OK, m) \<and> bm_set 64 m = {63})
    \<and> bitmap_parselist (range_text (4294967231, 4294967232) @ []) [0] 64 = None"
proof -
  have "{bit_pos j |j. k \<le> j \<and> j \<le> k} = {bit_pos k}" for k by (auto intro: antisym)
  then show ?thesis
    using cpu_list_item [of 64 "[0]" "[]" 4294967297 4294967297] cpu_list_item [of 64 "[0]" "[]" 4294967295 4294967295]
      cpu_list_item [of 64 "[0]" "[]" 4294967231 4294967232]
    by (simp add: Let_def line_end_def BITS_TO_LONGS_def BITS_PER_LONG_def bit_pos_def) force
qed

section \<open>Linked lists\<close>

text \<open>
  C26. \<open>g_list_sort\<close> on a well-formed linked list always returns, touches no other cell, and the list it
  returns is well-formed, has the same nodes, is sorted for a total and transitive comparison, and keeps
  the order of nodes that compare as equal.
\<close>

theorem sort_refines_stable_sort:
  assumes "glist h D p ns" "stk \<notin> set ns" "stk \<noteq> NULL" "h stk \<noteq> None"
    and "\<And>x y. cmp x y \<le> 0 \<or> cmp y x \<le> 0" "\<And>x y z. cmp x y \<le> 0 \<Longrightarrow> cmp y z \<le> 0 \<Longrightarrow> cmp x z \<le> 0"
  shows "\<exists>p' h' ms. g_list_sort stk p cmp h = Some (p', h') \<and> glist h' D p' ms
    \<and> mset ms = mset ns \<and> sorted_wrt (\<lambda>a b. cmp (D a) (D b) \<le> 0) ms
    \<and> (\<forall>d. filter (\<lambda>a. cmp (D d) (D a) \<le> 0 \<and> cmp (D a) (D d) \<le> 0) ms
          = filter (\<lambda>a. cmp (D d) (D a) \<le> 0 \<and> cmp (D a) (D d) \<le> 0) ns)
    \<and> (\<forall>x. x \<notin> set (stk # ns) \<longrightarrow> h' x = h x)"
proof -
  let ?le = "\<lambda>a b. cmp (D a) (D b) \<le> 0"
  have so: "sort_order ?le" using assms(5,6) by unfold_locales blast+
  show ?thesis
    using g_list_sort_glist [OF assms(1-4), of cmp] sort_order.sorted_sort_by [OF so, of ns]
      sort_order.stable_sort_by [OF so, of _ ns] mset_sort_by [of ?le ns]
    by blast
qed

theorem sort_refines_stable_sort_witness:
  "\<exists>p' h' ms. g_list_sort 9 1 (\<lambda>x y. x - y) ex_heap = Some (p', h') \<and> glist h' ex_data p' ms
    \<and> mset ms = mset [1, 2] \<and> sorted_wrt (\<lambda>a b. ex_data a - ex_data b \<le> 0) ms
    \<and> (\<forall>d. filter (\<lambda>a. ex_data d - ex_data a \<le> 0 \<and> ex_data a - ex_data d \<le> 0) ms
          = filter (\<lambda>a. ex_data d - ex_data a \<le> 0 \<and> ex_data a - ex_data d \<le> 0) [1, 2])
    \<and> (\<forall>x. x \<notin> set (9 # [1, 2]) \<longrightarrow> h' x = ex_heap x)"
  by (rule sort_refines_stable_sort [OF ex_glist]) (auto simp: ex_heap_def)

text \<open>
  C27. \<open>g_list_foreach\<close> with a handler that moves the element it is called on to another list whenever a
  predicate holds (what the callers of \<open>for_each_irq\<close> do with \<open>migrate_irq\<close>) always returns: the two linked
  lists are then the partition of the first list, the moved elements behind those of the second.
\<close>

theorem foreach_migrate_partitions:
  assumes "allocates malloc" "finite (dom h)"
    and "glist h D f as" "glist h D t cs" "set as \<inter> set cs = {}" "distinct (map (key \<circ> D) as)"
  shows "\<exists>h' f' t' D' as' cs'. g_list_foreach f (relink_if malloc P key) (h, f, t) = Some (h', f', t')
    \<and> glist h' D' f' as' \<and> map D' as' = filter (\<lambda>d. \<not> P d) (map D as)
    \<and> glist h' D' t' cs' \<and> map D' cs' = map D cs @ filter P (map D as)"
proof -
  have d: "distinct (map D as)" using assms(6) by (metis distinct_map map_map)
  have "lists_rel malloc key D as (h, f, t) (map D as, map D cs)"
    unfolding lists_rel_def prod.case
    by (rule exI [of _ D], rule exI [of _ "[]"], rule exI [of _ cs]) (use assms in simp)
  moreover have "wseg (fst (h, f, t)) D f as"
    unfolding fst_conv by (rule wseg_dseg [of h D NULL]) (use assms(3) in \<open>simp add: glist_def\<close>)
  ultimately have "rel_option (lists_rel malloc key D []) (g_list_foreach f (relink_if malloc P key) (h, f, t))
      (for_each (move_if P) (map D as) (map D as, map D cs))"
    by (rule wk.foreach_sim)
  then show ?thesis
    using move_if_walk [of "[]" "map D as" P "map D cs"] d
    by (auto simp: lists_rel_def option_rel_Some2) blast
qed

theorem foreach_migrate_partitions_witness:
  "\<exists>h' f' t' D' as' cs'. g_list_foreach 1 (relink_if ex_malloc (\<lambda>d. d < 5) id) (ex_heap, 1, NULL) = Some (h', f', t')
    \<and> glist h' D' f' as' \<and> map D' as' = filter (\<lambda>d. \<not> d < 5) (map ex_data [1, 2])
    \<and> glist h' D' t' cs' \<and> map D' cs' = map ex_data [] @ filter (\<lambda>d. d < 5) (map ex_data [1, 2])"
  by (rule foreach_migrate_partitions [OF ex_malloc _ ex_glist])
    (simp_all add: ex_heap_def ex_data_def glist_def)

section \<open>Irq lists\<close>

text \<open>
  C28. \<open>sort_irq_list\<close> returns and permutes the list it is given into descending order of class and,
  within a class, of load; no other list changes. (The comment at its call in \<open>migrate_overloaded_irqs\<close> says
  that the list is ordered from greatest to least workload; that holds only for irqs of the same class.)
\<close>

theorem irq_list_sorted:
  assumes "wf_sys s" "get_list loc s = Some xs"
  shows "\<exists>s' ys. sort_irq_list loc s = Some s' \<and> mset ys = mset xs
    \<and> (\<forall>l. get_list l s' = (if l = loc then Some ys else get_list l s)) \<and> irqs s' = irqs s
    \<and> sorted_wrt (\<lambda>a b. \<forall>i j. irqs s a = Some i \<longrightarrow> irqs s b = Some j \<longrightarrow>
         i_class j < i_class i \<or> i_class j = i_class i \<and> i_load j \<le> i_load i) ys"
proof -
  let ?R = "\<lambda>a b. \<forall>i j. irqs s a = Some i \<longrightarrow> irqs s b = Some j \<longrightarrow>
         i_class j < i_class i \<or> i_class j = i_class i \<and> i_load j \<le> i_load i"
  obtain s' ys where s': "sort_irq_list loc s = Some s'" "irqs s' = irqs s" "mset ys = mset xs"
    "\<And>l. get_list l s' = (if l = loc then Some ys else get_list l s)"
    using sort_irq_list_ok [OF assms] by blast
  have "sorted_wrt ?R ys"
  proof (cases "length xs \<le> 1")
    case True
    then have "length ys \<le> 1" using s'(3) by (metis size_mset)
    then show ?thesis by (cases ys) auto
  next
    case False
    then obtain zs where zs: "deref_irqs xs s = Some zs"
      "put_list loc (map fst (sort_by (\<lambda>a b. sort_irqs a b \<le> 0) zs)) s = Some s'"
      using s'(1) assms(2) by (auto simp: sort_irq_list_def split: bind_splits)
    let ?zs = "sort_by (\<lambda>a b. sort_irqs a b \<le> 0) zs"
    have "get_list loc s' = Some (map fst ?zs)"
      using put_list_ok [of loc s "map fst ?zs"] zs(2) assms(2) by auto
    then have ys: "ys = map fst ?zs" using s'(4) [of loc] by simp
    have v: "irqs s a = Some i" if "(a, i) \<in> set ?zs" for a i
      using deref_irqs_Some [OF zs(1)] that by auto
    have "sorted_wrt (\<lambda>x y. ?R (fst x) (fst y)) ?zs"
      by (rule sorted_wrt_mono_rel [OF _ si.sorted_sort_by])
        (use v in \<open>auto simp: sort_irqs_def split: if_splits\<close>)
    then show ?thesis unfolding ys sorted_wrt_map .
  qed
  with s' show ?thesis by blast
qed

theorem irq_list_sorted_witness:
  "\<exists>s' ys. sort_irq_list Rebalance (ex_sys 0) = Some s' \<and> mset ys = mset [11, 12]
    \<and> (\<forall>l. get_list l s' = (if l = Rebalance then Some ys else get_list l (ex_sys 0))) \<and> irqs s' = irqs (ex_sys 0)
    \<and> sorted_wrt (\<lambda>a b. \<forall>i j. irqs (ex_sys 0) a = Some i \<longrightarrow> irqs (ex_sys 0) b = Some j \<longrightarrow>
         i_class j < i_class i \<or> i_class j = i_class i \<and> i_load j \<le> i_load i) ys"
  by (rule irq_list_sorted) (simp_all add: ex_wf ex_get_list)

text \<open>
  C29. \<open>migrate_irq\<close> takes the irq off one list, appends it to the other, marks it as moved and changes
  nothing else; it does nothing when the irq is not on the first list.
\<close>

theorem migrate_moves_one_irq:
  assumes "wf_sys s" "a \<in> set (interrupts_db s)" "irqs s a = Some i"
    and "get_list f s = Some xs" "get_list t s = Some ys" "f \<noteq> t"
  shows "if a \<in> set xs
    then \<exists>s'. migrate_irq f t a s = Some s' \<and> get_list f s' = Some (remove1 a xs) \<and> get_list t s' = Some (ys @ [a])
       \<and> (\<forall>l. l \<noteq> f \<and> l \<noteq> t \<longrightarrow> get_list l s' = get_list l s) \<and> irqs s' = (irqs s)(a \<mapsto> i\<lparr>moved := True\<rparr>)
       \<and> sys_shape s' = sys_shape s
    else migrate_irq f t a s = Some s"
proof -
  have ok: "ok_irqs s" "set xs \<subseteq> set (interrupts_db s)"
    using assms(1,4) ok_lists_list by (auto simp: wf_sys_def)
  show ?thesis
  proof (cases "a \<in> set xs")
    case True
    then show ?thesis using migrate_irq_ok [OF ok(1) assms(2-4) ok(2) True assms(5)] assms(6) by auto
  next
    case False
    then show ?thesis using migrate_irq_absent [OF ok(1) assms(2-4) ok(2) False] by simp
  qed
qed

theorem migrate_moves_one_irq_witness:
  "\<exists>s'. migrate_irq Rebalance (ObjIrqs 5) 11 (ex_sys 0) = Some s' \<and> get_list Rebalance s' = Some [12]
     \<and> get_list (ObjIrqs 5) s' = Some [11]"
  using migrate_moves_one_irq [of "ex_sys 0" 11 "ex_irq 32 7 0" Rebalance "[11, 12]" "ObjIrqs 5" "[]"]
  by (simp add: ex_wf ex_get_list) (auto simp: ex_sys_def)

section \<open>Counting interrupts\<close>

text \<open>
  C30. \<open>parse_proc_interrupts\<close> returns on every contents of the file; it changes no pointer and no
  object, and the counter of an irq never goes below the last one, so that the number of new interrupts
  (\<open>irq_count - last_irq_count\<close>, an unsigned difference) never wraps.
\<close>

theorem counting_never_wraps:
  assumes "wf_sys s" "counts_ok s" "\<forall>a \<in> set (banned_irqs s). irqs s a \<noteq> None"
  shows "\<exists>s'. parse_proc_interrupts f s = Some s' \<and> same_skel s s' \<and> objs s' = objs s
    \<and> (\<forall>a i. irqs s' a = Some i \<longrightarrow>
         unat (i_irq_count i - last_irq_count i) = unat (i_irq_count i) - unat (last_irq_count i))"
proof -
  obtain s' where s': "parse_proc_interrupts f s = Some s'" "same_skel s s'" "objs s' = objs s" "counts_ok s'"
    using parse_proc_interrupts_ok [OF assms] by blast
  have "\<forall>a i. irqs s' a = Some i \<longrightarrow>
      unat (i_irq_count i - last_irq_count i) = unat (i_irq_count i) - unat (last_irq_count i)"
    using s'(4) by (simp add: counts_ok_def unat_sub)
  with s' show ?thesis by blast
qed

theorem counting_never_wraps_witness:
  "\<exists>s'. parse_proc_interrupts (Some [''32: 50 2 x'']) (ex_sys 4) = Some s' \<and> same_skel (ex_sys 4) s' \<and> objs s' = objs (ex_sys 4)
    \<and> (\<forall>a i. irqs s' a = Some i \<longrightarrow>
         unat (i_irq_count i - last_irq_count i) = unat (i_irq_count i) - unat (last_irq_count i))"
  by (rule counting_never_wraps [OF ex_wf]) (auto simp: counts_ok_def ex_sys_def ex_irq_def)

section \<open>Bit operations\<close>

text \<open>
  C31. The shifts of bitmaps, for every width (of up to one word, for the shifts by less than a word that C
  defines) and every shift: the left shift moves every bit below the width up, drops the bits that leave the
  bitmap and fills with zeros; the right shift moves every bit down and fills with zeros, except that up to
  one word it also shifts in the bits at and above the width. On more than one word a shift by more words than
  the array has makes \<open>memset\<close> clear memory outside it: after the end for the left shift, before the start for
  the right shift, there as soon as the shift exceeds the words of the width (\<open>None\<close>).
\<close>

theorem shifts_on_all_widths:
  assumes "0 < n" "BITS_TO_LONGS n \<le> length d" "n \<le> 64 \<Longrightarrow> sh < 64"
  shows "(if n \<le> 64 \<or> sh div 64 \<le> length d
      then \<exists>r. bitmap_shift_left d s sh n = Some r \<and> length r = length d
        \<and> bm_set n r = {i. i < n \<and> sh \<le> i \<and> i - sh \<in> bm_set n s}
      else bitmap_shift_left d s sh n = None)
    \<and> (if n \<le> 64 \<or> sh div 64 \<le> BITS_TO_LONGS n
      then \<exists>r. bitmap_shift_right d s sh n = Some r \<and> length r = length d
        \<and> bm_set n r = {i. i < n \<and> i + sh \<in> bm_set (max 64 n) s}
      else bitmap_shift_right d s sh n = None)"
proof (cases "n \<le> 64")
  case True
  have "d \<noteq> []" using assms(1,2) by (auto simp: BITS_TO_LONGS_def BITS_PER_LONG_def)
  moreover have "max 64 n = 64" using True by simp
  ultimately show ?thesis using inline_shift_left [OF True _ assms(3) [OF True]] inline_shift_right [OF True _ assms(3) [OF True]] True by presburger
next
  case False
  then have "bitmap_shift_left d s sh n = gen_bitmap_shift_left d (Some s) sh n"
    "bitmap_shift_right d s sh n = gen_bitmap_shift_right d s sh n" "max 64 n = n"
    by (simp_all add: bitmap_shift_left_def bitmap_shift_right_def BITS_PER_LONG_def)
  then show ?thesis using gen_shift_left_set [OF assms(2), of sh s] gen_shift_right_set [OF assms(2), of sh s] False by presburger
qed

theorem shifts_on_all_widths_witness:
  "(\<exists>r. bitmap_shift_left [0, 0] [1, 0] 70 100 = Some r \<and> bm_set 100 r = {i. i < 100 \<and> 70 \<le> i \<and> i - 70 \<in> bm_set 100 [1, 0]})
    \<and> bitmap_shift_left [0, 0] [1, 0] 200 100 = None \<and> bitmap_shift_right [0, 0] [1, 0] 200 100 = None
    \<and> (\<exists>r. bitmap_shift_right [0] [4096] 5 10 = Some r \<and> bm_set 10 r = {i. i < 10 \<and> i + 5 \<in> bm_set 64 [4096]})"
  using shifts_on_all_widths [of 100 "[0, 0]" 70 "[1, 0]"] shifts_on_all_widths [of 100 "[0, 0]" 200 "[1, 0]"]
    shifts_on_all_widths [of 10 "[0]" 5 "[4096]"] by (auto simp: BITS_TO_LONGS_def BITS_PER_LONG_def)

section \<open>The debug output\<close>

text \<open>
  C32. In every state of the loop the debug reports return, so debug mode cannot crash the program: every
  pointer to a parent and to a numa node is valid, every class has a name, and every mask fits the buffer.
  The report of the tree is complete: it has a line for each package, cache domain and cpu and one for each
  irq on them.
\<close>

theorem debug_report_is_complete:
  assumes "loop_inv \<beta> H s"
  shows "\<exists>ls. dump_tree (log_indent journal) s = Some ls
    \<and> (\<forall>a d. objs s a = Some d \<longrightarrow> obj_type d \<noteq> OBJ_TYPE_NODE \<longrightarrow> reports (log_indent journal) s a ls)
    \<and> (\<exists>ks. dump_object_tree s = Some ks \<and> length ks = 3 * length (numa_nodes s))
    \<and> (\<exists>ks. dump_workloads s = Some ks \<and> length ks = length (interrupts_db s))"
proof -
  have s: "wf_sys s" "static H s" using assms by (simp_all add: loop_inv_def)
  have "\<forall>a \<in> set (numa_nodes s). objs s a \<noteq> None" using s(1) by (simp add: wf_sys_def ok_tree_def)
  from dump_object_tree_ok [OF this] dump_tree_ok [OF loop_printable [OF assms], of "log_indent journal"]
    dump_workloads_ok [OF loop_irqs_named [OF assms]] show ?thesis by blast
qed

theorem debug_report_is_complete_witness:
  "\<exists>ls. dump_tree (log_indent False) (ex_sys 0) = Some ls
    \<and> (\<forall>a d. objs (ex_sys 0) a = Some d \<longrightarrow> obj_type d \<noteq> OBJ_TYPE_NODE \<longrightarrow> reports (log_indent False) (ex_sys 0) a ls)
    \<and> (\<exists>ks. dump_object_tree (ex_sys 0) = Some ks \<and> length ks = 3 * length (numa_nodes (ex_sys 0)))
    \<and> (\<exists>ks. dump_workloads (ex_sys 0) = Some ks \<and> length ks = length (interrupts_db (ex_sys 0)))"
  by (rule debug_report_is_complete [OF ex_loop_inv])

text \<open>
  C33. The report \<open>parse_cpu_tree\<close> writes of the tree it has just built returns as well, for every file system
  as the kernel presents it: on a system without numa every object has its chain of parents by then.
\<close>

theorem scan_report_is_complete:
  assumes "sys_allocates al" "only_nodes s" "cpu_sysfs_ok w False" "\<not> numa_avail s"
    and "1 \<le> unat (deepest_cache s)" "unat (deepest_cache s) < 2 ^ 32"
  shows "\<exists>s' ls. parse_cpu_tree al jk w s = Some s' \<and> dump_tree (log_indent journal) s' = Some ls
    \<and> (\<forall>a d. objs s' a = Some d \<longrightarrow> obj_type d \<noteq> OBJ_TYPE_NODE \<longrightarrow> reports (log_indent journal) s' a ls)"
proof -
  obtain s' m where s': "parse_cpu_tree al jk w s = Some s'" "built {} (3 * length (cpu_paths w)) s'" "grown s'"
    "kept (s\<lparr>banned_cpus := m, unbanned_cpus := cpus_complement (unbanned_cpus s) m\<rparr>) s'"
    using parse_cpu_tree_ok [OF assms(1,2) _ assms(5,6), of w jk] assms(3,4) by auto
  have "no_tree s' = no_tree (s\<lparr>banned_cpus := m, unbanned_cpus := cpus_complement (unbanned_cpus s) m\<rparr>)"
    using s'(4) by (simp add: kept_def)
  from no_tree_eqD(5) [OF this] assms(4) have "\<not> numa_avail s'" by simp
  then have "hung {} s'" using s'(3) by (simp add: grown_def)
  from dump_tree_ok [OF built_printable [OF s'(2) this], of "log_indent journal"] s'(1) show ?thesis by blast
qed

theorem scan_report_is_complete_witness:
  "\<exists>s' ls. parse_cpu_tree first_free CPU_MASK_NONE ex_world ex_nodes = Some s' \<and> dump_tree (log_indent True) s' = Some ls
    \<and> (\<forall>a d. objs s' a = Some d \<longrightarrow> obj_type d \<noteq> OBJ_TYPE_NODE \<longrightarrow> reports (log_indent True) s' a ls)"
  by (rule scan_report_is_complete [OF first_free ex_only_nodes(1)]) (simp_all add: ex_only_nodes ex_sysfs)

section \<open>Policies and lists\<close>

text \<open>
  C34. Whatever a policy script prints, the policy of an irq is defined and its fields are in range: the level
  is -1 (not set) or one of the four balance levels.
\<close>

theorem policy_in_range:
  assumes "\<not> numa_avail s"
  shows "\<exists>pol. get_irq_user_policy w devpath n s = Some pol \<and> -1 \<le> pol_level pol \<and> pol_level pol \<le> BALANCE_CORE
    \<and> (polscript w = None \<longrightarrow> ban pol = -1 \<and> pol_level pol = -1 \<and> hintpolicy pol = global_hint_policy s)"
proof -
  obtain pol where "get_irq_user_policy w devpath n s = Some pol" "policy_ok UNIV pol"
    using get_irq_user_policy_ok [of s UNIV w devpath n] assms by auto
  then show ?thesis by (auto simp: policy_ok_def get_irq_user_policy_def)
qed

theorem policy_in_range_witness:
  "\<exists>pol. get_irq_user_policy (ex_world\<lparr>polscript := Some (\<lambda>_ _. Some [''balance_level=core''])\<rparr>) None 32 (ex_sys 0) = Some pol
    \<and> -1 \<le> pol_level pol \<and> pol_level pol \<le> BALANCE_CORE"
proof -
  have "\<not> numa_avail (ex_sys 0)" by (simp add: ex_sys_def)
  then show ?thesis
    using policy_in_range [of "ex_sys 0" "ex_world\<lparr>polscript := Some (\<lambda>_ _. Some [''balance_level=core''])\<rparr>" None 32] by blast
qed

text \<open>
  C35. Linked lists: \<open>g_list_append\<close> adds a node at the end, where \<open>g_list_last\<close> finds it, and
  \<open>g_list_delete_link\<close> of that node frees it and gives back the nodes of the list before, in their order.
\<close>

theorem append_delete_roundtrip:
  assumes "glist h D p ns" "h new = None" "new \<noteq> NULL" "D new = d"
  shows "\<exists>p' h' p'' h''. g_list_append new p d h = Some (p', h') \<and> glist h' D p' (ns @ [new])
    \<and> g_list_last p' h' = Some new \<and> g_list_length p' h' = Some (of_nat (Suc (length ns)))
    \<and> g_list_delete_link p' new h' = Some (p'', h'') \<and> glist h'' D p'' ns \<and> h'' new = None
    \<and> (\<forall>x. x \<notin> set ns \<longrightarrow> h'' x = h x)"
proof -
  obtain p' h' where a: "g_list_append new p d h = Some (p', h')" "glist h' D p' (ns @ [new])" "\<forall>x. x \<notin> set ns \<and> x \<noteq> new \<longrightarrow> h' x = h x"
    using append_ok [OF assms] by blast
  obtain p'' h'' where r: "g_list_delete_link p' new h' = Some (p'', h'')" "glist h'' D p'' (ns @ [])" "h'' new = None"
    "\<forall>x. x \<notin> set (ns @ [new]) \<longrightarrow> h'' x = h' x" using delete_link_ok [of h' D p' ns new "[]"] a(2) by auto
  have g: "dseg h' D NULL p' (ns @ [new]) NULL" using a(2) by (simp add: glist_def)
  then have "p' \<noteq> NULL" using dseg_NULL [of h' D NULL "ns @ [new]"] by (cases "p' = NULL") simp_all
  then have "g_list_last p' h' = Some new" "g_list_length p' h' = Some (of_nat (Suc (length ns)))"
    using last_loop_ok [OF g] length_loop_ok [OF g, of 0] by (simp_all add: g_list_last_def g_list_length_def)
  moreover have "h'' x = h x" if "x \<notin> set ns" for x using that a(3) r(3,4) assms(2) by (cases "x = new") auto
  ultimately show ?thesis using a(1,2) r(1-3) unfolding append_Nil2 by blast
qed

theorem append_delete_roundtrip_witness:
  "\<exists>p' h' p'' h''. g_list_append 5 1 (3 :: int) ex_heap = Some (p', h') \<and> glist h' ex_data p' ([1, 2] @ [5])
    \<and> g_list_last p' h' = Some 5 \<and> g_list_length p' h' = Some (of_nat (Suc (length [1 :: nat, 2])))
    \<and> g_list_delete_link p' 5 h' = Some (p'', h'') \<and> glist h'' ex_data p'' [1, 2] \<and> h'' 5 = None
    \<and> (\<forall>x. x \<notin> set [1, 2] \<longrightarrow> h'' x = ex_heap x)"
  by (rule append_delete_roundtrip [OF ex_glist]) (simp_all add: ex_heap_def ex_data_def)

section \<open>Bitmaps as sets\<close>

text \<open>
  C36. \<open>bitmap_weight\<close>, computed with the parallel bit count \<open>hweight64\<close>, is the number of bits set below
  the width, for every width.
\<close>

theorem weight_is_cardinality:
  assumes "0 < n"
  shows "bitmap_weight xs n = card (bm_set n xs)"
  by (rule bitmap_weight_card [OF assms])

theorem weight_is_cardinality_witness: "bitmap_weight [0xF0F0, 7] 66 = card (bm_set 66 [0xF0F0, 7])"
  by (rule weight_is_cardinality) simp

text \<open>
  C37. The inline one-word paths of \<open>bitmap.h\<close> agree with the general routines of \<open>bitmap.c\<close> on all bits
  below the width, for every operation but one, the shifts for shifts by less than a word. The exception is
  the right shift, which does not mask its source: it agrees exactly when the bits at and above the width
  that it shifts in are clear.
\<close>

theorem inline_paths_agree:
  assumes "0 < n" "n \<le> BITS_PER_LONG" "1 \<le> length d" "sh < BITS_PER_LONG"
  shows "bm_set n (bitmap_and d a b n) = bm_set n (gen_bitmap_and d a b n)
    \<and> bm_set n (bitmap_or d a b n) = bm_set n (gen_bitmap_or d a b n)
    \<and> bm_set n (bitmap_xor d a b n) = bm_set n (gen_bitmap_xor d a b n)
    \<and> bm_set n (bitmap_andnot d a b n) = bm_set n (gen_bitmap_andnot d a b n)
    \<and> bm_set n (bitmap_complement d a n) = bm_set n (gen_bitmap_complement d a n)
    \<and> bitmap_empty a n = gen_bitmap_empty a n \<and> bitmap_full a n = gen_bitmap_full a n
    \<and> bitmap_equal a b n = gen_bitmap_equal a b n \<and> bitmap_intersects a b n = gen_bitmap_intersects a b n
    \<and> bitmap_weight a n = gen_bitmap_weight a n
    \<and> map_option (bm_set n) (bitmap_shift_left d a sh n) = map_option (bm_set n) (gen_bitmap_shift_left d (Some a) sh n)
    \<and> (map_option (bm_set n) (bitmap_shift_right d a sh n) = map_option (bm_set n) (gen_bitmap_shift_right d a sh n)
         \<longleftrightarrow> (\<forall>p \<in> {max n sh..<n + sh}. \<not> bit (a ! 0) p))"
proof -
  have l: "BITS_TO_LONGS n = 1" using assms(1,2) by (simp add: BITS_TO_LONGS_def)
  have ne: "d \<noteq> []" using assms(3) by auto
  have st: "store_loop f (BITS_TO_LONGS n) d = d[0 := f 0]" for f using store_loop_Suc [of f 0 d] by (simp add: l)
  have full: "BITMAP_LAST_WORD_MASK 64 = NOT 0" by (simp add: BITMAP_LAST_WORD_MASK_def)
  show ?thesis
  proof (intro conjI)
    show "bm_set n (bitmap_and d a b n) = bm_set n (gen_bitmap_and d a b n)" "bm_set n (bitmap_or d a b n) = bm_set n (gen_bitmap_or d a b n)"
      "bm_set n (bitmap_xor d a b n) = bm_set n (gen_bitmap_xor d a b n)" "bm_set n (bitmap_andnot d a b n) = bm_set n (gen_bitmap_andnot d a b n)"
      using assms(2) by (simp_all add: bitmap_and_def gen_bitmap_and_def bitmap_or_def gen_bitmap_or_def bitmap_xor_def gen_bitmap_xor_def
          bitmap_andnot_def gen_bitmap_andnot_def st)
    show "bitmap_weight a n = gen_bitmap_weight a n" using assms(1) by (simp add: bitmap_weight_card gen_weight_card)
    note s = inline_shifts_agree [of n d sh a, OF assms(1) assms(2) [unfolded BITS_PER_LONG_def] assms(3) assms(4) [unfolded BITS_PER_LONG_def]]
    show "map_option (bm_set n) (bitmap_shift_left d a sh n) = map_option (bm_set n) (gen_bitmap_shift_left d (Some a) sh n)"
      "map_option (bm_set n) (bitmap_shift_right d a sh n) = map_option (bm_set n) (gen_bitmap_shift_right d a sh n)
         \<longleftrightarrow> (\<forall>p \<in> {max n sh..<n + sh}. \<not> bit (a ! 0) p)" by (rule s)+
  qed (use assms(1,2) store_loop_Suc [of _ 0 d] full in \<open>(cases "n = 64"; simp add: bitmap_complement_def gen_bitmap_complement_def bitmap_empty_def
      gen_bitmap_empty_def bitmap_full_def gen_bitmap_full_def bitmap_equal_def gen_bitmap_equal_def bitmap_intersects_def
      gen_bitmap_intersects_def word_xor_eq_0_iff)\<close>)+
qed

theorem inline_paths_agree_witness:
  "bm_set 5 (bitmap_and [0] [3] [6] 5) = bm_set 5 (gen_bitmap_and [0] [3] [6] 5) \<and> bitmap_weight [3] 5 = gen_bitmap_weight [3] 5
   \<and> map_option (bm_set 10) (bitmap_shift_right [0] [4096] 5 10) \<noteq> map_option (bm_set 10) (gen_bitmap_shift_right [0] [4096] 5 10)"
proof -
  have "bit (4096 :: u64) 12" by code_simp
  then have "\<not> (\<forall>p \<in> {max 10 5..<10 + 5}. \<not> bit ([4096 :: u64] ! 0) p)" by (intro notI) (drule bspec [of _ _ 12], simp_all)
  then show ?thesis using inline_paths_agree [of 5 "[0]" 0 "[3]" "[6]"] inline_paths_agree [of 10 "[0]" 5 "[4096]" "[0]"]
    by (simp add: BITS_PER_LONG_def)
qed

text \<open>
  C38. The operations on cpu masks are the operations on sets of cpu numbers below \<open>NR_CPUS\<close>: the mask
  type with \<open>cpus_and\<close> and the others refines the Boolean algebra of these sets. Setting, clearing and testing
  one cpu work on that cpu; a negative number from -63 to -1 works on a cpu of the first word (cpu 64 + c),
  because \<open>c / BITS_PER_LONG\<close> rounds towards zero (setting and clearing then shift 1 by a negative amount,
  which C leaves undefined and the machine takes modulo 64), and any other number is outside the mask (\<open>None\<close>).
\<close>

theorem masks_refine_sets:
  "cpus_of (cpus_and d a b) = cpus_of a \<inter> cpus_of b \<and> cpus_of (cpus_or d a b) = cpus_of a \<union> cpus_of b
   \<and> cpus_of (cpus_xor d a b) = (cpus_of a - cpus_of b) \<union> (cpus_of b - cpus_of a)
   \<and> cpus_of (cpus_andnot d a b) = cpus_of a - cpus_of b \<and> cpus_of (cpus_complement d a) = {..<NR_CPUS} - cpus_of a
   \<and> cpus_of (cpus_clear d) = {} \<and> cpus_of (cpus_setall d) = {..<NR_CPUS}
   \<and> (cpus_empty a \<longleftrightarrow> cpus_of a = {}) \<and> (cpus_full a \<longleftrightarrow> cpus_of a = {..<NR_CPUS}) \<and> (cpus_equal a b \<longleftrightarrow> a = b)
   \<and> (cpus_intersects a b \<longleftrightarrow> cpus_of a \<inter> cpus_of b \<noteq> {}) \<and> cpus_weight a = card (cpus_of a)
   \<and> map_option cpus_of (cpu_set c a) = (if -64 < c \<and> c < int NR_CPUS then Some (insert (if c < 0 then nat (c + 64) else nat c) (cpus_of a)) else None)
   \<and> map_option cpus_of (cpu_clear c a) = (if -64 < c \<and> c < int NR_CPUS then Some (cpus_of a - {if c < 0 then nat (c + 64) else nat c}) else None)
   \<and> cpu_isset c a = (if -64 < c \<and> c < int NR_CPUS then Some ((if c < 0 then nat (c + 64) else nat c) \<in> cpus_of a) else None)"
proof -
  have "cpus_weight a = card (cpus_of a)" unfolding cpus_of_def by (simp add: cpus_weight.rep_eq bitmap_weight_card)
  moreover have "map_option cpus_of (cpu_set c a) = (if -64 < c \<and> c < int NR_CPUS then Some (insert (if c < 0 then nat (c + 64) else nat c) (cpus_of a)) else None)"
    using cpu_set_None [of c a] cpu_set_Some [of c a] by (cases "cpu_set c a") (auto simp: bit_pos_def)
  moreover have "map_option cpus_of (cpu_clear c a) = (if -64 < c \<and> c < int NR_CPUS then Some (cpus_of a - {if c < 0 then nat (c + 64) else nat c}) else None)"
    using cpu_clear_None [of c a] cpu_clear_Some [of c a] by (cases "cpu_clear c a") (auto simp: bit_pos_def)
  ultimately show ?thesis by (simp add: cpus_of_xor cpus_full_iff cpus_of_inject cpu_isset_eq bit_pos_def)
qed

text \<open>
  C39. A value of \<open>IRQBALANCE_BANNED_CPUS\<close> that starts with hexadecimal digits followed by a character that
  is neither a digit, a comma nor a space is not reported: \<open>cpumask_parse_user\<close> fails with \<open>EINVAL\<close> or
  \<open>EOVERFLOW\<close>, \<open>setup_banned_cpus\<close> does not look at the result, and no cpu is banned, not even one of
  \<open>isolated\<close> or \<open>nohz_full\<close>.
\<close>

theorem bad_banned_cpus_are_ignored:
  assumes "environ w ''IRQBALANCE_BANNED_CPUS'' = Some (ds @ x # rest)" "\<forall>c \<in> set ds. isxdigit c"
    and "\<not> isxdigit x" "\<not> isspace x" "x \<noteq> CHR '',''" "x \<noteq> NUL"
  shows "fst (cpumask_parse_user (c_string (ds @ x # rest)) (banned_cpus s)) \<in> {RC_EINVAL, RC_EOVERFLOW}
    \<and> setup_banned_cpus w s = Some (s\<lparr>banned_cpus := CPU_MASK_NONE\<rparr>)"
proof -
  have "c_string (ds @ x # rest) = ds @ x # c_string rest"
    using assms(2,6) xdigit_plain unfolding c_string_def by (subst takeWhile_append2) auto
  then show ?thesis using parse_user_stops [OF assms(2-6), of "c_string rest" "banned_cpus s"] assms(1) by (simp add: setup_banned_cpus_def)
qed

theorem bad_banned_cpus_are_ignored_witness:
  "setup_banned_cpus (ex_world\<lparr>environ := (environ ex_world)(''IRQBALANCE_BANNED_CPUS'' := Some ''0x6'')\<rparr>) (ex_sys 0)
     = Some ((ex_sys 0)\<lparr>banned_cpus := CPU_MASK_NONE\<rparr>)"
proof -
  have "isxdigit CHR ''0''" "\<not> isxdigit CHR ''x''" "\<not> isspace CHR ''x''" "CHR ''x'' \<noteq> NUL" by code_simp+
  then show ?thesis
    using bad_banned_cpus_are_ignored [of "ex_world\<lparr>environ := (environ ex_world)(''IRQBALANCE_BANNED_CPUS'' := Some ''0x6'')\<rparr>"
        "''0''" "CHR ''x''" "''6''" "ex_sys 0"] by simp
qed

section \<open>Hints with banned cpus\<close>

text \<open>
  C40. The hint policy \<open>subset\<close>, which the theorems on runs exclude, can write a banned cpu. There is a state of the
  loop from which a balancing round, when the affinity file has another mask, writes a mask that has a banned cpu:
  no package meets the hint, the irq stays on the unspecified node with the mask of all cpus, and the activation
  asks only that some cpu of the hint is not banned.
\<close>

theorem subset_hint_writes_banned_cpu:
  "\<exists>s x s' n tx m. loop_inv True {HINT_POLICY_SUBSET} s \<and> smp_affinity_log s = [] \<and> balance x s = Some s'
    \<and> (n, tx) \<in> set (smp_affinity_log s') \<and> cpumask_parse_user tx CPU_MASK_NONE = (RC_OK, m)
    \<and> cpus_of m \<inter> cpus_of (banned_cpus s) \<noteq> {} \<and> \<not> safe_write s' (n, tx)"
proof -
  obtain s' tx m where b: "balance ex_rewrite ex_hint = Some s'" "smp_affinity_log s' = [(32, tx)]"
    "cpumask_parse_user tx CPU_MASK_NONE = (RC_OK, m)" "cpus_of m = {7, 1}" "banned_cpus s' = banned_cpus ex_hint"
    using ex_hint_balance by blast
  have e: "banned_cpus ex_hint = mask_of [1]" "smp_affinity_log ex_hint = []" by (simp_all add: ex_hint_def ex_sys_def)
  then have "cpus_of m \<inter> cpus_of (banned_cpus ex_hint) \<noteq> {}" using b(4) by simp
  then have "\<not> safe_write s' (32, tx)" using b(3,5) by (simp add: safe_write_def)
  moreover have "(32, tx) \<in> set (smp_affinity_log s')" using b(2) by simp
  ultimately show ?thesis using ex_hint_loop e(2) b(1,3) \<open>cpus_of m \<inter> cpus_of (banned_cpus ex_hint) \<noteq> {}\<close> by blast
qed

end
